(* ===== verification/Prelude.thy ===== *)
theory Prelude
  imports Main "HOL-Library.Sublist"
begin

text \<open>
  Shared vocabulary of the development: the ways a C++ operation of the server can fail,
  the error monad over them, and the operations of \<open>std::string\<close>, \<open>size_t\<close>, \<open>std::stoi\<close>,
  \<open>atoi\<close> and \<open>std::to_string\<close> that the sources call, with the lemmas the components share.
  Strings are \<^typ>\<open>string\<close> (lists of bytes).
\<close>

named_theorems cxx_simps \<open>equations of the modelled C++ library operations\<close>
named_theorems char_facts \<open>facts on the character classes of the lexers and parsers\<close>

section \<open>Failures of C++ operations\<close>

text \<open>
  \<open>Throw_*\<close>: an exception leaves the operation. \<open>UB_*\<close>: the operation has undefined behaviour
  (an index past the end of a vector, \<open>top\<close>/\<open>pop\<close> of an empty stack, a null dereference, a
  signed overflow, an access outside a buffer, \<open>atoi\<close> of an unrepresentable number,
  reading an uninitialised object, a call on a destroyed object).
\<close>

datatype cxx_error =
    Throw_out_of_range
  | Throw_invalid_argument
  | Throw_system_error
  | UB_index
  | UB_empty_stack
  | UB_null_deref
  | UB_overflow
  | UB_buffer
  | UB_atoi
  | UB_uninitialised
  | UB_dangling

type_synonym 'a result = "cxx_error + 'a"

definition and_then :: "'a result \<Rightarrow> ('a \<Rightarrow> 'b result) \<Rightarrow> 'b result" where
  "and_then r f = (case r of Inl e \<Rightarrow> Inl e | Inr x \<Rightarrow> f x)"

lemma and_then_simps [simp]:
  "and_then (Inl e) f = Inl e"
  "and_then (Inr x) f = f x"
  by (simp_all add: and_then_def)

lemma and_then_eq_Inr [simp]: "and_then r f = Inr y \<longleftrightarrow> (\<exists>x. r = Inr x \<and> f x = Inr y)"
  by (cases r) simp_all

lemma and_then_cong [fundef_cong]:
  "r = r' \<Longrightarrow> (\<And>x. r' = Inr x \<Longrightarrow> f x = g x) \<Longrightarrow> and_then r f = and_then r' g"
  by (cases r') simp_all

text \<open>An operation applied to the elements of a list in order; the first failure ends the loop.\<close>

fun map_result :: "('a \<Rightarrow> 'b result) \<Rightarrow> 'a list \<Rightarrow> 'b list result" where
  "map_result f [] = Inr []"
| "map_result f (x # xs) = and_then (f x) (\<lambda>y. and_then (map_result f xs) (\<lambda>ys. Inr (y # ys)))"

section \<open>Machine integers\<close>

text \<open>\<open>size_t\<close> has 64 bits and \<open>int\<close> 32 bits on the target.\<close>

definition size_minus :: "nat \<Rightarrow> nat \<Rightarrow> nat" where
  "size_minus a b = nat ((int a - int b) mod 2 ^ 64)"

definition size_of_int :: "int \<Rightarrow> nat" where
  "size_of_int i = nat (i mod 2 ^ 64)"

definition INT_MAX :: int where "INT_MAX = 2 ^ 31 - 1"
definition INT_MIN :: int where "INT_MIN = - (2 ^ 31)"

definition in_int :: "int \<Rightarrow> bool" where
  "in_int i \<longleftrightarrow> INT_MIN \<le> i \<and> i \<le> INT_MAX"

definition size_plus :: "nat \<Rightarrow> nat \<Rightarrow> nat" where
  "size_plus a b = (a + b) mod 2 ^ 64"

text \<open>Narrowing a \<open>size_t\<close> to an \<open>int\<close> keeps the low 32 bits.\<close>

definition int_of_size :: "nat \<Rightarrow> int" where
  "int_of_size n = (int n + 2 ^ 31) mod 2 ^ 32 - 2 ^ 31"

lemma int_of_size_small [cxx_simps]: "int n \<le> INT_MAX \<Longrightarrow> int_of_size n = int n"
  unfolding int_of_size_def INT_MAX_def by (subst mod_pos_pos_trivial) auto

lemma size_plus_small [cxx_simps]: "a + b < 2 ^ 64 \<Longrightarrow> size_plus a b = a + b"
  by (simp add: size_plus_def)

lemma size_minus_le [cxx_simps]: "b \<le> a \<Longrightarrow> a < 2 ^ 64 \<Longrightarrow> size_minus a b = a - b"
  unfolding size_minus_def by (subst mod_pos_pos_trivial) auto

lemma size_of_int_nonneg [cxx_simps]: "0 \<le> i \<Longrightarrow> i < 2 ^ 64 \<Longrightarrow> size_of_int i = nat i"
  by (simp add: size_of_int_def)

lemma size_of_int_minus1 [cxx_simps]: "size_of_int (- 1) = 2 ^ 64 - 1"
  by (simp add: size_of_int_def)

section \<open>\<open>std::string\<close>\<close>

definition substr :: "string \<Rightarrow> nat \<Rightarrow> nat \<Rightarrow> string result" where
  "substr s pos n = (if pos > length s then Inl Throw_out_of_range else Inr (take n (drop pos s)))"

definition substr_from :: "string \<Rightarrow> nat \<Rightarrow> string result" where
  "substr_from s pos = (if pos > length s then Inl Throw_out_of_range else Inr (drop pos s))"

text \<open>\<open>s.compare(pos, n, t) == 0\<close>\<close>

definition compare_eq :: "string \<Rightarrow> nat \<Rightarrow> nat \<Rightarrow> string \<Rightarrow> bool result" where
  "compare_eq s pos n t =
     (if pos > length s then Inl Throw_out_of_range else Inr (take n (drop pos s) = t))"

text \<open>\<open>s.find(t)\<close> and \<open>s.rfind(t)\<close>; \<open>npos\<close> is \<^const>\<open>None\<close>.\<close>

fun str_find :: "string \<Rightarrow> string \<Rightarrow> nat option" where
  "str_find t [] = (if t = [] then Some 0 else None)"
| "str_find t (c # s) = (if prefix t (c # s) then Some 0 else map_option Suc (str_find t s))"

fun str_rfind :: "string \<Rightarrow> string \<Rightarrow> nat option" where
  "str_rfind t [] = (if t = [] then Some 0 else None)"
| "str_rfind t (c # s) =
     (case str_rfind t s of
        Some i \<Rightarrow> Some (Suc i)
      | None \<Rightarrow> (if prefix t (c # s) then Some 0 else None))"

lemma str_find_Some:
  "str_find t s = Some i \<Longrightarrow>
     i + length t \<le> length s \<and> prefix t (drop i s) \<and> (\<forall>j < i. \<not> prefix t (drop j s))"
proof (induction s arbitrary: i)
  case Nil
  then show ?case by (auto split: if_splits)
next
  case (Cons c s)
  show ?case
  proof (cases "prefix t (c # s)")
    case True
    with Cons.prems show ?thesis by (auto dest: prefix_length_le)
  next
    case False
    with Cons.prems obtain k where k: "str_find t s = Some k" "i = Suc k" by auto
    have "\<not> prefix t (drop j (c # s))" if "j < i" for j
      using that k Cons.IH[OF k(1)] False by (cases j) auto
    with k Cons.IH[OF k(1)] show ?thesis by auto
  qed
qed

lemma str_find_None: "str_find t s = None \<longleftrightarrow> (\<forall>j \<le> length s. \<not> prefix t (drop j s))"
proof (induction s)
  case Nil
  then show ?case by auto
next
  case (Cons c s)
  have "(\<forall>j \<le> length (c # s). \<not> prefix t (drop j (c # s))) \<longleftrightarrow>
        \<not> prefix t (c # s) \<and> (\<forall>j \<le> length s. \<not> prefix t (drop j s))"
    by (auto simp: less_Suc_eq_le[symmetric] All_less_Suc2)
  with Cons show ?case by auto
qed

lemma str_find_unique:
  assumes "prefix t (drop i s)" "i \<le> length s" "\<forall>j < i. \<not> prefix t (drop j s)"
  shows "str_find t s = Some i"
proof (cases "str_find t s")
  case None
  with assms show ?thesis by (auto simp: str_find_None)
next
  case (Some k)
  with str_find_Some[OF Some] assms show ?thesis
    by (metis linorder_neqE_nat)
qed

lemma str_rfind_None: "str_rfind t s = None \<Longrightarrow> j \<le> length s \<Longrightarrow> \<not> prefix t (drop j s)"
proof (induction s arbitrary: j)
  case Nil
  then show ?case by (auto split: if_splits)
next
  case (Cons d s)
  then show ?case by (cases j) (auto split: option.splits if_splits)
qed

lemma str_rfind_Some:
  "str_rfind t s = Some i \<Longrightarrow>
     i + length t \<le> length s \<and> prefix t (drop i s) \<and>
     (\<forall>j. i < j \<longrightarrow> j \<le> length s \<longrightarrow> \<not> prefix t (drop j s))"
proof (induction s arbitrary: i)
  case Nil
  then show ?case by (auto split: if_splits)
next
  case (Cons c s)
  show ?case
  proof (cases "str_rfind t s")
    case None
    with Cons.prems have p: "prefix t (c # s)" "i = 0" by (auto split: if_splits)
    have none: "\<not> prefix t (drop j s)" if "j \<le> length s" for j
      using str_rfind_None[OF None] that by blast
    show ?thesis
      using p none by (auto dest: prefix_length_le simp: less_Suc_eq_le gr0_conv_Suc)
  next
    case (Some k)
    with Cons.prems have "i = Suc k" by simp
    with Cons.IH[OF Some] show ?thesis
      by (auto simp: Suc_less_eq2)
  qed
qed

lemma str_rfind_unique:
  assumes "prefix t (drop i s)" "i \<le> length s" "\<forall>j. i < j \<longrightarrow> j \<le> length s \<longrightarrow> \<not> prefix t (drop j s)"
  shows "str_rfind t s = Some i"
proof (cases "str_rfind t s")
  case None
  with assms show ?thesis using str_rfind_None[of t s i] by simp
next
  case (Some k)
  from str_rfind_Some[OF Some] assms have "\<not> i < k" "\<not> k < i" by auto
  with Some show ?thesis by simp
qed

lemma str_find_skip:
  "t \<noteq> [] \<Longrightarrow> hd t \<notin> set p \<Longrightarrow> str_find t (p @ s) = map_option (\<lambda>i. length p + i) (str_find t s)"
proof (induction p)
  case Nil
  then show ?case by (simp add: option.map_ident)
next
  case (Cons c p)
  then have "\<not> prefix t (c # p @ s)" by (cases t) auto
  with Cons show ?case by (simp add: option.map_comp o_def)
qed

lemma str_find_append_prefix:
  assumes "t \<noteq> []" and "\<forall>j < length p. \<not> prefix t (drop j (p @ t @ s))"
  shows "str_find t (p @ t @ s) = Some (length p)"
  by (rule str_find_unique) (use assms in auto)

text \<open>The idiom of the handlers that makes a path end in a slash:
  \<open>s.compare(len - 1, 1, "/") != 0 ? s + "/" : s\<close> with \<open>int len = s.length()\<close>\<close>

definition with_slash :: "string \<Rightarrow> string result" where
  "with_slash s =
     (let len = int_of_size (length s) in
      if len = INT_MIN then Inl UB_overflow
      else and_then (compare_eq s (size_of_int (len - 1)) 1 ''/'') (\<lambda>eq.
             Inr (if eq then s else s @ ''/'')))"

lemma with_slash_suffix:
  assumes "with_slash s = Inr t" "int (length s) \<le> INT_MAX"
  shows "s \<noteq> [] \<and> suffix ''/'' t \<and> (t = s \<or> t = s @ ''/'')"
proof -
  have small: "int_of_size (length s) = int (length s)" using assms(2) by (rule int_of_size_small)
  have ne: "s \<noteq> []"
    using assms(1) by (auto simp: with_slash_def compare_eq_def cxx_simps INT_MIN_def int_of_size_def)
  then obtain r c where s: "s = r @ [c]" by (cases s rule: rev_exhaust) auto
  have "size_of_int (int (length s) - 1) = length r"
    using s assms(2) by (simp add: size_of_int_nonneg INT_MAX_def)
  with assms(1) small s ne show ?thesis
    by (auto simp: with_slash_def compare_eq_def suffix_def Let_def split: if_splits)
qed

section \<open>Decimal numbers\<close>

definition is_space :: "char \<Rightarrow> bool" where
  "is_space c \<longleftrightarrow> c \<in> set [CHR '' '', CHR 0x09, CHR 0x0A, CHR 0x0B, CHR 0x0C, CHR 0x0D]"

definition is_dec :: "char \<Rightarrow> bool" where
  "is_dec c \<longleftrightarrow> 48 \<le> (of_char c :: nat) \<and> (of_char c :: nat) \<le> 57"

definition digit_char :: "nat \<Rightarrow> char" where
  "digit_char d = char_of (48 + d)"

definition digit_val :: "char \<Rightarrow> nat" where
  "digit_val c = of_char c - 48"

fun to_string :: "nat \<Rightarrow> string" where
  "to_string n =
     (if n < 10 then [digit_char n] else to_string (n div 10) @ [digit_char (n mod 10)])"

declare to_string.simps [simp del]

text \<open>
  The conversion \<open>strtol\<close> performs in base 10: leading white space, an optional sign, then
  the longest run of digits; \<^const>\<open>None\<close> when there is no digit.
\<close>

definition digits_val :: "string \<Rightarrow> nat" where
  "digits_val ds = foldl (\<lambda>a c. 10 * a + digit_val c) 0 ds"

definition strtol :: "string \<Rightarrow> int option" where
  "strtol s =
     (let s1 = dropWhile is_space s;
          (neg, s2) = (case s1 of
                         c # r \<Rightarrow> if c = CHR ''-'' then (True, r)
                                  else if c = CHR ''+'' then (False, r) else (False, s1)
                       | [] \<Rightarrow> (False, []));
          ds = takeWhile is_dec s2
      in if ds = [] then None
         else Some (if neg then - int (digits_val ds) else int (digits_val ds)))"

definition stoi :: "string \<Rightarrow> int result" where
  "stoi s = (case strtol s of
       None \<Rightarrow> Inl Throw_invalid_argument
     | Some i \<Rightarrow> if in_int i then Inr i else Inl Throw_out_of_range)"

definition atoi :: "string \<Rightarrow> int result" where
  "atoi s = (case strtol s of
       None \<Rightarrow> Inr 0
     | Some i \<Rightarrow> if in_int i then Inr i else Inl UB_atoi)"

lemma digit_char_is_dec: "d < 10 \<Longrightarrow> is_dec (digit_char d)"
  by (simp add: is_dec_def digit_char_def)

lemma digit_val_digit_char: "d < 10 \<Longrightarrow> digit_val (digit_char d) = d"
  by (simp add: digit_val_def digit_char_def)

lemma to_string_nonempty [simp]: "to_string n \<noteq> []"
  by (subst to_string.simps) simp

lemma to_string_digits: "\<forall>c \<in> set (to_string n). is_dec c"
proof (induction n rule: to_string.induct)
  case (1 n)
  show ?case
    by (subst to_string.simps) (use 1 in \<open>auto simp: digit_char_is_dec\<close>)
qed

lemma digits_val_to_string: "digits_val (to_string n) = n"
proof (induction n rule: to_string.induct)
  case (1 n)
  show ?case
    by (subst to_string.simps)
      (use 1 in \<open>auto simp: digits_val_def digit_val_digit_char\<close>)
qed

lemma is_dec_not_space: "is_dec c \<Longrightarrow> \<not> is_space c"
  by (auto simp: is_dec_def is_space_def)

lemma is_dec_not_sign: "is_dec c \<Longrightarrow> c \<noteq> CHR ''-'' \<and> c \<noteq> CHR ''+''"
  by (auto simp: is_dec_def)

lemma strtol_digits:
  assumes "ds \<noteq> []" "\<forall>c \<in> set ds. is_dec c"
  shows "strtol ds = Some (int (digits_val ds))"
proof -
  obtain c r where ds: "ds = c # r" using assms(1) by (cases ds) auto
  have c: "\<not> is_space c" "c \<noteq> CHR ''-''" "c \<noteq> CHR ''+''"
    using assms(2) ds is_dec_not_space[of c] is_dec_not_sign[of c] by simp_all
  have "takeWhile is_dec ds = ds" using assms(2) by (simp add: takeWhile_eq_all_conv)
  with c ds show ?thesis by (simp add: strtol_def)
qed

lemma stoi_to_string: "int n \<le> INT_MAX \<Longrightarrow> stoi (to_string n) = Inr (int n)"
  by (simp add: stoi_def strtol_digits to_string_digits digits_val_to_string in_int_def INT_MIN_def)

lemma stoi_in_int: "stoi s = Inr i \<Longrightarrow> in_int i"
  by (auto simp: stoi_def split: option.splits if_splits)

lemma atoi_to_string: "int n \<le> INT_MAX \<Longrightarrow> atoi (to_string n) = Inr (int n)"
  by (simp add: atoi_def strtol_digits to_string_digits digits_val_to_string in_int_def INT_MIN_def)

section \<open>Line breaks\<close>

abbreviation (input) CR :: char where "CR \<equiv> CHR 0x0D"
abbreviation (input) LF :: char where "LF \<equiv> CHR 0x0A"
abbreviation (input) TAB :: char where "TAB \<equiv> CHR 0x09"
abbreviation (input) SP :: char where "SP \<equiv> CHR 0x20"
abbreviation (input) CRLF :: string where "CRLF \<equiv> [CR, LF]"

end
