(* ===== verification/Std_Map.thy ===== *)
theory Std_Map
  imports Prelude "HOL-Library.List_Lexorder" "HOL-Library.Char_ord"
begin

text \<open>
  The ordered container \<open>std::map\<close>, which holds the headers of a request and of a response
  and the location table of the server.  Its iteration order is observable (a response is
  printed in it, the dispatcher scans it), so the model is the list of entries in increasing
  key order.  Keys are byte strings under the lexicographic order of \<open>std::string\<close>,
  which compares bytes as unsigned values.  The locale \<open>std_map\<close> is the interface the
  clients rely on; it is interpreted on the entry lists at the end.
\<close>

section \<open>The interface\<close>

locale std_map =
  fixes empty :: 'm
    and find :: "'m \<Rightarrow> 'k::linorder \<Rightarrow> 'v option"
    and insert :: "'k \<Rightarrow> 'v \<Rightarrow> 'm \<Rightarrow> 'm"
    and assign :: "'k \<Rightarrow> 'v \<Rightarrow> 'm \<Rightarrow> 'm"
    and erase :: "'k \<Rightarrow> 'm \<Rightarrow> 'm"
    and elems :: "'m \<Rightarrow> ('k \<times> 'v) list"
    and invar :: "'m \<Rightarrow> bool"
  assumes invar_empty: "invar empty"
    and invar_insert: "invar m \<Longrightarrow> invar (insert k v m)"
    and invar_assign: "invar m \<Longrightarrow> invar (assign k v m)"
    and invar_erase: "invar m \<Longrightarrow> invar (erase k m)"
    and find_empty: "find empty = Map.empty"
    and find_insert: "invar m \<Longrightarrow>
      find (insert k v m) = (if find m k = None then (find m)(k \<mapsto> v) else find m)"
    and find_assign: "invar m \<Longrightarrow> find (assign k v m) = (find m)(k \<mapsto> v)"
    and find_erase: "invar m \<Longrightarrow> find (erase k m) = (find m)(k := None)"
    and elems_find: "invar m \<Longrightarrow> map_of (elems m) = find m"
    and elems_sorted: "invar m \<Longrightarrow> sorted_wrt (<) (map fst (elems m))"
begin

lemmas map_specs =
  invar_empty invar_insert invar_assign invar_erase
  find_empty find_insert find_assign find_erase

lemma elems_distinct: "invar m \<Longrightarrow> distinct (map fst (elems m))"
  using elems_sorted[of m] by (simp add: strict_sorted_iff)

lemma elems_iff: "invar m \<Longrightarrow> (k, v) \<in> set (elems m) \<longleftrightarrow> find m k = Some v"
  by (simp add: elems_find[symmetric] map_of_eq_Some_iff elems_distinct)

text \<open>Iteration is canonical: maps that answer every lookup alike are traversed alike.\<close>

lemma elems_ext:
  assumes "invar m" "invar m'" "find m = find m'"
  shows "elems m = elems m'"
proof -
  let ?f = "\<lambda>k. (k, the (find m k))"
  have rebuild: "elems n = map (\<lambda>k. (k, the (find n k))) (map fst (elems n))" if "invar n" for n
  proof -
    have "\<forall>e \<in> set (elems n). e = (\<lambda>k. (k, the (find n k))) (fst e)"
      using elems_iff[OF that] by fastforce
    then show ?thesis by (simp add: map_idI)
  qed
  have "fst ` set (elems m) = fst ` set (elems m')"
    using elems_iff[OF assms(1)] elems_iff[OF assms(2)] assms(3) by force
  then have "map fst (elems m) = map fst (elems m')"
    by (intro strict_sorted_equal elems_sorted assms) simp
  then show ?thesis
    using rebuild[OF assms(1)] rebuild[OF assms(2)] assms(3) by metis
qed

lemma invar_inserts: "invar m \<Longrightarrow> invar (fold (\<lambda>(k, v). insert k v) kvs m)"
  by (induction kvs arbitrary: m) (auto simp: invar_insert)

text \<open>Inserting entries with new, pairwise different keys adds exactly those entries.\<close>

lemma find_inserts:
  "invar m \<Longrightarrow> distinct (map fst kvs) \<Longrightarrow> (\<And>k. k \<in> fst ` set kvs \<Longrightarrow> find m k = None) \<Longrightarrow>
   find (fold (\<lambda>(k, v). insert k v) kvs m) = find m ++ map_of kvs"
proof (induction kvs arbitrary: m)
  case Nil
  then show ?case by simp
next
  case (Cons kv kvs)
  obtain k v where kv: "kv = (k, v)" by (cases kv)
  have "find (fold (\<lambda>(k, v). insert k v) kvs (insert k v m)) = (find m)(k \<mapsto> v) ++ map_of kvs"
    using Cons.prems kv by (subst Cons.IH) (auto simp: invar_insert find_insert)
  moreover have "(find m)(k \<mapsto> v) ++ map_of kvs = find m ++ map_of (kv # kvs)"
    using Cons.prems(2) kv
    by (simp add: map_add_upd_left dom_map_of_conv_image_fst)
  ultimately show ?case using kv by (simp only: fold_Cons o_apply prod.case)
qed

text \<open>Re-inserting all entries of a map into an empty one gives the map back.\<close>

lemma elems_rebuild:
  assumes "invar m"
  shows "elems (fold (\<lambda>(k, v). insert k v) (elems m) empty) = elems m"
proof (rule elems_ext)
  show "invar (fold (\<lambda>(k, v). insert k v) (elems m) empty)"
    by (rule invar_inserts) (rule invar_empty)
  show "find (fold (\<lambda>(k, v). insert k v) (elems m) empty) = find m"
    using assms by (subst find_inserts) (simp_all add: invar_empty find_empty elems_distinct elems_find)
qed (rule assms)

end

section \<open>Entry lists in key order\<close>

type_synonym ('k, 'v) entries = "('k \<times> 'v) list"

definition map_find :: "('k, 'v) entries \<Rightarrow> 'k \<Rightarrow> 'v option" where
  "map_find m k = map_of m k"

fun map_insert :: "'k::linorder \<Rightarrow> 'v \<Rightarrow> ('k, 'v) entries \<Rightarrow> ('k, 'v) entries" where
  "map_insert k v [] = [(k, v)]"
| "map_insert k v ((a, b) # m) =
     (if k < a then (k, v) # (a, b) # m
      else if k = a then (a, b) # m
      else (a, b) # map_insert k v m)"

fun map_assign :: "'k::linorder \<Rightarrow> 'v \<Rightarrow> ('k, 'v) entries \<Rightarrow> ('k, 'v) entries" where
  "map_assign k v [] = [(k, v)]"
| "map_assign k v ((a, b) # m) =
     (if k < a then (k, v) # (a, b) # m
      else if k = a then (a, v) # m
      else (a, b) # map_assign k v m)"

definition map_erase :: "'k \<Rightarrow> ('k, 'v) entries \<Rightarrow> ('k, 'v) entries" where
  "map_erase k m = filter (\<lambda>(a, _). a \<noteq> k) m"

definition map_ok :: "('k::linorder, 'v) entries \<Rightarrow> bool" where
  "map_ok m \<longleftrightarrow> sorted_wrt (<) (map fst m)"

lemma keys_insert: "fst ` set (map_insert k v m) = insert k (fst ` set m)"
  by (induction k v m rule: map_insert.induct) auto

lemma keys_assign: "fst ` set (map_assign k v m) = insert k (fst ` set m)"
  by (induction k v m rule: map_assign.induct) auto

lemma map_find_simps [simp]:
  "map_find [] k = None"
  "map_find ((a, b) # m) k = (if k = a then Some b else map_find m k)"
  by (simp_all add: map_find_def)

lemma map_find_smaller: "\<forall>a \<in> fst ` set m. (k::'k::linorder) < a \<Longrightarrow> map_find m k = None"
  by (induction m) auto

lemma map_ok_Cons [simp]:
  "map_ok []" "map_ok ((a, b) # m) \<longleftrightarrow> (\<forall>k \<in> fst ` set m. a < k) \<and> map_ok m"
  by (simp_all add: map_ok_def)

lemma map_ok_insert: "map_ok m \<Longrightarrow> map_ok (map_insert k v m)"
  by (induction k v m rule: map_insert.induct) (auto simp: keys_insert)

lemma map_ok_assign: "map_ok m \<Longrightarrow> map_ok (map_assign k v m)"
  by (induction k v m rule: map_assign.induct) (auto simp: keys_assign)

lemma map_ok_erase: "map_ok m \<Longrightarrow> map_ok (map_erase k m)"
  unfolding map_erase_def by (induction m) auto

lemma map_find_insert: "map_ok m \<Longrightarrow>
  map_find (map_insert k v m) x = (if x = k \<and> map_find m k = None then Some v else map_find m x)"
proof (induction k v m rule: map_insert.induct)
  case (2 k v a b m)
  have "map_find m k = None" if "k < a"
    using 2(2) that by (intro map_find_smaller) force
  with 2 show ?case by auto
qed auto

lemma map_find_assign: "map_find (map_assign k v m) x = (if x = k then Some v else map_find m x)"
  by (induction k v m rule: map_assign.induct) auto

lemma map_find_erase: "map_find (map_erase k m) x = (if x = k then None else map_find m x)"
  unfolding map_erase_def by (induction m) auto

interpretation sm: std_map "[] :: ('k::linorder, 'v) entries" map_find map_insert map_assign
    map_erase "\<lambda>m. m" map_ok
proof unfold_locales
  fix m :: "('k, 'v) entries" and k v
  show "map_ok ([] :: ('k, 'v) entries)" by simp
  show "map_find ([] :: ('k, 'v) entries) = Map.empty" by (simp add: fun_eq_iff)
  show "map_find (map_assign k v m) = (map_find m)(k \<mapsto> v)"
    by (simp add: fun_eq_iff map_find_assign)
  show "map_find (map_erase k m) = (map_find m)(k := None)"
    by (simp add: fun_eq_iff map_find_erase)
  assume ok: "map_ok m"
  show "map_ok (map_insert k v m)" "map_ok (map_assign k v m)" "map_ok (map_erase k m)"
    using ok by (rule map_ok_insert map_ok_assign map_ok_erase)+
  show "map_find (map_insert k v m) =
      (if map_find m k = None then (map_find m)(k \<mapsto> v) else map_find m)"
    using ok by (auto simp: fun_eq_iff map_find_insert)
  show "map_of m = map_find m" by (simp add: fun_eq_iff map_find_def)
  show "sorted_wrt (<) (map fst m)" using ok by (simp add: map_ok_def)
qed

lemma map_assign_not_Nil [simp]: "map_assign k v m \<noteq> []"
  by (cases "(k, v, m)" rule: map_assign.cases) auto

lemma map_insert_not_Nil [simp]: "map_insert k v m \<noteq> []"
  by (cases "(k, v, m)" rule: map_insert.cases) auto

lemmas map_ok_intros [intro!] = map_ok_insert map_ok_assign map_ok_erase
lemmas map_find_upd [simp] = map_find_assign map_find_erase

end
