(* ===== verification/Response.thy ===== *)
theory Response
  imports Std_Map
begin

text \<open>
  The HTTP response and its builder (\<open>response.h\<close>, \<open>response.cc\<close>), the parts of the
  environment the handlers read, and the framing of a built response: a receiver that splits
  the bytes at line ends and honours \<open>Content-Length\<close> recovers status, headers and body.
\<close>

section \<open>The environment\<close>

text \<open>
  What the handlers read besides the request: files by path (\<^const>\<open>None\<close> when
  \<open>ifstream\<close> cannot open them), files opened for reading and writing, the regular files of
  the log directory (\<^const>\<open>None\<close> when the directory cannot be listed), the host name and the
  current time as \<open>strftime\<close> prints it.
\<close>

record env =
  env_files :: "string \<Rightarrow> string option"
  env_files_rw :: "string \<Rightarrow> string option"
  env_log_dir :: "string list option"
  env_host_name :: "string option"
  env_date :: string

definition plain_env :: env where
  "plain_env = \<lparr>env_files = Map.empty, env_files_rw = Map.empty, env_log_dir = None,
     env_host_name = None, env_date = []\<rparr>"

section \<open>Responses\<close>

datatype status_code = BAD_REQ | NOT_FOUND | OK

text \<open>\<open>code_\<close> has no initialiser: \<^const>\<open>None\<close> is a code that was never set.\<close>

record response =
  rs_code :: "status_code option"
  rs_headers :: "(string, string) entries"
  rs_body :: string

text \<open>
  The builder's \<open>head_\<close> and \<open>body_\<close> are null pointers until \<open>build\<close>; \<open>bufs_\<close> refers to the
  strings they own.
\<close>

record response_builder =
  rb_response :: response
  rb_bufs :: "string list"
  rb_head :: "string option"
  rb_body :: "string option"

definition new_response :: response where
  "new_response = \<lparr>rs_code = None, rs_headers = [], rs_body = []\<rparr>"

definition new_builder :: response_builder where
  "new_builder = \<lparr>rb_response = new_response, rb_bufs = [], rb_head = None, rb_body = None\<rparr>"

definition set_response :: "response \<Rightarrow> response_builder \<Rightarrow> response_builder" where
  "set_response res b = b\<lparr>rb_response := res\<rparr>"

definition get_response :: "response_builder \<Rightarrow> response" where
  "get_response b = rb_response b"

fun status_text :: "status_code \<Rightarrow> string" where
  "status_text OK = ''200 OK''"
| "status_text BAD_REQ = ''400 Bad Request''"
| "status_text NOT_FOUND = ''404 Not Found''"

definition entire_header :: "status_code \<Rightarrow> (string, string) entries \<Rightarrow> string" where
  "entire_header code hs =
     ''HTTP/1.1 '' @ status_text code @ CRLF @
     concat (map (\<lambda>h. fst h @ '': '' @ snd h @ CRLF) hs) @ CRLF"

definition build :: "response_builder \<Rightarrow> (string list \<times> response_builder) result" where
  "build b =
     (case rs_code (rb_response b) of
        None \<Rightarrow> Inl UB_uninitialised
      | Some code \<Rightarrow>
          let head = entire_header code (rs_headers (rb_response b));
              body = rs_body (rb_response b);
              b' = b\<lparr>rb_head := Some head, rb_body := Some body, rb_bufs := [head, body]\<rparr>
          in Inr (rb_bufs b', b'))"

definition add_header :: "string \<Rightarrow> string \<Rightarrow> response_builder \<Rightarrow> response_builder" where
  "add_header key val b =
     b\<lparr>rb_response := (rb_response b)\<lparr>rs_headers := map_assign key val (rs_headers (rb_response b))\<rparr>\<rparr>"

definition add_body :: "string \<Rightarrow> response_builder \<Rightarrow> response_builder" where
  "add_body data b = b\<lparr>rb_response := (rb_response b)\<lparr>rs_body := data\<rparr>\<rparr>"

definition set_code :: "status_code \<Rightarrow> response_builder \<Rightarrow> response_builder" where
  "set_code code b = b\<lparr>rb_response := (rb_response b)\<lparr>rs_code := Some code\<rparr>\<rparr>"

definition make_400_error :: "response_builder \<Rightarrow> response_builder" where
  "make_400_error b = add_body [] (add_header ''Content-Length'' ''0'' (set_code BAD_REQ b))"

definition make_404_error :: "env \<Rightarrow> response_builder \<Rightarrow> response_builder" where
  "make_404_error e b =
     (let body = (case env_files e ''404page.html'' of Some data \<Rightarrow> data | None \<Rightarrow> []) in
      add_header ''Content-Length'' (to_string (length body))
        (add_header ''Content-Type'' ''text/html'' (add_body body (set_code NOT_FOUND b))))"

definition make_date_servername_headers :: "env \<Rightarrow> response_builder \<Rightarrow> response_builder" where
  "make_date_servername_headers e b =
     add_header ''Server'' ''WNZA'' (add_header ''Date'' (env_date e) b)"

lemmas builder_defs =
  set_response_def get_response_def add_header_def add_body_def set_code_def make_400_error_def
  make_404_error_def make_date_servername_headers_def new_builder_def new_response_def

section \<open>Well-formed responses\<close>

text \<open>A response that is ready to be sent: a code, unique header names, a Content-Length that
  counts the body, and nothing in a header that could be mistaken for its end.\<close>

definition clean_text :: "string \<Rightarrow> bool" where
  "clean_text s \<longleftrightarrow> list_all (\<lambda>c. c \<noteq> CR \<and> c \<noteq> LF) s"

definition clean_header :: "string \<times> string \<Rightarrow> bool" where
  "clean_header h \<longleftrightarrow> fst h \<noteq> [] \<and> CHR '':'' \<notin> set (fst h) \<and> clean_text (fst h) \<and> clean_text (snd h)"

definition wf_response :: "response \<Rightarrow> bool" where
  "wf_response r \<longleftrightarrow> rs_code r \<noteq> None \<and> map_ok (rs_headers r) \<and> list_all clean_header (rs_headers r) \<and>
     map_find (rs_headers r) ''Content-Length'' = Some (to_string (length (rs_body r)))"

definition env_ok :: "env \<Rightarrow> bool" where
  "env_ok e \<longleftrightarrow> clean_text (env_date e)"

lemma clean_text_simps [simp]:
  "clean_text []" "clean_text (c # s) \<longleftrightarrow> c \<noteq> CR \<and> c \<noteq> LF \<and> clean_text s"
  "clean_text (s @ t) \<longleftrightarrow> clean_text s \<and> clean_text t"
  by (simp_all add: clean_text_def)

lemma clean_to_string [simp]: "clean_text (to_string n)"
  using to_string_digits[of n] by (auto simp: clean_text_def list_all_iff is_dec_def)

lemma list_all_assign:
  "list_all P m \<Longrightarrow> P (k, v) \<Longrightarrow> (\<And>a b. P (a, b) \<Longrightarrow> k = a \<Longrightarrow> P (a, v)) \<Longrightarrow> list_all P (map_assign k v m)"
  by (induction k v m rule: map_assign.induct) auto

lemma clean_headers_assign:
  "list_all clean_header m \<Longrightarrow> clean_header (k, v) \<Longrightarrow> list_all clean_header (map_assign k v m)"
  by (rule list_all_assign) auto

text \<open>What is known of a builder while the headers are being added.\<close>

definition builder_ok :: "response_builder \<Rightarrow> bool" where
  "builder_ok b \<longleftrightarrow> map_ok (rs_headers (rb_response b)) \<and> list_all clean_header (rs_headers (rb_response b))"

lemma builder_ok_intros [intro!]:
  "builder_ok new_builder"
  "builder_ok b \<Longrightarrow> builder_ok (set_code code b)"
  "builder_ok b \<Longrightarrow> builder_ok (add_body data b)"
  "builder_ok b \<Longrightarrow> clean_header (k, v) \<Longrightarrow> builder_ok (add_header k v b)"
  by (auto simp: builder_ok_def builder_defs intro: clean_headers_assign)

lemma builder_ok_make [intro!]:
  "builder_ok b \<Longrightarrow> builder_ok (make_400_error b)"
  "builder_ok b \<Longrightarrow> builder_ok (make_404_error e b)"
  "env_ok e \<Longrightarrow> builder_ok b \<Longrightarrow> builder_ok (make_date_servername_headers e b)"
  unfolding make_400_error_def make_404_error_def make_date_servername_headers_def Let_def
  by (intro builder_ok_intros; simp add: clean_header_def env_ok_def)+

lemma wf_get_response:
  "builder_ok b \<Longrightarrow> rs_code (rb_response b) \<noteq> None \<Longrightarrow>
   map_find (rs_headers (rb_response b)) ''Content-Length'' = Some (to_string (length (rs_body (rb_response b)))) \<Longrightarrow>
   wf_response (get_response b)"
  by (simp add: wf_response_def builder_ok_def get_response_def)

lemma builder_fields [simp]:
  "rs_code (rb_response (set_code code b)) = Some code"
  "rs_code (rb_response (add_body d b)) = rs_code (rb_response b)"
  "rs_code (rb_response (add_header k v b)) = rs_code (rb_response b)"
  "rs_body (rb_response (set_code code b)) = rs_body (rb_response b)"
  "rs_body (rb_response (add_body d b)) = d"
  "rs_body (rb_response (add_header k v b)) = rs_body (rb_response b)"
  "rs_headers (rb_response (set_code code b)) = rs_headers (rb_response b)"
  "rs_headers (rb_response (add_body d b)) = rs_headers (rb_response b)"
  "rs_headers (rb_response (add_header k v b)) = map_assign k v (rs_headers (rb_response b))"
  by (simp_all add: builder_defs)

lemma builder_fields_make [simp]:
  "rs_code (rb_response (make_400_error b)) = Some BAD_REQ"
  "rs_body (rb_response (make_400_error b)) = []"
  "rs_headers (rb_response (make_400_error b)) = map_assign ''Content-Length'' ''0'' (rs_headers (rb_response b))"
  "rs_code (rb_response (make_404_error e b)) = Some NOT_FOUND"
  "rs_code (rb_response (make_date_servername_headers e b)) = rs_code (rb_response b)"
  "rs_body (rb_response (make_date_servername_headers e b)) = rs_body (rb_response b)"
  by (simp_all add: make_400_error_def make_404_error_def make_date_servername_headers_def Let_def)

lemma content_length_make [simp]:
  "map_find (rs_headers (rb_response (make_404_error e b))) ''Content-Length'' =
     Some (to_string (length (rs_body (rb_response (make_404_error e b)))))"
  "map_find (rs_headers (rb_response (make_date_servername_headers e b))) ''Content-Length'' =
     map_find (rs_headers (rb_response b)) ''Content-Length''"
  by (simp_all add: make_404_error_def make_date_servername_headers_def Let_def)

lemma to_string_0: "to_string 0 = ''0''"
  by code_simp

lemma wf_404: "wf_response (get_response (make_404_error e new_builder))"
  by (rule wf_get_response) auto

lemma wf_400: "env_ok e \<Longrightarrow> wf_response (get_response (make_date_servername_headers e (make_400_error new_builder)))"
  by (rule wf_get_response) (auto simp: to_string_0)

section \<open>A receiver\<close>

text \<open>A client that reads the message off a byte stream: the status line and the header lines up
  to the empty line, each ended by CR LF, then as many bytes as Content-Length says.\<close>

fun next_line :: "string \<Rightarrow> (string \<times> string) option" where
  "next_line (a # b # s) =
     (if a = CR \<and> b = LF then Some ([], s) else map_option (\<lambda>(l, r). (a # l, r)) (next_line (b # s)))"
| "next_line _ = None"

fun split_header :: "string \<Rightarrow> (string \<times> string) option" where
  "split_header (a # b # s) =
     (if a = CHR '':'' \<and> b = CHR '' '' then Some ([], s)
      else map_option (\<lambda>(k, v). (a # k, v)) (split_header (b # s)))"
| "split_header _ = None"

lemma next_line_shorter: "next_line s = Some (l, r) \<Longrightarrow> length r < length s"
  by (induction s arbitrary: l rule: next_line.induct) (force split: if_splits)+

function read_headers :: "string \<Rightarrow> ((string, string) entries \<times> string) option" where
  "read_headers s =
     (case next_line s of
        None \<Rightarrow> None
      | Some (l, r) \<Rightarrow>
          if l = [] then Some ([], r)
          else (case split_header l of
                  None \<Rightarrow> None
                | Some h \<Rightarrow> map_option (\<lambda>(hs, r'). (h # hs, r')) (read_headers r)))"
  by auto

termination
  by (relation "measure length") (auto dest: next_line_shorter)

declare read_headers.simps [simp del]

definition receive :: "string \<Rightarrow> (string \<times> (string, string) entries \<times> string \<times> string) option" where
  "receive s =
     Option.bind (next_line s) (\<lambda>(status, r).
     Option.bind (read_headers r) (\<lambda>(hs, r').
     Option.bind (map_find hs ''Content-Length'') (\<lambda>v.
     Option.bind (strtol v) (\<lambda>n. Some (status, hs, take (nat n) r', drop (nat n) r')))))"

lemma next_line_clean: "clean_text l \<Longrightarrow> next_line (l @ CRLF @ r) = Some (l, r)"
proof (induction l)
  case Nil
  then show ?case by simp
next
  case (Cons c l)
  then show ?case by (cases "l @ CRLF @ r") auto
qed

lemma split_header_colon: "CHR '':'' \<notin> set k \<Longrightarrow> split_header (k @ '': '' @ v) = Some (k, v)"
proof (induction k)
  case Nil
  then show ?case by simp
next
  case (Cons c k)
  then show ?case by (cases "k @ '': '' @ v") auto
qed

lemma read_headers_print:
  "list_all clean_header hs \<Longrightarrow>
   read_headers (concat (map (\<lambda>h. fst h @ '': '' @ snd h @ CRLF) hs) @ CRLF @ r) = Some (hs, r)"
proof (induction hs)
  case Nil
  then show ?case by (subst read_headers.simps) simp
next
  case (Cons h hs)
  let ?rest = "concat (map (\<lambda>h. fst h @ '': '' @ snd h @ CRLF) hs) @ CRLF @ r"
  have line: "next_line ((fst h @ '': '' @ snd h) @ CRLF @ ?rest) = Some (fst h @ '': '' @ snd h, ?rest)"
    using Cons.prems by (intro next_line_clean) (simp add: clean_header_def)
  have split: "split_header (fst h @ '': '' @ snd h) = Some h"
    using Cons.prems split_header_colon[of "fst h" "snd h"] by (simp add: clean_header_def)
  show ?case
    using Cons line split by (subst read_headers.simps) simp
qed

lemma clean_status_text [simp]: "clean_text (status_text code)"
  by (cases code) simp_all

lemma receive_built:
  assumes "wf_response r" "rs_code r = Some code"
  shows "receive (entire_header code (rs_headers r) @ rs_body r @ rest) =
    Some (''HTTP/1.1 '' @ status_text code, rs_headers r, rs_body r, rest)"
proof -
  let ?hs = "concat (map (\<lambda>h. fst h @ '': '' @ snd h @ CRLF) (rs_headers r)) @ CRLF @ rs_body r @ rest"
  have line: "next_line ((''HTTP/1.1 '' @ status_text code) @ CRLF @ ?hs) = Some (''HTTP/1.1 '' @ status_text code, ?hs)"
    by (rule next_line_clean) simp
  have hs: "read_headers ?hs = Some (rs_headers r, rs_body r @ rest)"
    using assms(1) by (intro read_headers_print) (simp add: wf_response_def)
  have len: "strtol (to_string (length (rs_body r))) = Some (int (length (rs_body r)))"
    by (simp add: strtol_digits to_string_digits digits_val_to_string)
  show ?thesis
    using line hs len assms(1)
    by (simp add: receive_def entire_header_def wf_response_def)
qed

end
