(* ===== verification/Request_Parser.thy ===== *)
theory Request_Parser
  imports Std_Map
begin

text \<open>
  The HTTP request and its incremental parser (\<open>request.h\<close>, \<open>request_parser.h\<close>,
  \<open>request_parser.cc\<close>): the 21-state machine \<open>consume\<close>, the driver \<open>parse\<close> over a buffer and
  \<open>reset\<close>.  This theory holds the definitions and the laws of feeding input piecewise;
  \<open>Request_Correct\<close> proves the parser against the concrete syntax.
\<close>

section \<open>Requests\<close>

datatype http_method = GET | POST | PUT | HEAD | INVALID

type_synonym headers = "(string, string) entries"

record request =
  rq_method :: http_method
  rq_uri :: string
  rq_version :: string
  rq_headers :: headers
  rq_body :: string

text \<open>\<open>request_ = {}\<close>: value-initialised, so the method is the enumerator of value 0.\<close>

definition empty_request :: request where
  "empty_request = \<lparr>rq_method = GET, rq_uri = [], rq_version = [], rq_headers = [], rq_body = []\<rparr>"

section \<open>Character classes\<close>

text \<open>The classes take an \<open>int\<close>; a \<open>char\<close> argument is promoted and is signed on the target.\<close>

definition schar :: "char \<Rightarrow> int" where
  "schar c = (if (of_char c :: int) < 128 then of_char c else of_char c - 256)"

definition is_char :: "int \<Rightarrow> bool" where
  "is_char c \<longleftrightarrow> c \<ge> 0 \<and> c \<le> 127"

definition is_ctl :: "int \<Rightarrow> bool" where
  "is_ctl c \<longleftrightarrow> (c \<ge> 0 \<and> c \<le> 31) \<or> c = 127"

definition is_tspecial :: "int \<Rightarrow> bool" where
  "is_tspecial c \<longleftrightarrow> c \<in> set (map schar
     [CHR ''('', CHR '')'', CHR ''<'', CHR ''>'', CHR ''@'', CHR '','', CHR '';'', CHR '':'',
      CHR 0x5C, CHR 0x22, CHR ''/'', CHR ''['', CHR '']'', CHR ''?'', CHR ''='', CHR ''{'',
      CHR ''}'', CHR '' '', CHR 0x09])"

definition is_digit :: "int \<Rightarrow> bool" where
  "is_digit c \<longleftrightarrow> c \<ge> schar CHR ''0'' \<and> c \<le> schar CHR ''9''"

section \<open>The parser\<close>

datatype parser_state =
    method_start
  | in_method
  | in_uri
  | http_version_h
  | http_version_t_1
  | http_version_t_2
  | http_version_p
  | http_version_slash
  | http_version_major_start
  | http_version_major
  | http_version_minor_start
  | http_version_minor
  | expecting_newline_1
  | header_line_start
  | header_lws
  | header_name
  | space_before_header_value
  | header_value
  | expecting_newline_2
  | expecting_newline_3
  | in_body

datatype result_type = good | bad | indeterminate

record request_parser =
  p_state :: parser_state
  header_key :: string
  header_val :: string
  method_str :: string
  body_length :: int

text \<open>\<open>reset\<close> writes every member, so its result is the state of a new parser.\<close>

definition new_parser :: request_parser where
  "new_parser = \<lparr>p_state = method_start, header_key = [], header_val = [], method_str = [],
                 body_length = 0\<rparr>"

definition reset :: "request_parser \<Rightarrow> request_parser" where
  "reset p = p\<lparr>p_state := method_start, header_key := [], header_val := [], method_str := [],
               body_length := 0\<rparr>"

lemma reset_new [simp]: "reset p = new_parser"
  by (simp add: reset_def new_parser_def)

text \<open>
  The two places of \<open>consume\<close> that file the header read last: \<open>std::map::insert\<close> keeps an
  earlier header of the same name, \<open>body_length\<close> follows the latest.
\<close>

definition store_header :: "request_parser \<Rightarrow> request \<Rightarrow> (request_parser \<times> request) result" where
  "store_header p req =
     (if header_key p \<noteq> [] then
        let req' = req\<lparr>rq_headers := map_insert (header_key p) (header_val p) (rq_headers req)\<rparr> in
        if header_key p = ''Content-Length''
        then and_then (stoi (header_val p)) (\<lambda>n. Inr (p\<lparr>body_length := n\<rparr>, req'))
        else Inr (p, req')
      else Inr (p, req))"

definition expect_char ::
  "char \<Rightarrow> parser_state \<Rightarrow> request_parser \<Rightarrow> request \<Rightarrow> char \<Rightarrow> result_type \<times> request_parser \<times> request"
where
  "expect_char c next p req input =
     (if input = c
      then (indeterminate, p\<lparr>p_state := next\<rparr>, req\<lparr>rq_version := rq_version req @ [input]\<rparr>)
      else (bad, p, req))"

text \<open>The states of the method and the URI.\<close>

definition consume_method_start ::
  "request_parser \<Rightarrow> request \<Rightarrow> char \<Rightarrow> result_type \<times> request_parser \<times> request" where
  "consume_method_start p req input =
     (if \<not> is_char (schar input) \<or> is_ctl (schar input) \<or> is_tspecial (schar input)
      then (bad, p, req)
      else (indeterminate, p\<lparr>p_state := in_method, method_str := method_str p @ [input]\<rparr>, req))"

definition consume_method ::
  "request_parser \<Rightarrow> request \<Rightarrow> char \<Rightarrow> result_type \<times> request_parser \<times> request" where
  "consume_method p req input =
     (if input = CHR '' '' then (indeterminate, p\<lparr>p_state := in_uri\<rparr>, req)
      else if \<not> is_char (schar input) \<or> is_ctl (schar input) \<or> is_tspecial (schar input)
      then (bad, p, req)
      else (indeterminate, p\<lparr>method_str := method_str p @ [input]\<rparr>, req))"

definition consume_uri ::
  "request_parser \<Rightarrow> request \<Rightarrow> char \<Rightarrow> result_type \<times> request_parser \<times> request" where
  "consume_uri p req input =
     (if input = CHR '' '' then (indeterminate, p\<lparr>p_state := http_version_h\<rparr>, req)
      else if is_ctl (schar input) then (bad, p, req)
      else (indeterminate, p, req\<lparr>rq_uri := rq_uri req @ [input]\<rparr>))"

lemmas consume_line_defs [simp] = consume_method_start_def consume_method_def consume_uri_def

fun consume_at ::
  "parser_state \<Rightarrow> request_parser \<Rightarrow> request \<Rightarrow> char \<Rightarrow> (result_type \<times> request_parser \<times> request) result"
where
  "consume_at method_start p req input = Inr (consume_method_start p req input)"
| "consume_at in_method p req input = Inr (consume_method p req input)"
| "consume_at in_uri p req input = Inr (consume_uri p req input)"
| "consume_at http_version_h p req input = Inr (expect_char CHR ''H'' http_version_t_1 p req input)"
| "consume_at http_version_t_1 p req input = Inr (expect_char CHR ''T'' http_version_t_2 p req input)"
| "consume_at http_version_t_2 p req input = Inr (expect_char CHR ''T'' http_version_p p req input)"
| "consume_at http_version_p p req input = Inr (expect_char CHR ''P'' http_version_slash p req input)"
| "consume_at http_version_slash p req input =
     Inr (expect_char CHR ''/'' http_version_major_start p req input)"
| "consume_at http_version_major_start p req input =
     Inr (if is_digit (schar input)
          then (indeterminate, p\<lparr>p_state := http_version_major\<rparr>,
                req\<lparr>rq_version := rq_version req @ [input]\<rparr>)
          else (bad, p, req))"
| "consume_at http_version_major p req input =
     Inr (if input = CHR ''.''
          then (indeterminate, p\<lparr>p_state := http_version_minor_start\<rparr>,
                req\<lparr>rq_version := rq_version req @ [input]\<rparr>)
          else if is_digit (schar input)
          then (indeterminate, p, req\<lparr>rq_version := rq_version req @ [input]\<rparr>)
          else (bad, p, req))"
| "consume_at http_version_minor_start p req input =
     Inr (if is_digit (schar input)
          then (indeterminate, p\<lparr>p_state := http_version_minor\<rparr>,
                req\<lparr>rq_version := rq_version req @ [input]\<rparr>)
          else (bad, p, req))"
| "consume_at http_version_minor p req input =
     Inr (if input = CR then (indeterminate, p\<lparr>p_state := expecting_newline_1\<rparr>, req)
          else if is_digit (schar input)
          then (indeterminate, p, req\<lparr>rq_version := rq_version req @ [input]\<rparr>)
          else (bad, p, req))"
| "consume_at expecting_newline_1 p req input =
     Inr (if input = LF then (indeterminate, p\<lparr>p_state := header_line_start\<rparr>, req)
          else (bad, p, req))"
| "consume_at header_line_start p req input =
     (if input = CR then Inr (indeterminate, p\<lparr>p_state := expecting_newline_3\<rparr>, req)
      else if rq_headers req \<noteq> [] \<and> (input = CHR '' '' \<or> input = TAB)
      then Inr (indeterminate, p\<lparr>p_state := header_lws\<rparr>, req)
      else if \<not> is_char (schar input) \<or> is_ctl (schar input) \<or> is_tspecial (schar input)
      then Inr (bad, p, req)
      else and_then (store_header p req) (\<lambda>(p', req').
             Inr (indeterminate, p'\<lparr>p_state := header_name, header_key := [input], header_val := []\<rparr>, req')))"
| "consume_at header_lws p req input =
     Inr (if input = CR then (indeterminate, p\<lparr>p_state := expecting_newline_2\<rparr>, req)
          else if input = CHR '' '' \<or> input = TAB then (indeterminate, p, req)
          else if is_ctl (schar input) then (bad, p, req)
          else (indeterminate, p\<lparr>p_state := header_value, header_val := header_val p @ [input]\<rparr>, req))"
| "consume_at header_name p req input =
     Inr (if input = CHR '':'' then (indeterminate, p\<lparr>p_state := space_before_header_value\<rparr>, req)
          else if \<not> is_char (schar input) \<or> is_ctl (schar input) \<or> is_tspecial (schar input)
          then (bad, p, req)
          else (indeterminate, p\<lparr>header_key := header_key p @ [input]\<rparr>, req))"
| "consume_at space_before_header_value p req input =
     Inr (if input = CHR '' '' then (indeterminate, p\<lparr>p_state := header_value\<rparr>, req)
          else (bad, p, req))"
| "consume_at header_value p req input =
     Inr (if input = CR then (indeterminate, p\<lparr>p_state := expecting_newline_2\<rparr>, req)
          else if is_ctl (schar input) then (bad, p, req)
          else (indeterminate, p\<lparr>header_val := header_val p @ [input]\<rparr>, req))"
| "consume_at expecting_newline_2 p req input =
     Inr (if input = LF then (indeterminate, p\<lparr>p_state := header_line_start\<rparr>, req)
          else (bad, p, req))"
| "consume_at expecting_newline_3 p req input =
     and_then (store_header p req) (\<lambda>(p', req').
       let p'' = (if header_key p' \<noteq> [] then p'\<lparr>header_key := [], header_val := []\<rparr> else p') in
       Inr (if input = LF then
              (if body_length p'' = 0 then (good, p'', req')
               else (indeterminate, p''\<lparr>p_state := in_body\<rparr>, req'))
            else (bad, p'', req')))"
| "consume_at in_body p req input =
     (if body_length p = INT_MIN then Inl UB_overflow
      else let req' = req\<lparr>rq_body := rq_body req @ [input]\<rparr>;
               p' = p\<lparr>body_length := body_length p - 1\<rparr>
           in Inr (if body_length p' = 0 then (good, p', req') else (indeterminate, p', req')))"

definition consume ::
  "request_parser \<Rightarrow> request \<Rightarrow> char \<Rightarrow> (result_type \<times> request_parser \<times> request) result" where
  "consume p req input = consume_at (p_state p) p req input"

definition method_of :: "string \<Rightarrow> http_method" where
  "method_of s =
     (if s = ''GET'' then GET
      else if s = ''POST'' then POST
      else if s = ''PUT'' then PUT
      else if s = ''HEAD'' then HEAD
      else INVALID)"

text \<open>
  \<open>parse\<close> over the bytes from \<open>begin\<close> to \<open>end\<close>: the result, how far \<open>begin\<close> has moved,
  \<open>body_length\<close>, and the changed parser and request.
\<close>

type_synonym parse_result = "(result_type \<times> nat \<times> int) \<times> request_parser \<times> request"

fun parse :: "request_parser \<Rightarrow> request \<Rightarrow> string \<Rightarrow> parse_result result" where
  "parse p req [] = Inr ((indeterminate, 0, body_length p), p, req)"
| "parse p req (c # cs) =
     and_then (consume p req c) (\<lambda>(result, p', req').
       if result = good \<or> result = bad then
         Inr ((if body_length p' \<le> int (length cs) then result else indeterminate, 1, body_length p'),
              p', req'\<lparr>rq_method := method_of (method_str p')\<rparr>)
       else and_then (parse p' req' cs) (\<lambda>((r, n, bl), q). Inr ((r, Suc n, bl), q)))"

section \<open>Feeding input piecewise\<close>

text \<open>The parser state after input that leaves every byte undecided.\<close>

fun feed :: "request_parser \<Rightarrow> request \<Rightarrow> string \<Rightarrow> (request_parser \<times> request) option" where
  "feed p req [] = Some (p, req)"
| "feed p req (c # cs) =
     (case consume p req c of
        Inr (indeterminate, p', req') \<Rightarrow> feed p' req' cs
      | _ \<Rightarrow> None)"

lemma feed_Cons_Some:
  "feed p req (c # cs) = Some s \<longleftrightarrow>
     (\<exists>p' req'. consume p req c = Inr (indeterminate, p', req') \<and> feed p' req' cs = Some s)"
  by (auto split: sum.splits prod.splits result_type.splits)

lemma feed_append:
  "feed p req (xs @ ys) = Option.bind (feed p req xs) (\<lambda>(p', req'). feed p' req' ys)"
  by (induction p req xs rule: feed.induct) (auto split: sum.splits prod.splits result_type.splits)

definition advance :: "nat \<Rightarrow> parse_result result \<Rightarrow> parse_result result" where
  "advance k r = and_then r (\<lambda>((t, n, bl), q). Inr ((t, k + n, bl), q))"

lemma advance_simps [simp]:
  "advance k (Inl e) = Inl e" "advance k (Inr ((t, n, bl), q)) = Inr ((t, k + n, bl), q)"
  "advance 0 r = r"
  by (auto simp: advance_def and_then_def split: sum.splits)

lemma advance_advance [simp]: "advance j (advance k r) = advance (j + k) r"
  by (auto simp: advance_def and_then_def split: sum.splits)

lemma parse_feed:
  "feed p req xs = Some (p', req') \<Longrightarrow> parse p req (xs @ ys) = advance (length xs) (parse p' req' ys)"
proof (induction xs arbitrary: p req)
  case (Cons c xs)
  then obtain p1 r1 where c: "consume p req c = Inr (indeterminate, p1, r1)"
    and f: "feed p1 r1 xs = Some (p', req')"
    by (auto simp: feed_Cons_Some simp del: feed.simps)
  have "parse p req ((c # xs) @ ys) = advance 1 (parse p1 r1 (xs @ ys))"
    using c by (auto simp: advance_def and_then_def split: sum.splits)
  with Cons.IH[OF f] show ?case by simp
qed simp

lemma parse_fed_all:
  "feed p req xs = Some (p', req') \<Longrightarrow> parse p req xs = Inr ((indeterminate, length xs, body_length p'), p', req')"
  using parse_feed[of p req xs p' req' "[]"] by simp

lemma parse_consumed_bound:
  "parse p req cs = Inr ((r, n, bl), q) \<Longrightarrow> n \<le> length cs"
proof (induction cs arbitrary: p req r n bl q)
  case (Cons c cs)
  then show ?case
    by (fastforce split: if_splits prod.splits)
qed simp

end
