(* ===== verification/Request_Correct.thy ===== *)
theory Request_Correct
  imports Request_Parser
begin

text \<open>
  Correctness of the request parser against the concrete syntax of a request: what a message
  on the wire is parsed to, what the fields of every request it reports as good look like, and how
  the body is framed.
\<close>

section \<open>Character classes\<close>

definition token_char :: "char \<Rightarrow> bool" where
  "token_char c \<longleftrightarrow> is_char (schar c) \<and> \<not> is_ctl (schar c) \<and> \<not> is_tspecial (schar c)"

definition text_char :: "char \<Rightarrow> bool" where
  "text_char c \<longleftrightarrow> \<not> is_ctl (schar c)"

definition uri_char :: "char \<Rightarrow> bool" where
  "uri_char c \<longleftrightarrow> text_char c \<and> c \<noteq> CHR '' ''"

definition digit_byte :: "char \<Rightarrow> bool" where
  "digit_byte c \<longleftrightarrow> is_digit (schar c)"

lemma token_char_not_special [char_facts]:
  "token_char c \<Longrightarrow> c \<noteq> CHR '' '' \<and> c \<noteq> CHR '':'' \<and> c \<noteq> TAB \<and> c \<noteq> CR \<and> c \<noteq> LF"
  by (auto simp: token_char_def is_tspecial_def is_ctl_def schar_def)

lemma text_char_not_newline [char_facts]: "text_char c \<Longrightarrow> c \<noteq> CR \<and> c \<noteq> LF"
  by (auto simp: text_char_def is_ctl_def schar_def)

lemma digit_byte_not_special [char_facts]: "digit_byte c \<Longrightarrow> c \<noteq> CHR ''.'' \<and> c \<noteq> CR"
  by (auto simp: digit_byte_def is_digit_def schar_def)

lemma token_char_class [simp]:
  "token_char c \<Longrightarrow> is_char (schar c)" "token_char c \<Longrightarrow> text_char c"
  "token_char c \<Longrightarrow> \<not> is_tspecial (schar c)"
  by (auto simp: token_char_def text_char_def)

lemma char_class_tests:
  "is_ctl (schar c) \<longleftrightarrow> \<not> text_char c"
  "is_digit (schar c) \<longleftrightarrow> digit_byte c"
  by (auto simp: text_char_def digit_byte_def)

lemmas consume_simps = consume_def char_class_tests expect_char_def

section \<open>The concrete syntax\<close>

definition version_ok :: "string \<Rightarrow> bool" where
  "version_ok v \<longleftrightarrow> (\<exists>ds es. v = ''HTTP/'' @ ds @ ''.'' @ es \<and> ds \<noteq> [] \<and> es \<noteq> [] \<and>
     list_all digit_byte ds \<and> list_all digit_byte es)"

definition header_ok :: "string \<times> string \<Rightarrow> bool" where
  "header_ok h \<longleftrightarrow> fst h \<noteq> [] \<and> list_all token_char (fst h) \<and> list_all text_char (snd h)"

definition print_header :: "string \<times> string \<Rightarrow> string" where
  "print_header h = fst h @ '': '' @ snd h @ CRLF"

definition wire :: "string \<Rightarrow> string \<Rightarrow> string \<Rightarrow> headers \<Rightarrow> string \<Rightarrow> string" where
  "wire m u v hs body =
     m @ '' '' @ u @ '' '' @ v @ CRLF @ concat (map print_header hs) @ CRLF @ body"

text \<open>The body length in force after a list of header lines: the last \<open>Content-Length\<close> counts.\<close>

fun last_length :: "int \<Rightarrow> headers \<Rightarrow> int result" where
  "last_length n [] = Inr n"
| "last_length n ((k, v) # hs) =
     (if k = ''Content-Length'' then and_then (stoi v) (\<lambda>m. last_length m hs) else last_length n hs)"

lemma store_header_upd_state [simp]:
  "store_header (p\<lparr>p_state := s\<rparr>) req =
     and_then (store_header p req) (\<lambda>(p1, r1). Inr (p1\<lparr>p_state := s\<rparr>, r1))"
  by (auto simp: store_header_def Let_def and_then_def split: sum.splits)

section \<open>The request line\<close>

lemma feed_method:
  "p_state p = in_method \<Longrightarrow> list_all token_char m \<Longrightarrow>
   feed p req m = Some (p\<lparr>method_str := method_str p @ m\<rparr>, req)"
proof (induction m arbitrary: p)
  case (Cons c m)
  then show ?case using token_char_not_special[of c] by (simp add: consume_simps)
qed simp

lemma feed_uri:
  "p_state p = in_uri \<Longrightarrow> list_all uri_char u \<Longrightarrow> feed p req u = Some (p, req\<lparr>rq_uri := rq_uri req @ u\<rparr>)"
proof (induction u arbitrary: req)
  case (Cons c u)
  then show ?case by (simp add: consume_simps uri_char_def)
qed simp

lemma feed_major:
  "p_state p = http_version_major \<Longrightarrow> list_all digit_byte ds \<Longrightarrow>
   feed p req ds = Some (p, req\<lparr>rq_version := rq_version req @ ds\<rparr>)"
proof (induction ds arbitrary: req)
  case (Cons c ds)
  then show ?case using digit_byte_not_special[of c] by (simp add: consume_simps)
qed simp

lemma feed_minor:
  "p_state p = http_version_minor \<Longrightarrow> list_all digit_byte ds \<Longrightarrow>
   feed p req ds = Some (p, req\<lparr>rq_version := rq_version req @ ds\<rparr>)"
proof (induction ds arbitrary: req)
  case (Cons c ds)
  then show ?case using digit_byte_not_special[of c] by (simp add: consume_simps)
qed simp

lemma feed_method_line:
  assumes "m \<noteq> []" "list_all token_char m"
  shows "feed new_parser req (m @ '' '') = Some (new_parser\<lparr>p_state := in_uri, method_str := m\<rparr>, req)"
proof -
  obtain c r where m: "m = c # r" using assms(1) by (cases m) auto
  have "feed (new_parser\<lparr>p_state := in_method, method_str := [c]\<rparr>) req (r @ '' '') =
      Some (new_parser\<lparr>p_state := in_uri, method_str := m\<rparr>, req)"
    using assms(2) m by (simp add: feed_append feed_method consume_simps)
  with assms(2) m show ?thesis
    by (simp add: consume_simps new_parser_def)
qed

lemma feed_version:
  assumes "version_ok v" "p_state p = http_version_h" "rq_version req = []"
  shows "feed p req (v @ CRLF) = Some (p\<lparr>p_state := header_line_start\<rparr>, req\<lparr>rq_version := v\<rparr>)"
proof -
  obtain d ds e es where v: "v = ''HTTP/'' @ (d # ds) @ ''.'' @ (e # es)"
    and dig: "digit_byte d" "list_all digit_byte ds" "digit_byte e" "list_all digit_byte es"
    using assms(1) by (auto simp: version_ok_def neq_Nil_conv)
  show ?thesis
    unfolding v using assms(2,3) dig
    by (simp add: feed_append feed_major feed_minor consume_simps)
qed

section \<open>Header lines\<close>

lemma feed_name:
  "p_state p = header_name \<Longrightarrow> list_all token_char k \<Longrightarrow>
   feed p req k = Some (p\<lparr>header_key := header_key p @ k\<rparr>, req)"
proof (induction k arbitrary: p)
  case (Cons c k)
  then show ?case using token_char_not_special[of c] by (simp add: consume_simps)
qed simp

lemma feed_value:
  "p_state p = header_value \<Longrightarrow> list_all text_char v \<Longrightarrow>
   feed p req v = Some (p\<lparr>header_val := header_val p @ v\<rparr>, req)"
proof (induction v arbitrary: p)
  case (Cons c v)
  then show ?case using text_char_not_newline[of c] by (simp add: consume_simps)
qed simp

lemma feed_header:
  assumes "p_state p = header_line_start" "header_ok h" "store_header p req = Inr (p1, req1)"
  shows "feed p req (print_header h) =
    Some (p1\<lparr>p_state := header_line_start, header_key := fst h, header_val := snd h\<rparr>, req1)"
proof -
  obtain c k where k: "fst h = c # k" "token_char c" "list_all token_char k"
    using assms(2) by (cases "fst h") (auto simp: header_ok_def)
  have v: "list_all text_char (snd h)" using assms(2) by (simp add: header_ok_def)
  show ?thesis
    unfolding print_header_def k(1) using assms(1,3) k token_char_not_special[OF k(2)] v
    by (simp add: feed_append feed_name feed_value consume_simps)
qed

lemma parse_header_fails:
  assumes "p_state p = header_line_start" "header_ok h" "store_header p req = Inl e"
  shows "parse p req (print_header h @ ys) = Inl e"
proof -
  obtain c k where k: "fst h = c # k" "token_char c"
    using assms(2) by (cases "fst h") (auto simp: header_ok_def)
  then show ?thesis
    using assms token_char_not_special[of c] by (simp add: print_header_def consume_simps)
qed

text \<open>Filing the header read before and then a list of header lines.\<close>

fun store_all :: "request_parser \<Rightarrow> request \<Rightarrow> headers \<Rightarrow> (request_parser \<times> request) result" where
  "store_all p req [] = store_header p req"
| "store_all p req (h # hs) =
     and_then (store_header p req) (\<lambda>(p1, req1).
       store_all (p1\<lparr>header_key := fst h, header_val := snd h\<rparr>) req1 hs)"

lemma store_header_state:
  "store_header p req = Inr (p1, req1) \<Longrightarrow> p_state p1 = p_state p \<and> header_key p1 = header_key p \<and>
     header_val p1 = header_val p \<and> method_str p1 = method_str p"
  by (auto simp: store_header_def Let_def split: if_splits)

lemma feed_headers:
  "p_state p = header_line_start \<Longrightarrow> list_all header_ok hs \<Longrightarrow> store_all p req hs = Inr (p', req') \<Longrightarrow>
   \<exists>q r. feed p req (concat (map print_header hs)) = Some (q, r) \<and>
         p_state q = header_line_start \<and> store_header q r = Inr (p', req')"
proof (induction hs arbitrary: p req)
  case (Cons h hs)
  then obtain p1 r1 where s: "store_header p req = Inr (p1, r1)"
    and all: "store_all (p1\<lparr>header_key := fst h, header_val := snd h\<rparr>) r1 hs = Inr (p', req')"
    by auto
  have upd: "p1\<lparr>p_state := header_line_start, header_key := fst h, header_val := snd h\<rparr> =
      p1\<lparr>header_key := fst h, header_val := snd h\<rparr>"
    using store_header_state[OF s] Cons.prems(1) by (simp add: request_parser.equality)
  have "feed p req (print_header h) = Some (p1\<lparr>header_key := fst h, header_val := snd h\<rparr>, r1)"
    using feed_header[OF Cons.prems(1) _ s, of h] Cons.prems(2) upd by simp
  with Cons.IH[OF _ _ all] Cons.prems store_header_state[OF s] show ?case
    by (simp add: feed_append)
qed simp

lemma parse_headers_fail:
  "p_state p = header_line_start \<Longrightarrow> list_all header_ok hs \<Longrightarrow> store_all p req hs = Inl e \<Longrightarrow>
   parse p req (concat (map print_header hs) @ CRLF @ ys) = Inl e"
proof (induction hs arbitrary: p req)
  case Nil
  then show ?case by (simp add: consume_simps)
next
  case (Cons h hs)
  show ?case
  proof (cases "store_header p req")
    case (Inl e')
    with Cons.prems have "e' = e" by simp
    with Inl Cons.prems parse_header_fails[of p h req e] show ?thesis by simp
  next
    case (Inr pr)
    obtain p1 r1 where s: "store_header p req = Inr (p1, r1)" using Inr by (cases pr) simp
    let ?q = "p1\<lparr>header_key := fst h, header_val := snd h\<rparr>"
    have upd: "p1\<lparr>p_state := header_line_start, header_key := fst h, header_val := snd h\<rparr> = ?q"
      using store_header_state[OF s] Cons.prems(1) by (simp add: request_parser.equality)
    have f: "feed p req (print_header h) = Some (?q, r1)"
      using feed_header[OF Cons.prems(1) _ s, of h] Cons.prems(2) upd by simp
    have "parse ?q r1 (concat (map print_header hs) @ CRLF @ ys) = Inl e"
      using Cons.IH[of ?q r1] Cons.prems s store_header_state[OF s] by simp
    then show ?thesis using parse_feed[OF f] by simp
  qed
qed

abbreviation insert_all :: "headers \<Rightarrow> headers \<Rightarrow> headers" where
  "insert_all hs m \<equiv> fold (\<lambda>(k, v). map_insert k v) hs m"

lemma store_all_pending:
  "header_key p \<noteq> [] \<Longrightarrow> list_all header_ok hs \<Longrightarrow>
   store_all p req hs =
     and_then (last_length (body_length p) ((header_key p, header_val p) # hs)) (\<lambda>m.
       let h = last ((header_key p, header_val p) # hs) in
       Inr (p\<lparr>header_key := fst h, header_val := snd h, body_length := m\<rparr>,
            req\<lparr>rq_headers := insert_all ((header_key p, header_val p) # hs) (rq_headers req)\<rparr>))"
proof (induction hs arbitrary: p req)
  case Nil
  then show ?case
    by (cases p; cases "stoi (header_val p)") (simp_all add: store_header_def Let_def)
next
  case (Cons h hs)
  let ?m1 = "map_insert (header_key p) (header_val p) (rq_headers req)"
  have key: "fst h \<noteq> []" and ok: "list_all header_ok hs"
    using Cons.prems(2) by (simp_all add: header_ok_def[of h])
  let ?q = "\<lambda>n. p\<lparr>body_length := n, header_key := fst h, header_val := snd h\<rparr>"
  have IH: "store_all (?q n) (req\<lparr>rq_headers := ?m1\<rparr>) hs =
     and_then (last_length n (h # hs)) (\<lambda>m.
       Inr (p\<lparr>header_key := fst (last (h # hs)), header_val := snd (last (h # hs)), body_length := m\<rparr>,
            req\<lparr>rq_headers := insert_all (h # hs) ?m1\<rparr>))" for n
    using Cons.IH[of "?q n" "req\<lparr>rq_headers := ?m1\<rparr>"] key ok
    by (cases h) (simp add: Let_def)
  have q: "p\<lparr>header_key := fst h, header_val := snd h\<rparr> = ?q (body_length p)" by (cases p) simp
  have unfold: "store_all p req (h # hs) =
      and_then (last_length (body_length p) [(header_key p, header_val p)]) (\<lambda>n.
        store_all (?q n) (req\<lparr>rq_headers := ?m1\<rparr>) hs)"
    using Cons.prems(1) q
    by (cases "stoi (header_val p)") (simp_all add: store_header_def Let_def)
  have len: "last_length (body_length p) ((header_key p, header_val p) # h # hs) =
      and_then (last_length (body_length p) [(header_key p, header_val p)]) (\<lambda>n. last_length n (h # hs))"
    by (cases "stoi (header_val p)") simp_all
  show ?case
    unfolding unfold len IH
    by (cases "last_length (body_length p) [(header_key p, header_val p)]") (simp_all add: Let_def)
qed

text \<open>Filing all header lines of a message, when no header is pending.\<close>

lemma store_all_fresh:
  assumes "header_key p = []" "list_all header_ok hs"
  shows "last_length (body_length p) hs = Inl e \<Longrightarrow> store_all p req hs = Inl e"
    and "last_length (body_length p) hs = Inr m \<Longrightarrow>
      \<exists>k v. store_all p req hs = Inr (p\<lparr>header_key := k, header_val := v, body_length := m\<rparr>,
          req\<lparr>rq_headers := insert_all hs (rq_headers req)\<rparr>) \<and> (k = [] \<longrightarrow> v = header_val p)"
proof -
  have Nil: "store_all p req [] = Inr (p, req)" using assms(1) by (simp add: store_header_def)
  have Cons: "store_all p req (h # hs') =
     and_then (last_length (body_length p) (h # hs')) (\<lambda>m.
       Inr (p\<lparr>header_key := fst (last (h # hs')), header_val := snd (last (h # hs')), body_length := m\<rparr>,
            req\<lparr>rq_headers := insert_all (h # hs') (rq_headers req)\<rparr>))" if "hs = h # hs'" for h hs'
    using assms that store_all_pending[of "p\<lparr>header_key := fst h, header_val := snd h\<rparr>" hs' req]
    by (cases h) (simp add: store_header_def Let_def header_ok_def)
  show "store_all p req hs = Inl e" if "last_length (body_length p) hs = Inl e"
    using that Cons by (cases hs) auto
  have ne: "fst (last hs) \<noteq> []" if "hs \<noteq> []"
    using assms(2) that last_in_set[of hs] by (auto simp: list_all_iff header_ok_def)
  show "\<exists>k v. store_all p req hs = Inr (p\<lparr>header_key := k, header_val := v, body_length := m\<rparr>,
          req\<lparr>rq_headers := insert_all hs (rq_headers req)\<rparr>) \<and> (k = [] \<longrightarrow> v = header_val p)"
    if "last_length (body_length p) hs = Inr m"
  proof (cases hs)
    case Nil': Nil
    with that Nil assms(1) show ?thesis
      by (intro exI[of _ "[]"] exI[of _ "header_val p"]) (cases p; simp)
  next
    case (Cons h hs')
    with that \<open>\<And>h hs'. hs = h # hs' \<Longrightarrow> _\<close> ne show ?thesis
      by (intro exI[of _ "fst (last hs)"] exI[of _ "snd (last hs)"]) (simp del: store_all.simps fold_Cons)
  qed
qed

lemma headers_end:
  assumes "p_state p = header_line_start" "header_key p = []" "header_val p = []"
    and "list_all header_ok hs" "last_length (body_length p) hs = Inr m"
  shows "m \<noteq> 0 \<Longrightarrow> feed p req (concat (map print_header hs) @ CRLF) =
      Some (p\<lparr>p_state := in_body, body_length := m\<rparr>,
            req\<lparr>rq_headers := insert_all hs (rq_headers req)\<rparr>)"
    and "m = 0 \<Longrightarrow> parse p req (concat (map print_header hs) @ CRLF @ ys) =
      Inr ((good, length (concat (map print_header hs)) + 2, 0),
           p\<lparr>p_state := expecting_newline_3, body_length := 0\<rparr>,
           req\<lparr>rq_headers := insert_all hs (rq_headers req), rq_method := method_of (method_str p)\<rparr>)"
proof -
  obtain k v where all: "store_all p req hs = Inr (p\<lparr>header_key := k, header_val := v, body_length := m\<rparr>,
          req\<lparr>rq_headers := insert_all hs (rq_headers req)\<rparr>)" and kv: "k = [] \<longrightarrow> v = []"
    using store_all_fresh(2)[OF assms(2,4,5)] assms(3) by metis
  obtain q r where f: "feed p req (concat (map print_header hs)) = Some (q, r)"
    and q: "p_state q = header_line_start"
    and st: "store_header q r = Inr (p\<lparr>header_key := k, header_val := v, body_length := m\<rparr>,
          req\<lparr>rq_headers := insert_all hs (rq_headers req)\<rparr>)"
    using feed_headers[OF assms(1,4) all] by metis
  obtain ms n where p: "p = \<lparr>p_state = header_line_start, header_key = [], header_val = [],
      method_str = ms, body_length = n\<rparr>"
    using assms(1-3) by (cases p) simp
  show "feed p req (concat (map print_header hs) @ CRLF) =
      Some (p\<lparr>p_state := in_body, body_length := m\<rparr>,
            req\<lparr>rq_headers := insert_all hs (rq_headers req)\<rparr>)" if "m \<noteq> 0"
    using that f q st kv unfolding p by (auto simp: feed_append consume_simps Let_def)
  show "parse p req (concat (map print_header hs) @ CRLF @ ys) =
      Inr ((good, length (concat (map print_header hs)) + 2, 0),
           p\<lparr>p_state := expecting_newline_3, body_length := 0\<rparr>,
           req\<lparr>rq_headers := insert_all hs (rq_headers req), rq_method := method_of (method_str p)\<rparr>)"
    if "m = 0"
    using that parse_feed[OF f, of "CRLF @ ys"] q st kv unfolding p by (auto simp: consume_simps Let_def)
qed

section \<open>The body\<close>

lemma feed_body:
  "p_state p = in_body \<Longrightarrow> body_length p < 0 \<or> int (length b) < body_length p \<Longrightarrow>
   INT_MIN + int (length b) \<le> body_length p \<Longrightarrow>
   feed p req b = Some (p\<lparr>body_length := body_length p - int (length b)\<rparr>, req\<lparr>rq_body := rq_body req @ b\<rparr>)"
proof (induction b arbitrary: p req)
  case (Cons c b)
  then show ?case by (auto simp: consume_simps Let_def diff_diff_eq)
qed simp

lemma parse_body:
  assumes "p_state p = in_body" "body_length p = int (length b)" "b \<noteq> []"
  shows "parse p req (b @ ys) =
    Inr ((good, length b, 0), p\<lparr>body_length := 0\<rparr>,
         req\<lparr>rq_body := rq_body req @ b, rq_method := method_of (method_str p)\<rparr>)"
proof -
  obtain b' c where b: "b = b' @ [c]" using assms(3) by (cases b rule: rev_cases) auto
  have "feed p req b' = Some (p\<lparr>body_length := 1\<rparr>, req\<lparr>rq_body := rq_body req @ b'\<rparr>)"
    using feed_body[OF assms(1), of b' req] assms(2) b by (simp add: INT_MIN_def)
  from parse_feed[OF this, of "c # ys"] show ?thesis
    using assms(1) b by (simp add: consume_simps Let_def INT_MIN_def)
qed

section \<open>Whole messages\<close>

lemma feed_request_line:
  assumes "m \<noteq> []" "list_all token_char m" "list_all uri_char u" "version_ok v"
  shows "feed new_parser empty_request (m @ '' '' @ u @ '' '' @ v @ CRLF) =
    Some (new_parser\<lparr>p_state := header_line_start, method_str := m\<rparr>,
          empty_request\<lparr>rq_uri := u, rq_version := v\<rparr>)"
proof -
  let ?p = "new_parser\<lparr>p_state := in_uri, method_str := m\<rparr>"
  have uri: "feed ?p empty_request (u @ '' '') =
      Some (?p\<lparr>p_state := http_version_h\<rparr>, empty_request\<lparr>rq_uri := u\<rparr>)"
    using assms(3) by (simp add: feed_append feed_uri consume_simps empty_request_def)
  have ver: "feed (?p\<lparr>p_state := http_version_h\<rparr>) (empty_request\<lparr>rq_uri := u\<rparr>) (v @ CRLF) =
      Some (new_parser\<lparr>p_state := header_line_start, method_str := m\<rparr>,
          empty_request\<lparr>rq_uri := u, rq_version := v\<rparr>)"
    by (subst feed_version[OF assms(4)]) (simp_all add: empty_request_def)
  have "feed new_parser empty_request ((m @ '' '') @ (u @ '' '') @ (v @ CRLF)) =
      Some (new_parser\<lparr>p_state := header_line_start, method_str := m\<rparr>,
          empty_request\<lparr>rq_uri := u, rq_version := v\<rparr>)"
    unfolding feed_append[of _ _ "m @ '' ''"] feed_append[of _ _ "u @ '' ''"]
    using feed_method_line[OF assms(1,2)] uri ver by simp
  then show ?thesis by simp
qed

definition parsed_request :: "string \<Rightarrow> string \<Rightarrow> string \<Rightarrow> headers \<Rightarrow> string \<Rightarrow> request" where
  "parsed_request m u v hs body =
     \<lparr>rq_method = method_of m, rq_uri = u, rq_version = v,
      rq_headers = insert_all hs [], rq_body = body\<rparr>"

text \<open>The parser after a complete message: the state that saw its last byte.\<close>

definition final_parser :: "string \<Rightarrow> string \<Rightarrow> request_parser" where
  "final_parser m body =
     new_parser\<lparr>p_state := (if body = [] then expecting_newline_3 else in_body), method_str := m\<rparr>"

text \<open>The parser at the first byte of a body.\<close>

lemma feed_to_body:
  assumes line: "m \<noteq> []" "list_all token_char m" "list_all uri_char u" "version_ok v"
    and hs: "list_all header_ok hs" "last_length 0 hs = Inr n" "n \<noteq> 0"
  shows "feed new_parser empty_request (wire m u v hs []) =
    Some (new_parser\<lparr>p_state := in_body, method_str := m, body_length := n\<rparr>,
          empty_request\<lparr>rq_uri := u, rq_version := v, rq_headers := insert_all hs []\<rparr>)"
proof -
  let ?line = "m @ '' '' @ u @ '' '' @ v @ CRLF" and ?hs = "concat (map print_header hs) @ CRLF"
  let ?p = "new_parser\<lparr>p_state := header_line_start, method_str := m\<rparr>"
  let ?r = "empty_request\<lparr>rq_uri := u, rq_version := v\<rparr>"
  have p: "p_state ?p = header_line_start" "header_key ?p = []" "header_val ?p = []"
    "last_length (body_length ?p) hs = Inr n"
    using hs(2) by (simp_all add: new_parser_def)
  have "feed new_parser empty_request (?line @ ?hs) =
      Some (?p\<lparr>p_state := in_body, body_length := n\<rparr>, ?r\<lparr>rq_headers := insert_all hs (rq_headers ?r)\<rparr>)"
    unfolding feed_append[of new_parser empty_request ?line] feed_request_line[OF line]
    using headers_end(1)[OF p(1-3) hs(1) p(4) hs(3), of ?r] by simp
  then show ?thesis by (simp add: wire_def empty_request_def new_parser_def)
qed

lemma parse_wire_lemma:
  assumes line: "m \<noteq> []" "list_all token_char m" "list_all uri_char u" "version_ok v"
    and hs: "list_all header_ok hs" "last_length 0 hs = Inr (int (length body))"
  shows "parse new_parser empty_request (wire m u v hs body @ rest) =
    Inr ((good, length (wire m u v hs body), 0), final_parser m body, parsed_request m u v hs body)"
proof -
  let ?line = "m @ '' '' @ u @ '' '' @ v @ CRLF" and ?hs = "concat (map print_header hs)"
  let ?p = "new_parser\<lparr>p_state := header_line_start, method_str := m\<rparr>"
  let ?r = "empty_request\<lparr>rq_uri := u, rq_version := v\<rparr>"
  have split: "wire m u v hs body @ rest = ?line @ (?hs @ CRLF @ body @ rest)"
    by (simp add: wire_def)
  have p: "p_state ?p = header_line_start" "header_key ?p = []" "header_val ?p = []"
    "last_length (body_length ?p) hs = Inr (int (length body))"
    using hs(2) by (simp_all add: new_parser_def)
  note start = parse_feed[OF feed_request_line[OF line], of "?hs @ CRLF @ body @ rest"]
  show ?thesis
  proof (cases "body = []")
    case True
    with start headers_end(2)[OF p(1-3) hs(1) p(4), of ?r rest] split show ?thesis
      by (simp add: wire_def final_parser_def parsed_request_def new_parser_def empty_request_def)
  next
    case False
    have f: "feed ?p ?r (?hs @ CRLF) = Some (?p\<lparr>p_state := in_body, body_length := int (length body)\<rparr>,
        ?r\<lparr>rq_headers := insert_all hs []\<rparr>)"
      using headers_end(1)[OF p(1-3) hs(1) p(4), of ?r] False by (simp add: empty_request_def)
    have "parse ?p ?r (?hs @ CRLF @ body @ rest) = advance (length (?hs @ CRLF))
        (parse (?p\<lparr>p_state := in_body, body_length := int (length body)\<rparr>)
           (?r\<lparr>rq_headers := insert_all hs []\<rparr>) (body @ rest))"
      using parse_feed[OF f, of "body @ rest"] by simp
    with start split False show ?thesis
      by (simp add: parse_body wire_def final_parser_def parsed_request_def new_parser_def empty_request_def)
  qed
qed

lemma parse_wire_fails:
  assumes line: "m \<noteq> []" "list_all token_char m" "list_all uri_char u" "version_ok v"
    and hs: "list_all header_ok hs" "last_length 0 hs = Inl e"
  shows "parse new_parser empty_request (wire m u v hs body @ rest) = Inl e"
proof -
  let ?p = "new_parser\<lparr>p_state := header_line_start, method_str := m\<rparr>"
  have "store_all ?p r hs = Inl e" for r
    using store_all_fresh(1)[of ?p hs e] hs by (simp add: new_parser_def)
  then have "parse ?p r (concat (map print_header hs) @ CRLF @ body @ rest) = Inl e" for r
    using parse_headers_fail[of ?p hs r e "body @ rest"] hs(1) by simp
  with parse_feed[OF feed_request_line[OF line]] show ?thesis
    by (simp add: wire_def)
qed

section \<open>Reported requests are well formed\<close>

text \<open>How much of \<open>HTTP/x.y\<close> the version holds in each state.\<close>

fun version_at :: "parser_state \<Rightarrow> string \<Rightarrow> bool" where
  "version_at method_start v \<longleftrightarrow> v = []"
| "version_at in_method v \<longleftrightarrow> v = []"
| "version_at in_uri v \<longleftrightarrow> v = []"
| "version_at http_version_h v \<longleftrightarrow> v = []"
| "version_at http_version_t_1 v \<longleftrightarrow> v = ''H''"
| "version_at http_version_t_2 v \<longleftrightarrow> v = ''HT''"
| "version_at http_version_p v \<longleftrightarrow> v = ''HTT''"
| "version_at http_version_slash v \<longleftrightarrow> v = ''HTTP''"
| "version_at http_version_major_start v \<longleftrightarrow> v = ''HTTP/''"
| "version_at http_version_major v \<longleftrightarrow> (\<exists>ds. v = ''HTTP/'' @ ds \<and> ds \<noteq> [] \<and> list_all digit_byte ds)"
| "version_at http_version_minor_start v \<longleftrightarrow>
     (\<exists>ds. v = ''HTTP/'' @ ds @ ''.'' \<and> ds \<noteq> [] \<and> list_all digit_byte ds)"
| "version_at _ v \<longleftrightarrow> version_ok v"

definition parser_inv :: "request_parser \<Rightarrow> request \<Rightarrow> bool" where
  "parser_inv p req \<longleftrightarrow>
     list_all token_char (method_str p) \<and>
     list_all token_char (header_key p) \<and>
     list_all text_char (header_val p) \<and>
     list_all uri_char (rq_uri req) \<and>
     version_at (p_state p) (rq_version req) \<and>
     map_ok (rq_headers req) \<and> list_all header_ok (rq_headers req)"

lemma parser_inv_initial: "parser_inv new_parser empty_request"
  by (simp add: parser_inv_def new_parser_def empty_request_def)

lemma header_ok_insert:
  "list_all header_ok m \<Longrightarrow> header_ok (k, v) \<Longrightarrow> list_all header_ok (map_insert k v m)"
  by (induction k v m rule: map_insert.induct) auto

lemma store_header_inv:
  "parser_inv p req \<Longrightarrow> store_header p req = Inr (p', req') \<Longrightarrow> parser_inv p' req'"
  by (auto simp: parser_inv_def store_header_def Let_def header_ok_insert header_ok_def split: if_splits)

lemma token_charI: "is_char (schar c) \<Longrightarrow> text_char c \<Longrightarrow> \<not> is_tspecial (schar c) \<Longrightarrow> token_char c"
  unfolding token_char_def text_char_def by blast

lemma version_at_steps:
  "version_at http_version_major_start ''HTTP/''"
  "version_at http_version_major_start v \<Longrightarrow> digit_byte c \<Longrightarrow> version_at http_version_major (v @ [c])"
  "version_at http_version_major v \<Longrightarrow> digit_byte c \<Longrightarrow> version_at http_version_major (v @ [c])"
  "version_at http_version_major v \<Longrightarrow> version_at http_version_minor_start (v @ ''.'')"
  "version_at http_version_minor_start v \<Longrightarrow> digit_byte c \<Longrightarrow> version_ok (v @ [c])"
  "version_ok v \<Longrightarrow> digit_byte c \<Longrightarrow> version_ok (v @ [c])"
proof -
  assume "version_at http_version_major v" and c: "digit_byte c"
  then obtain ds where "v = ''HTTP/'' @ ds" "ds \<noteq> []" "list_all digit_byte ds" by auto
  with c show "version_at http_version_major (v @ [c])"
    unfolding version_at.simps by (intro exI[of _ "ds @ [c]"]) simp
next
  assume "version_at http_version_minor_start v" and c: "digit_byte c"
  then obtain ds where "v = ''HTTP/'' @ ds @ ''.''" "ds \<noteq> []" "list_all digit_byte ds" by auto
  with c show "version_ok (v @ [c])"
    unfolding version_ok_def by (intro exI[of _ ds] exI[of _ "[c]"]) simp
next
  assume "version_ok v" and c: "digit_byte c"
  then obtain ds es where "v = ''HTTP/'' @ ds @ ''.'' @ es" "ds \<noteq> []" "es \<noteq> []"
    "list_all digit_byte ds" "list_all digit_byte es" by (auto simp: version_ok_def)
  with c show "version_ok (v @ [c])"
    unfolding version_ok_def by (intro exI[of _ ds] exI[of _ "es @ [c]"]) simp
qed simp_all

lemma consume_inv_header:
  assumes "parser_inv p req" "consume p req c = Inr (r, p', req')"
    "p_state p = header_line_start \<or> p_state p = expecting_newline_3"
  shows "parser_inv p' req'"
proof (cases "store_header p req")
  case (Inl e)
  with assms show ?thesis
    by (auto simp: consume_simps parser_inv_def split: if_splits)
next
  case (Inr q)
  obtain p1 r1 where s: "store_header p req = Inr (p1, r1)" using Inr by (cases q) simp
  have i: "parser_inv p1 r1" using store_header_inv[OF assms(1) s] .
  have st: "p_state p1 = p_state p" using store_header_state[OF s] by simp
  from assms(3) show ?thesis
  proof
    assume "p_state p = header_line_start"
    with assms(1,2) s i st show ?thesis
      by (auto simp: consume_simps parser_inv_def intro: token_charI split: if_splits)
  next
    assume "p_state p = expecting_newline_3"
    with assms(1,2) s i st show ?thesis
      by (auto simp: consume_simps parser_inv_def Let_def split: if_splits)
  qed
qed

lemma consume_inv:
  assumes "parser_inv p req" "consume p req c = Inr (r, p', req')"
  shows "parser_inv p' req'"
proof (cases "p_state p = header_line_start \<or> p_state p = expecting_newline_3")
  case True
  with consume_inv_header[OF assms] show ?thesis .
next
  case False
  with assms show ?thesis
    by (cases "p_state p")
      (auto simp: parser_inv_def consume_simps Let_def uri_char_def version_at_steps
        simp del: version_at.simps(9-11) intro: token_charI split: if_splits)
qed

lemma parser_inv_method [simp]: "parser_inv p (req\<lparr>rq_method := m\<rparr>) = parser_inv p req"
  by (simp add: parser_inv_def)

lemma parse_inv:
  "parser_inv p req \<Longrightarrow> parse p req cs = Inr ((r, n, bl), p', req') \<Longrightarrow> parser_inv p' req'"
proof (induction cs arbitrary: p req r n bl)
  case (Cons c cs)
  then obtain r1 p1 req1 where c: "consume p req c = Inr (r1, p1, req1)" by auto
  have "parser_inv p1 req1" using consume_inv[OF Cons.prems(1) c] .
  with Cons.prems(2) c Cons.IH[of p1 req1] show ?case by (auto split: if_splits prod.splits)
qed simp

lemma consume_good:
  "consume p req c = Inr (good, p', req') \<Longrightarrow>
   (p_state p' = expecting_newline_3 \<or> p_state p' = in_body) \<and> body_length p' = 0"
  by (cases "p_state p")
    (auto simp: consume_def expect_char_def Let_def dest: store_header_state split: if_splits)

lemma parse_good:
  "parse p req cs = Inr ((good, n, bl), p', req') \<Longrightarrow>
   (p_state p' = expecting_newline_3 \<or> p_state p' = in_body) \<and> body_length p' = 0 \<and> bl = 0 \<and>
   rq_method req' = method_of (method_str p')"
proof (induction cs arbitrary: p req n bl)
  case (Cons c cs)
  then obtain r1 p1 req1 where c: "consume p req c = Inr (r1, p1, req1)" by auto
  show ?case
  proof (cases r1)
    case good
    with Cons.prems c consume_good[of p req c p1 req1] show ?thesis by (auto split: if_splits)
  next
    case bad
    with Cons.prems c show ?thesis by (auto split: if_splits)
  next
    case indeterminate
    with Cons.prems c Cons.IH[of p1 req1] show ?thesis by (auto split: prod.splits)
  qed
qed simp

definition request_ok :: "request \<Rightarrow> bool" where
  "request_ok r \<longleftrightarrow> list_all uri_char (rq_uri r) \<and> version_ok (rq_version r) \<and>
     map_ok (rq_headers r) \<and> list_all header_ok (rq_headers r)"

lemma request_ok_final:
  "parser_inv p r \<Longrightarrow> p_state p = expecting_newline_3 \<or> p_state p = in_body \<Longrightarrow> request_ok r"
  by (auto simp: parser_inv_def request_ok_def)

section \<open>Strict prefixes of a message\<close>

text \<open>The states in which no header is filed and no body byte is counted.\<close>

definition quiet_state :: "parser_state \<Rightarrow> bool" where
  "quiet_state s \<longleftrightarrow> s \<noteq> header_line_start \<and> s \<noteq> expecting_newline_3 \<and> s \<noteq> in_body"

lemma consume_quiet:
  "quiet_state (p_state p) \<Longrightarrow> c \<noteq> LF \<Longrightarrow> consume p req c = Inr (indeterminate, p', req') \<Longrightarrow>
   quiet_state (p_state p') \<and> body_length p' = body_length p"
  by (cases "p_state p") (auto simp: quiet_state_def consume_def expect_char_def split: if_split_asm)

lemma feed_quiet:
  "quiet_state (p_state p) \<Longrightarrow> LF \<notin> set xs \<Longrightarrow> feed p req xs = Some (p', req') \<Longrightarrow>
   body_length p' = body_length p"
proof (induction xs arbitrary: p req)
  case (Cons c xs)
  then obtain p1 r1 where c: "consume p req c = Inr (indeterminate, p1, r1)" and f: "feed p1 r1 xs = Some (p', req')"
    by (auto simp: feed_Cons_Some simp del: feed.simps)
  from consume_quiet[OF Cons.prems(1) _ c] Cons.prems(2) Cons.IH[OF _ _ f] show ?case by auto
qed simp

lemma feed_prefix:
  assumes "feed p req (xs @ ys) = Some s"
  shows "\<exists>p' r'. feed p req xs = Some (p', r') \<and> feed p' r' ys = Some s"
  using assms by (cases "feed p req xs") (auto simp: feed_append)

text \<open>No Content-Length among these header lines, nor the one read last, is negative.\<close>

definition length_ok :: "string \<times> string \<Rightarrow> bool" where
  "length_ok h \<longleftrightarrow> (fst h = ''Content-Length'' \<longrightarrow> (\<forall>n. stoi (snd h) = Inr n \<longrightarrow> 0 \<le> n))"

definition lengths_ok :: "request_parser \<Rightarrow> bool" where
  "lengths_ok p \<longleftrightarrow> 0 \<le> body_length p \<and> length_ok (header_key p, header_val p)"

lemma store_header_length: "lengths_ok p \<Longrightarrow> store_header p req = Inr (p1, r1) \<Longrightarrow> 0 \<le> body_length p1"
  by (auto simp: lengths_ok_def length_ok_def store_header_def Let_def split: if_split_asm)

lemma print_header_front:
  assumes "header_ok h"
  shows "print_header h = (fst h @ '': '' @ snd h @ [CR]) @ [LF]" "LF \<notin> set (fst h @ '': '' @ snd h @ [CR])"
proof -
  show "print_header h = (fst h @ '': '' @ snd h @ [CR]) @ [LF]" by (simp add: print_header_def)
  have "list_all text_char (fst h)" "list_all text_char (snd h)"
    using assms by (auto simp: header_ok_def list_all_iff)
  then show "LF \<notin> set (fst h @ '': '' @ snd h @ [CR])"
    using text_char_not_newline by (auto simp: list_all_iff)
qed

lemma strict_prefix_snoc: "prefix xs (ys @ [z]) \<Longrightarrow> xs \<noteq> ys @ [z] \<Longrightarrow> prefix xs ys"
  by (auto simp: prefix_def) (metis append_self_conv butlast_append butlast_snoc)

text \<open>Inside one header line.\<close>

lemma feed_header_part:
  assumes "p_state p = header_line_start" "header_ok h" "store_header p req = Inr (p1, r1)" "lengths_ok p"
    and "prefix xs (print_header h)" "xs \<noteq> print_header h"
  shows "\<exists>q r. feed p req xs = Some (q, r) \<and> 0 \<le> body_length q"
proof -
  obtain ys where "print_header h = xs @ ys" using assms(5) by (auto simp: prefix_def)
  with feed_header[OF assms(1-3)] obtain q r where f: "feed p req xs = Some (q, r)"
    using feed_prefix[of p req xs ys] by metis
  have noLF: "LF \<notin> set xs"
    using strict_prefix_snoc[of xs] assms(5,6) print_header_front[OF assms(2)] set_mono_prefix by (metis subsetD)
  have "0 \<le> body_length q"
  proof (cases xs)
    case Nil
    with f assms(4) show ?thesis by (simp add: lengths_ok_def)
  next
    case (Cons c cs)
    obtain k where k: "fst h = c # k" "token_char c"
      using assms(2,5) Cons by (cases "fst h") (auto simp: header_ok_def print_header_def)
    have "consume p req c = Inr (indeterminate, p1\<lparr>p_state := header_name, header_key := [c], header_val := []\<rparr>, r1)"
      using assms(1,3) k token_char_not_special[OF k(2)] by (simp add: consume_simps)
    with f Cons have "feed (p1\<lparr>p_state := header_name, header_key := [c], header_val := []\<rparr>) r1 cs = Some (q, r)" by simp
    from feed_quiet[OF _ _ this] noLF Cons store_header_length[OF assms(4,3)] show ?thesis
      by (simp add: quiet_state_def)
  qed
  with f show ?thesis by blast
qed

text \<open>Inside the header lines and the empty line.\<close>

lemma feed_headers_part:
  "p_state p = header_line_start \<Longrightarrow> list_all header_ok hs \<Longrightarrow> list_all length_ok hs \<Longrightarrow> lengths_ok p \<Longrightarrow>
   store_all p req hs = Inr s \<Longrightarrow> prefix xs (concat (map print_header hs) @ CRLF) \<Longrightarrow>
   xs \<noteq> concat (map print_header hs) @ CRLF \<Longrightarrow>
   \<exists>q r. feed p req xs = Some (q, r) \<and> 0 \<le> body_length q"
proof (induction hs arbitrary: p req xs)
  case Nil
  then have "xs = [] \<or> xs = [CR]" by (auto simp: prefix_Cons)
  with Nil show ?case by (auto simp: consume_simps lengths_ok_def)
next
  case (Cons h hs)
  from Cons.prems(5) obtain p1 r1 where s: "store_header p req = Inr (p1, r1)"
    and all: "store_all (p1\<lparr>header_key := fst h, header_val := snd h\<rparr>) r1 hs = Inr s" by auto
  have h: "header_ok h" using Cons.prems(2) by simp
  let ?q = "p1\<lparr>header_key := fst h, header_val := snd h\<rparr>"
  show ?case
  proof (cases "prefix xs (print_header h) \<and> xs \<noteq> print_header h")
    case True
    with feed_header_part[OF Cons.prems(1) h s Cons.prems(4)] show ?thesis by blast
  next
    case False
    then obtain xs' where xs: "xs = print_header h @ xs'" "prefix xs' (concat (map print_header hs) @ CRLF)"
      using Cons.prems(6) by (auto simp: prefix_append)
    have upd: "p1\<lparr>p_state := header_line_start, header_key := fst h, header_val := snd h\<rparr> = ?q"
      using store_header_state[OF s] Cons.prems(1) by (cases p1) simp
    have f: "feed p req (print_header h) = Some (?q, r1)"
      using feed_header[OF Cons.prems(1) h s] upd by simp
    have q: "p_state ?q = header_line_start" "lengths_ok ?q"
      using store_header_state[OF s] Cons.prems(1,3) store_header_length[OF Cons.prems(4) s]
      by (simp_all add: lengths_ok_def)
    have "\<exists>q r. feed ?q r1 xs' = Some (q, r) \<and> 0 \<le> body_length q"
      by (rule Cons.IH[OF q(1) _ _ q(2) all xs(2)]) (use Cons.prems xs in auto)
    with f xs(1) show ?thesis by (simp add: feed_append)
  qed
qed

lemma prefix_append_strict:
  assumes "prefix xs (ys @ zs)"
  shows "prefix xs ys \<and> xs \<noteq> ys \<or> (\<exists>us. xs = ys @ us \<and> prefix us zs)"
proof -
  from assms consider "prefix xs ys" | us where "xs = ys @ us" "prefix us zs" by (auto simp: prefix_append)
  then show ?thesis
  proof cases
    case 1
    then show ?thesis by (cases "xs = ys") auto
  qed blast
qed

lemma cut_cases:
  assumes "prefix xs ((front @ [z]) @ hs @ body)" "xs \<noteq> (front @ [z]) @ hs @ body"
  shows "prefix xs front \<or> (\<exists>ys. xs = (front @ [z]) @ ys \<and> prefix ys hs \<and> ys \<noteq> hs) \<or>
    (\<exists>zs. xs = (front @ [z]) @ hs @ zs \<and> prefix zs body \<and> zs \<noteq> body)"
proof -
  from prefix_append_strict[OF assms(1)]
  consider "prefix xs (front @ [z])" "xs \<noteq> front @ [z]" | us where "xs = (front @ [z]) @ us" "prefix us (hs @ body)"
    by blast
  then show ?thesis
  proof cases
    case 1
    from strict_prefix_snoc[OF 1] show ?thesis by (rule disjI1)
  next
    case (2 us)
    from prefix_append_strict[OF 2(2)] show ?thesis
    proof
      assume "\<exists>zs. us = hs @ zs \<and> prefix zs body"
      then obtain zs where zs: "us = hs @ zs" "prefix zs body" by blast
      have "xs = (front @ [z]) @ hs @ zs" using 2(1) unfolding zs(1) .
      moreover from this assms(2) have "zs \<noteq> body" by (intro notI) simp
      ultimately show ?thesis using zs(2) by (intro disjI2 exI[of _ zs] conjI)
    next
      assume "prefix us hs \<and> us \<noteq> hs"
      with 2(1) show ?thesis by (intro disjI2 disjI1 exI[of _ us] conjI) simp_all
    qed
  qed
qed

lemma line_no_LF:
  assumes "list_all token_char m" "list_all uri_char u" "version_ok v"
  shows "LF \<notin> set (m @ '' '' @ u @ '' '' @ v @ [CR])"
proof -
  have "\<not> digit_byte LF" by code_simp
  then have "LF \<notin> set v" using assms(3) by (auto simp: version_ok_def list_all_iff)
  moreover have "\<not> token_char LF" "\<not> uri_char LF" by code_simp+
  then have "LF \<notin> set m" "LF \<notin> set u" using assms(1,2) unfolding list_all_iff by blast+
  ultimately show ?thesis by simp
qed

text \<open>A message cut anywhere: what came before the cut decides nothing.\<close>

lemma wire_prefix:
  assumes line: "m \<noteq> []" "list_all token_char m" "list_all uri_char u" "version_ok v"
    and hs: "list_all header_ok hs" "last_length 0 hs = Inr (int (length body))" "list_all length_ok hs"
    and "prefix xs (wire m u v hs body)" "xs \<noteq> wire m u v hs body"
  shows "\<exists>p r. feed new_parser empty_request xs = Some (p, r) \<and> 0 \<le> body_length p"
proof -
  let ?line = "m @ '' '' @ u @ '' '' @ v @ CRLF"
  let ?hs = "concat (map print_header hs) @ CRLF"
  let ?p = "new_parser\<lparr>p_state := header_line_start, method_str := m\<rparr>"
  let ?r = "empty_request\<lparr>rq_uri := u, rq_version := v\<rparr>"
  have w: "wire m u v hs body = ?line @ ?hs @ body" by (simp add: wire_def)
  have fl: "feed new_parser empty_request ?line = Some (?p, ?r)" by (rule feed_request_line[OF line])
  have p: "p_state ?p = header_line_start" "header_key ?p = []" "header_val ?p = []"
    "last_length (body_length ?p) hs = Inr (int (length body))" "lengths_ok ?p"
    using hs(2) by (simp_all add: new_parser_def lengths_ok_def length_ok_def)
  let ?front = "m @ '' '' @ u @ '' '' @ v @ [CR]"
  consider "prefix xs ?front" | ys where "xs = ?line @ ys" "prefix ys ?hs" "ys \<noteq> ?hs"
    | zs where "xs = ?line @ ?hs @ zs" "prefix zs body" "zs \<noteq> body"
    using cut_cases[of xs ?front LF ?hs body] assms(8,9) unfolding w by auto
  then show ?thesis
  proof cases
    case 1
    then obtain zs where "?front = xs @ zs" by (auto simp: prefix_def)
    then have "?line = xs @ zs @ [LF]" using append_assoc[of xs zs "[LF]"] by simp
    with fl obtain p r where f: "feed new_parser empty_request xs = Some (p, r)" using feed_prefix by metis
    have "LF \<notin> set ?front" using line_no_LF[OF line(2-4)] .
    then have "LF \<notin> set xs" using set_mono_prefix[OF 1] by blast
    with feed_quiet[OF _ _ f] f show ?thesis by (simp add: new_parser_def quiet_state_def)
  next
    case (2 ys)
    obtain s where "store_all ?p ?r hs = Inr s" using store_all_fresh(2)[OF p(2) hs(1) p(4), of ?r] by blast
    from feed_headers_part[OF p(1) hs(1,3) p(5) this 2(2,3)] obtain q r where
      "feed ?p ?r ys = Some (q, r)" "0 \<le> body_length q" by blast
    then show ?thesis unfolding 2(1) feed_append[of new_parser empty_request ?line] fl by simp
  next
    case (3 zs)
    let ?p1 = "?p\<lparr>p_state := in_body, body_length := int (length body)\<rparr>"
    let ?r1 = "?r\<lparr>rq_headers := insert_all hs (rq_headers ?r)\<rparr>"
    have len: "length zs < length body"
      using 3(2,3) by (auto simp: prefix_def)
    then have ne: "int (length body) \<noteq> 0" by auto
    have h: "feed ?p ?r ?hs = Some (?p1, ?r1)" by (rule headers_end(1)[OF p(1-3) hs(1) p(4) ne])
    have b: "feed ?p1 ?r1 zs = Some (?p1\<lparr>body_length := int (length body) - int (length zs)\<rparr>, ?r1\<lparr>rq_body := rq_body ?r1 @ zs\<rparr>)"
      using feed_body[of ?p1 zs ?r1] len by (simp add: INT_MIN_def)
    show ?thesis
      unfolding 3(1) feed_append[of new_parser empty_request ?line] fl bind.bind_lunit prod.case
        feed_append[of ?p ?r ?hs] h b using len by simp
  qed
qed

section \<open>Properties of the parser\<close>

text \<open>C14: A message on the wire, made of a token as method, a URI without blanks and control
  characters, a version and any header lines in any order, whose last Content-Length (0 if there is
  none) is the length of the body, is reported as good at its last byte whatever follows it, with
  exactly its method, URI, version and body and with the first header line of every name.\<close>

theorem parse_wire:
  assumes "m \<noteq> []" "list_all token_char m" "list_all uri_char u" "version_ok v"
    and "list_all header_ok hs" "last_length 0 hs = Inr (int (length body))"
  shows "parse new_parser empty_request (wire m u v hs body @ rest) =
    Inr ((good, length (wire m u v hs body), 0), final_parser m body, parsed_request m u v hs body)"
  using assms by (rule parse_wire_lemma)

lemma version_ok_1_1: "version_ok ''HTTP/1.1''"
  unfolding version_ok_def
  by (intro exI[of _ "''1''"]) (simp add: digit_byte_def is_digit_def schar_def)

theorem parse_wire_witness:
  "last_length 0 [(''Content-Length'', ''4'')] = Inr (int (length ''body'')) \<and>
   parse new_parser empty_request
     (wire ''PUT'' ''/echo'' ''HTTP/1.1'' [(''Content-Length'', ''4'')] ''body'' @ ''GET'') =
   Inr ((good, 45, 0), final_parser ''PUT'' ''body'',
        \<lparr>rq_method = PUT, rq_uri = ''/echo'', rq_version = ''HTTP/1.1'',
         rq_headers = [(''Content-Length'', ''4'')], rq_body = ''body''\<rparr>)"
proof -
  have h: "(''PUT'' :: string) \<noteq> []" "list_all token_char ''PUT''" "list_all uri_char ''/echo''"
    "list_all header_ok [(''Content-Length'', ''4'')]"
    "last_length 0 [(''Content-Length'', ''4'')] = Inr (int (length ''body''))"
    by (simp, code_simp+)
  have "length (wire ''PUT'' ''/echo'' ''HTTP/1.1'' [(''Content-Length'', ''4'')] ''body'') = 45"
    "parsed_request ''PUT'' ''/echo'' ''HTTP/1.1'' [(''Content-Length'', ''4'')] ''body'' =
      \<lparr>rq_method = PUT, rq_uri = ''/echo'', rq_version = ''HTTP/1.1'',
       rq_headers = [(''Content-Length'', ''4'')], rq_body = ''body''\<rparr>"
    by code_simp+
  with h(5) parse_wire[OF h(1-3) version_ok_1_1 h(4,5), of "''GET''"] show ?thesis by simp
qed

text \<open>Every request the parser reports as good, from whatever input, has a URI without blanks
  or control characters, a version of the form HTTP/x.y, sorted headers with distinct token names and
  values without control characters, and a body read completely.\<close>

theorem parse_good_wellformed:
  assumes "parse new_parser empty_request cs = Inr ((good, n, bl), p', r)"
  shows "request_ok r \<and> bl = 0 \<and> n \<le> length cs \<and> rq_method r = method_of (method_str p')"
  using parse_inv[OF parser_inv_initial assms] parse_good[OF assms] parse_consumed_bound[OF assms]
    request_ok_final by blast

theorem parse_good_wellformed_witness:
  "(\<exists>n bl p' r. parse new_parser empty_request (''HEAD / HTTP/1.0'' @ CRLF @ CRLF) = Inr ((good, n, bl), p', r) \<and>
     request_ok r \<and> bl = 0)"
proof -
  have "parse new_parser empty_request (''HEAD / HTTP/1.0'' @ CRLF @ CRLF) =
      Inr ((good, 19, 0), new_parser\<lparr>p_state := expecting_newline_3, method_str := ''HEAD''\<rparr>,
        \<lparr>rq_method = HEAD, rq_uri = ''/'', rq_version = ''HTTP/1.0'', rq_headers = [], rq_body = []\<rparr>)"
    by code_simp
  from this parse_good_wellformed[OF this] show ?thesis by blast
qed

text \<open>A malformed byte is reported as bad only if the announced body is already in the
  buffer: with fewer bytes left than \<open>body_length\<close>, \<open>parse\<close> answers indeterminate and keeps the
  state in which it met the byte.\<close>

theorem parse_bad_masked:
  assumes "feed p req xs = Some (p1, req1)" "consume p1 req1 c = Inr (bad, p', req')"
    and "body_length p' > int (length cs)"
  shows "parse p req (xs @ c # cs) =
    Inr ((indeterminate, length xs + 1, body_length p'), p', req'\<lparr>rq_method := method_of (method_str p')\<rparr>)"
  using parse_feed[OF assms(1), of "c # cs"] assms(2,3) by simp

theorem parse_bad_masked_witness:
  "(\<exists>p' req'. parse new_parser empty_request
      ((''GET / HTTP/1.1'' @ CRLF @ ''Content-Length: 9'' @ CRLF @ ''X'') @ CHR ''('' # ''bad'') =
      Inr ((indeterminate, 37, 9), p', req'))"
proof -
  let ?xs = "''GET / HTTP/1.1'' @ CRLF @ ''Content-Length: 9'' @ CRLF @ ''X''"
  let ?p = "\<lparr>p_state = header_name, header_key = ''X'', header_val = [], method_str = ''GET'',
    body_length = 9\<rparr>"
  let ?r = "\<lparr>rq_method = GET, rq_uri = ''/'', rq_version = ''HTTP/1.1'',
    rq_headers = [(''Content-Length'', ''9'')], rq_body = []\<rparr>"
  have f: "feed new_parser empty_request ?xs = Some (?p, ?r)" by code_simp
  have c: "consume ?p ?r CHR ''('' = Inr (bad, ?p, ?r)" by code_simp
  have n: "body_length ?p > int (length ''bad'')" by simp
  have "length ?xs + 1 = 37" by simp
  with parse_bad_masked[OF f c n] show ?thesis by (metis request_parser.select_convs(5))
qed

end
