(* ===== verification/Handlers.thy ===== *)
theory Handlers
  imports Response Request_Correct
begin

text \<open>
  The contract of a request handler (\<open>request_handler.h\<close>) as a locale, with what every client
  of a handler may conclude from it, and the three stateless handlers: echo, health and not
  found (\<open>echo_request_handler.cc\<close>, \<open>health_request_handler.cc\<close>,
  \<open>not_found_request_handler.cc\<close>).
\<close>

section \<open>The contract of a handler\<close>

text \<open>
  A handler changes its state and returns a response, or an exception leaves it, or
  (\<^const>\<open>None\<close>) it never returns.  A handler called for a sequence of requests, as the
  session does, threads its state.
\<close>

fun run_handler ::
  "('st \<Rightarrow> request \<Rightarrow> (response \<times> 'st) result option) \<Rightarrow> 'st \<Rightarrow> request list \<Rightarrow>
   (response list \<times> 'st) result option"
where
  "run_handler handle s [] = Some (Inr ([], s))"
| "run_handler handle s (r # rs) =
     Option.bind (handle s r) (\<lambda>x. case x of
       Inl e \<Rightarrow> Some (Inl e)
     | Inr (res, s1) \<Rightarrow> map_option (\<lambda>y. and_then y (\<lambda>(ress, s2). Inr (res # ress, s2))) (run_handler handle s1 rs))"

lemma run_handler_Cons_Some:
  assumes "run_handler handle s (r # rs) = Some (Inr (ress, s'))"
  shows "\<exists>res s1 ress1. handle s r = Some (Inr (res, s1)) \<and>
    run_handler handle s1 rs = Some (Inr (ress1, s')) \<and> ress = res # ress1"
proof -
  obtain x where x: "handle s r = Some x" using assms by (cases "handle s r") auto
  show ?thesis using assms x by (cases x) (auto split: prod.splits)
qed

text \<open>The bytes of a response as they are written to the socket.\<close>

definition response_bytes :: "response \<Rightarrow> string result" where
  "response_bytes res = and_then (build (set_response res new_builder)) (\<lambda>(bufs, b). Inr (concat bufs))"

text \<open>A client that takes all messages off the stream.\<close>

fun receive_all :: "nat \<Rightarrow> string \<Rightarrow> (string \<times> (string, string) entries \<times> string) list option" where
  "receive_all 0 s = (if s = [] then Some [] else None)"
| "receive_all (Suc n) s =
     Option.bind (receive s) (\<lambda>(status, hs, body, rest).
       map_option (Cons (status, hs, body)) (receive_all n rest))"

definition message_of :: "response \<Rightarrow> string \<times> (string, string) entries \<times> string" where
  "message_of res = (''HTTP/1.1 '' @ status_text (the (rs_code res)), rs_headers res, rs_body res)"

lemma response_bytes_wf:
  "wf_response res \<Longrightarrow>
   response_bytes res = Inr (entire_header (the (rs_code res)) (rs_headers res) @ rs_body res)"
  by (auto simp: response_bytes_def build_def set_response_def wf_response_def Let_def)

lemma receive_response:
  assumes "wf_response res"
  shows "receive (entire_header (the (rs_code res)) (rs_headers res) @ rs_body res @ rest) =
    Some (''HTTP/1.1 '' @ status_text (the (rs_code res)), rs_headers res, rs_body res, rest)"
  using receive_built[OF assms] assms by (auto simp: wf_response_def)

lemma receive_all_wf:
  "list_all wf_response ress \<Longrightarrow>
   \<exists>bs. map_result response_bytes ress = Inr bs \<and>
     receive_all (length ress) (concat bs) = Some (map message_of ress)"
proof (induction ress)
  case (Cons res ress)
  then obtain bs where bs: "map_result response_bytes ress = Inr bs"
    "receive_all (length ress) (concat bs) = Some (map message_of ress)" by auto
  from Cons.prems have wf: "wf_response res" by simp
  show ?case
    using bs response_bytes_wf[OF wf] receive_response[OF wf]
    by (simp add: message_of_def)
qed simp

locale http_handler =
  fixes handle :: "env \<Rightarrow> 'st \<Rightarrow> request \<Rightarrow> (response \<times> 'st) result option"
    and inv :: "'st \<Rightarrow> bool"
  assumes handle_wf:
    "env_ok e \<Longrightarrow> inv s \<Longrightarrow> handle e s req = Some (Inr (res, s')) \<Longrightarrow> wf_response res \<and> inv s'"
begin

lemma run_wf:
  "env_ok e \<Longrightarrow> inv s \<Longrightarrow> run_handler (handle e) s reqs = Some (Inr (ress, s')) \<Longrightarrow>
   list_all wf_response ress \<and> inv s' \<and> length ress = length reqs"
proof (induction reqs arbitrary: s ress)
  case (Cons r rs)
  from run_handler_Cons_Some[OF Cons.prems(3)]
  obtain res s1 ress1 where h: "handle e s r = Some (Inr (res, s1))"
    and r: "run_handler (handle e) s1 rs = Some (Inr (ress1, s'))" and ress: "ress = res # ress1" by blast
  from handle_wf[OF Cons.prems(1,2) h] Cons.IH[OF Cons.prems(1) _ r] ress show ?case by simp
qed simp

text \<open>Whatever a handler answers can be sent, and the client reads back what was answered.\<close>

lemma answers_framed:
  assumes "env_ok e" "inv s" "run_handler (handle e) s reqs = Some (Inr (ress, s'))"
  shows "\<exists>bs. map_result response_bytes ress = Inr bs \<and>
    receive_all (length reqs) (concat bs) = Some (map message_of ress)"
  using run_wf[OF assms] receive_all_wf[of ress] by metis

end

text \<open>A handler that answers every request of a class and never throws.\<close>

locale total_handler = http_handler +
  fixes accepts_request :: "env \<Rightarrow> 'a \<Rightarrow> request \<Rightarrow> bool"
  assumes handle_total:
    "env_ok e \<Longrightarrow> inv s \<Longrightarrow> accepts_request e s req \<Longrightarrow> \<exists>res s'. handle e s req = Some (Inr (res, s'))"
begin

lemma answers_one:
  assumes "env_ok e" "inv s" "accepts_request e s req"
  shows "\<exists>res s' b. handle e s req = Some (Inr (res, s')) \<and> inv s' \<and> response_bytes res = Inr b \<and>
    receive (b @ rest) = Some (''HTTP/1.1 '' @ status_text (the (rs_code res)), rs_headers res, rs_body res, rest)"
proof -
  obtain res s' where h: "handle e s req = Some (Inr (res, s'))" using handle_total[OF assms] by blast
  from handle_wf[OF assms(1,2) h] response_bytes_wf[of res] receive_response[of res rest] h
  show ?thesis by auto
qed

end

section \<open>Echo\<close>

fun method_name :: "http_method \<Rightarrow> string" where
  "method_name GET = ''GET''"
| "method_name POST = ''POST''"
| "method_name PUT = ''PUT''"
| "method_name HEAD = ''HEAD''"
| "method_name INVALID = ''INVALID''"

definition echo_body :: "request \<Rightarrow> string" where
  "echo_body req =
     method_name (rq_method req) @ '' '' @ rq_uri req @ '' '' @ rq_version req @ CRLF @
     concat (map (\<lambda>entry. fst entry @ '': '' @ snd entry @ CRLF) (rq_headers req)) @
     CRLF @ rq_body req"

definition echo_handle_request :: "env \<Rightarrow> unit \<Rightarrow> request \<Rightarrow> (response \<times> unit) result" where
  "echo_handle_request e _ req =
     (let res = (if rq_method req \<noteq> INVALID then
                   let body = echo_body req in
                   add_body body (add_header ''Content-Length'' (to_string (length body))
                     (add_header ''Content-Type'' ''text/plain'' (set_code OK new_builder)))
                 else make_400_error new_builder)
      in Inr (get_response (make_date_servername_headers e res), ()))"

section \<open>Health\<close>

definition health_handle_request :: "env \<Rightarrow> unit \<Rightarrow> request \<Rightarrow> (response \<times> unit) result" where
  "health_handle_request e _ req =
     (let res = (if rq_method req \<noteq> INVALID then
                   let body = ''OK'' in
                   add_header ''Content-Length'' (to_string (length body))
                     (add_body body (set_code OK new_builder))
                 else make_400_error new_builder)
      in Inr (get_response (make_date_servername_headers e res), ()))"

section \<open>Not found\<close>

definition not_found_handle_request :: "env \<Rightarrow> unit \<Rightarrow> request \<Rightarrow> (response \<times> unit) result" where
  "not_found_handle_request e _ req = Inr (get_response (make_404_error e new_builder), ())"

section \<open>The handlers meet the contract\<close>

lemma clean_fixed_headers [simp]:
  "clean_header (''Content-Type'', v) \<longleftrightarrow> clean_text v"
  "clean_header (''Content-Length'', v) \<longleftrightarrow> clean_text v"
  by (simp_all add: clean_header_def)

interpretation echo: total_handler "\<lambda>e s req. Some (echo_handle_request e s req)" "\<lambda>_. True" "\<lambda>_ _ _. True"
proof unfold_locales
  fix e :: env and s req res s'
  assume e: "env_ok e" and h: "Some (echo_handle_request e s req) = Some (Inr (res, s'))"
  let ?b = "add_body (echo_body req) (add_header ''Content-Length'' (to_string (length (echo_body req)))
      (add_header ''Content-Type'' ''text/plain'' (set_code OK new_builder)))"
  have "wf_response (get_response (make_date_servername_headers e ?b))"
    by (rule wf_get_response) (use e in auto)
  with h wf_400[OF e] show "wf_response res \<and> True"
    by (auto simp: echo_handle_request_def Let_def split: if_splits)
qed (auto simp: echo_handle_request_def)

interpretation health: total_handler "\<lambda>e s req. Some (health_handle_request e s req)" "\<lambda>_. True" "\<lambda>_ _ _. True"
proof unfold_locales
  fix e :: env and s req res s'
  assume e: "env_ok e" and h: "Some (health_handle_request e s req) = Some (Inr (res, s'))"
  let ?b = "add_header ''Content-Length'' (to_string (length ''OK'')) (add_body ''OK'' (set_code OK new_builder))"
  have "wf_response (get_response (make_date_servername_headers e ?b))"
    by (rule wf_get_response) (use e in auto)
  with h wf_400[OF e] show "wf_response res \<and> True"
    by (auto simp: health_handle_request_def Let_def split: if_splits)
qed (auto simp: health_handle_request_def)

interpretation not_found: total_handler "\<lambda>e s req. Some (not_found_handle_request e s req)" "\<lambda>_. True" "\<lambda>_ _ _. True"
  by unfold_locales (auto simp: not_found_handle_request_def wf_404)

section \<open>Properties\<close>

lemma method_name_token:
  "m \<noteq> INVALID \<Longrightarrow> method_name m \<noteq> [] \<and> list_all token_char (method_name m) \<and> method_of (method_name m) = m"
  by (cases m; simp; code_simp)

lemma echo_reparses:
  assumes "request_ok r" "rq_method r \<noteq> INVALID"
    and "last_length 0 (rq_headers r) = Inr (int (length (rq_body r)))"
  shows "\<exists>res p. echo_handle_request e () r = Inr (res, ()) \<and> rs_code res = Some OK \<and>
    parse new_parser empty_request (rs_body res @ rest) = Inr ((good, length (rs_body res), 0), p, r)"
proof -
  have m: "method_name (rq_method r) \<noteq> []" "list_all token_char (method_name (rq_method r))"
    "method_of (method_name (rq_method r)) = rq_method r"
    using method_name_token[OF assms(2)] by simp_all
  have r: "list_all uri_char (rq_uri r)" "version_ok (rq_version r)" "map_ok (rq_headers r)"
    "list_all header_ok (rq_headers r)" using assms(1) by (simp_all add: request_ok_def)
  have body: "echo_body r = wire (method_name (rq_method r)) (rq_uri r) (rq_version r) (rq_headers r) (rq_body r)"
    by (simp add: echo_body_def wire_def print_header_def[abs_def])
  have req: "parsed_request (method_name (rq_method r)) (rq_uri r) (rq_version r) (rq_headers r) (rq_body r) = r"
    using sm.elems_rebuild[OF r(3)] m(3) by (simp add: parsed_request_def)
  show ?thesis
    using parse_wire_lemma[OF m(1,2) r(1,2,4) assms(3), of rest] body req assms(2)
    by (simp add: echo_handle_request_def get_response_def Let_def)
qed

text \<open>The body of an echo response is the request again: for a well-formed request whose
  Content-Length matches its body, the server's own parser reads the echoed bytes back to the same
  request, whatever follows them.\<close>

theorem echo_roundtrip:
  assumes "request_ok r" "rq_method r \<noteq> INVALID"
    and "last_length 0 (rq_headers r) = Inr (int (length (rq_body r)))"
  shows "\<exists>res p. echo_handle_request e () r = Inr (res, ()) \<and> rs_code res = Some OK \<and>
    parse new_parser empty_request (rs_body res @ rest) = Inr ((good, length (rs_body res), 0), p, r)"
  using assms by (rule echo_reparses)

theorem echo_roundtrip_witness:
  "\<exists>res p. echo_handle_request \<lparr>env_files = Map.empty, env_files_rw = Map.empty, env_log_dir = None,
       env_host_name = None, env_date = []\<rparr> ()
     \<lparr>rq_method = POST, rq_uri = ''/echo'', rq_version = ''HTTP/1.1'',
      rq_headers = [(''Content-Length'', ''2''), (''Host'', ''a'')], rq_body = ''hi''\<rparr> = Inr (res, ()) \<and>
   rs_code res = Some OK \<and>
   parse new_parser empty_request (rs_body res @ []) = Inr ((good, length (rs_body res), 0), p,
     \<lparr>rq_method = POST, rq_uri = ''/echo'', rq_version = ''HTTP/1.1'',
      rq_headers = [(''Content-Length'', ''2''), (''Host'', ''a'')], rq_body = ''hi''\<rparr>)"
proof (rule echo_roundtrip)
  let ?hs = "[(''Content-Length'', ''2''), (''Host'', ''a'')] :: headers"
  have "list_all uri_char ''/echo''" "map_ok ?hs" "list_all header_ok ?hs" by code_simp+
  then show "request_ok \<lparr>rq_method = POST, rq_uri = ''/echo'', rq_version = ''HTTP/1.1'',
      rq_headers = ?hs, rq_body = ''hi''\<rparr>"
    by (simp add: request_ok_def version_ok_1_1)
  show "last_length 0 (rq_headers \<lparr>rq_method = POST, rq_uri = ''/echo'', rq_version = ''HTTP/1.1'',
      rq_headers = ?hs, rq_body = ''hi''\<rparr>) = Inr (int (length (rq_body \<lparr>rq_method = POST,
      rq_uri = ''/echo'', rq_version = ''HTTP/1.1'', rq_headers = ?hs, rq_body = ''hi''\<rparr>)))"
    by code_simp
qed simp

end
