(* ===== verification/Config_Parser.thy ===== *)
theory Config_Parser
  imports Prelude
begin

text \<open>
  The configuration parser (\<open>config_parser.cc\<close>, \<open>config_parser.h\<close>): the tree of blocks and
  statements, the tokenizer \<open>ParseToken\<close>, the stack-driven loop \<open>Parse\<close>, the printer
  \<open>ToString\<close>, and the queries \<open>parse_port\<close>, \<open>get_value_from_statement\<close> and
  \<open>get_location_result\<close> that the server makes.  This theory holds the definitions and the
  facts on single operations; \<open>Config_Correct\<close> relates the loop to the grammar and proves
  the round trip.
\<close>

section \<open>The configuration tree\<close>

text \<open>
  \<open>statements_\<close> is the vector of statements of a block and \<open>child_block_\<close> the nested block
  a statement owns, \<^const>\<open>None\<close> for the null pointer.
\<close>

datatype NginxConfig = NginxConfig (statements: "NginxConfigStatement list")
and NginxConfigStatement =
  NginxConfigStatement (tokens: "string list") (child_block: "NginxConfig option")

datatype TokenType =
    TOKEN_TYPE_START
  | TOKEN_TYPE_NORMAL
  | TOKEN_TYPE_START_BLOCK
  | TOKEN_TYPE_END_BLOCK
  | TOKEN_TYPE_COMMENT
  | TOKEN_TYPE_STATEMENT_END
  | TOKEN_TYPE_EOF
  | TOKEN_TYPE_ERROR

datatype TokenParserState =
    TOKEN_STATE_INITIAL_WHITESPACE
  | TOKEN_STATE_SINGLE_QUOTE
  | TOKEN_STATE_DOUBLE_QUOTE
  | TOKEN_STATE_TOKEN_TYPE_COMMENT
  | TOKEN_STATE_TOKEN_TYPE_NORMAL

record location_parse_result =
  loc_uri :: string
  loc_handler_name :: string
  loc_block_config :: "NginxConfig option"

fun TokenTypeAsString :: "TokenType \<Rightarrow> string" where
  "TokenTypeAsString TOKEN_TYPE_START = ''TOKEN_TYPE_START''"
| "TokenTypeAsString TOKEN_TYPE_NORMAL = ''TOKEN_TYPE_NORMAL''"
| "TokenTypeAsString TOKEN_TYPE_START_BLOCK = ''TOKEN_TYPE_START_BLOCK''"
| "TokenTypeAsString TOKEN_TYPE_END_BLOCK = ''TOKEN_TYPE_END_BLOCK''"
| "TokenTypeAsString TOKEN_TYPE_COMMENT = ''TOKEN_TYPE_COMMENT''"
| "TokenTypeAsString TOKEN_TYPE_STATEMENT_END = ''TOKEN_TYPE_STATEMENT_END''"
| "TokenTypeAsString TOKEN_TYPE_EOF = ''TOKEN_TYPE_EOF''"
| "TokenTypeAsString TOKEN_TYPE_ERROR = ''TOKEN_TYPE_ERROR''"

section \<open>Printing\<close>

definition indent :: "int \<Rightarrow> string" where
  "indent depth = concat (replicate (nat depth) ''  '')"

fun join_tokens :: "string list \<Rightarrow> string" where
  "join_tokens [] = []"
| "join_tokens [t] = t"
| "join_tokens (t # ts) = t @ '' '' @ join_tokens ts"

fun config_ToString :: "NginxConfig \<Rightarrow> int \<Rightarrow> string"
  and statement_ToString :: "NginxConfigStatement \<Rightarrow> int \<Rightarrow> string" where
  "config_ToString (NginxConfig ss) depth = concat (map (\<lambda>s. statement_ToString s depth) ss)"
| "statement_ToString (NginxConfigStatement ts child) depth =
     indent depth @ join_tokens ts @
     (case child of
        Some c \<Rightarrow> '' {'' @ [LF] @ config_ToString c (depth + 1) @ indent depth @ ''}''
      | None \<Rightarrow> '';'') @
     [LF]"

section \<open>Queries\<close>

text \<open>
  \<open>parse_port\<close>: the first valid port in document order, \<open>-1\<close> when there is none; a
  statement with a nested block is searched inside the block only.
\<close>

fun config_parse_port :: "NginxConfig \<Rightarrow> int result"
  and statements_parse_port :: "NginxConfigStatement list \<Rightarrow> int result" where
  "config_parse_port (NginxConfig ss) = statements_parse_port ss"
| "statements_parse_port [] = Inr (- 1)"
| "statements_parse_port (NginxConfigStatement ts None # ss) =
     (if length ts = 2 \<and> ts ! 0 = ''port'' then
        and_then (atoi (ts ! 1)) (\<lambda>port_number.
          if port_number \<ge> 0 \<and> port_number \<le> 0xffff then Inr port_number
          else statements_parse_port ss)
      else statements_parse_port ss)"
| "statements_parse_port (NginxConfigStatement ts (Some c) # ss) =
     and_then (config_parse_port c) (\<lambda>child_port_number.
       if child_port_number = - 1 then statements_parse_port ss
       else Inr child_port_number)"

text \<open>
  \<open>get_value_from_statement\<close> returns the second token of the first statement that starts
  with the key, reading past the end of the token vector if there is no second token.
\<close>

fun lookup_statement :: "NginxConfigStatement list \<Rightarrow> string \<Rightarrow> string result" where
  "lookup_statement [] key = Inr []"
| "lookup_statement (s # ss) key =
     (if length (tokens s) > 0 \<and> tokens s ! 0 = key then
        (if length (tokens s) > 1 then Inr (tokens s ! 1) else Inl UB_index)
      else lookup_statement ss key)"

definition get_value_from_statement :: "NginxConfig \<Rightarrow> string \<Rightarrow> string result" where
  "get_value_from_statement config key = lookup_statement (statements config) key"

fun location_results :: "NginxConfigStatement list \<Rightarrow> location_parse_result list result" where
  "location_results [] = Inr []"
| "location_results (s # ss) =
     (if length (tokens s) = 3 \<and> tokens s ! 0 = ''location'' then
        and_then (substr (tokens s ! 1) 1 (size_minus (length (tokens s ! 1)) 2)) (\<lambda>source.
        and_then (location_results ss) (\<lambda>rest.
          Inr (\<lparr>loc_uri = source, loc_handler_name = tokens s ! 2,
                loc_block_config = child_block s\<rparr> # rest)))
      else location_results ss)"

definition get_location_result :: "NginxConfig \<Rightarrow> location_parse_result list result" where
  "get_location_result config = location_results (statements config)"

section \<open>The tokenizer\<close>

text \<open>
  \<open>ParseToken\<close> reads the stream byte by byte.  The model takes the unread input and the
  token read so far and returns the token type, the token and the input left unread;
  \<open>input->unget()\<close> leaves the byte in the input.  The end of the list is the end of the stream.
\<close>

fun ParseToken_loop :: "TokenParserState \<Rightarrow> string \<Rightarrow> string \<Rightarrow> TokenType \<times> string \<times> string" where
  "ParseToken_loop state [] value =
     (if state = TOKEN_STATE_SINGLE_QUOTE \<or> state = TOKEN_STATE_DOUBLE_QUOTE
      then (TOKEN_TYPE_ERROR, value, []) else (TOKEN_TYPE_EOF, value, []))"
| "ParseToken_loop TOKEN_STATE_INITIAL_WHITESPACE (c # input) value =
     (if c = CHR ''{'' then (TOKEN_TYPE_START_BLOCK, [c], input)
      else if c = CHR ''}'' then (TOKEN_TYPE_END_BLOCK, [c], input)
      else if c = CHR ''#'' then ParseToken_loop TOKEN_STATE_TOKEN_TYPE_COMMENT input [c]
      else if c = CHR 0x22 then ParseToken_loop TOKEN_STATE_DOUBLE_QUOTE input [c]
      else if c = CHR 0x27 then ParseToken_loop TOKEN_STATE_SINGLE_QUOTE input [c]
      else if c = CHR '';'' then (TOKEN_TYPE_STATEMENT_END, [c], input)
      else if c = SP \<or> c = TAB \<or> c = LF \<or> c = CR
        then ParseToken_loop TOKEN_STATE_INITIAL_WHITESPACE input value
      else ParseToken_loop TOKEN_STATE_TOKEN_TYPE_NORMAL input (value @ [c]))"
| "ParseToken_loop TOKEN_STATE_SINGLE_QUOTE (c # input) value =
     (if c = CHR 0x27 then (TOKEN_TYPE_NORMAL, value @ [c], input)
      else ParseToken_loop TOKEN_STATE_SINGLE_QUOTE input (value @ [c]))"
| "ParseToken_loop TOKEN_STATE_DOUBLE_QUOTE (c # input) value =
     (if c = CHR 0x22 then (TOKEN_TYPE_NORMAL, value @ [c], input)
      else ParseToken_loop TOKEN_STATE_DOUBLE_QUOTE input (value @ [c]))"
| "ParseToken_loop TOKEN_STATE_TOKEN_TYPE_COMMENT (c # input) value =
     (if c = LF \<or> c = CR then (TOKEN_TYPE_COMMENT, value, input)
      else ParseToken_loop TOKEN_STATE_TOKEN_TYPE_COMMENT input (value @ [c]))"
| "ParseToken_loop TOKEN_STATE_TOKEN_TYPE_NORMAL (c # input) value =
     (if c = SP \<or> c = TAB \<or> c = LF \<or> c = TAB \<or> c = CHR '';'' \<or> c = CHR ''{'' \<or> c = CHR ''}''
      then (TOKEN_TYPE_NORMAL, value, c # input)
      else ParseToken_loop TOKEN_STATE_TOKEN_TYPE_NORMAL input (value @ [c]))"

definition ParseToken :: "string \<Rightarrow> TokenType \<times> string \<times> string" where
  "ParseToken input = ParseToken_loop TOKEN_STATE_INITIAL_WHITESPACE input []"

text \<open>Every token except the end of the stream and an unterminated quote consumes input.\<close>

lemma ParseToken_loop_length:
  "ParseToken_loop state input v = (tt, tok, rest) \<Longrightarrow> length rest \<le> length input"
proof (induction input arbitrary: state v)
  case Nil
  then show ?case by (simp split: if_splits)
next
  case (Cons c input)
  have IH: "length rest \<le> Suc (length input)"
    if "ParseToken_loop state' input v' = (tt, tok, rest)" for state' v'
    using Cons.IH[OF that] by simp
  from IH Cons.prems show ?case
    by (cases state) (auto split: if_split_asm)
qed

lemma ParseToken_progress:
  assumes "ParseToken input = (tt, tok, rest)" "tt \<noteq> TOKEN_TYPE_EOF" "tt \<noteq> TOKEN_TYPE_ERROR"
  shows "length rest < length input"
proof -
  have "length rest < length input"
    if "ParseToken_loop TOKEN_STATE_INITIAL_WHITESPACE input v = (tt, tok, rest)" for v
    using that
  proof (induction input arbitrary: v)
    case Nil
    then show ?case using assms by simp
  next
    case (Cons c input)
    show ?case
    proof (cases "c = SP \<or> c = TAB \<or> c = LF \<or> c = CR")
      case True
      with Cons.prems have "ParseToken_loop TOKEN_STATE_INITIAL_WHITESPACE input v = (tt, tok, rest)"
        by auto
      from Cons.IH[OF this] show ?thesis by simp
    next
      case False
      with Cons.prems show ?thesis
        by (auto split: if_splits simp: less_Suc_eq_le dest: ParseToken_loop_length)
    qed
  qed
  with assms(1) show ?thesis by (simp add: ParseToken_def)
qed

section \<open>The parser loop\<close>

text \<open>
  \<open>config_stack\<close> holds raw pointers to blocks of the tree that the out-parameter \<open>config\<close>
  owns.  A pointer is modelled by its path: the indices of the statements whose child blocks
  lead from the root to the block; a write through it updates the tree at that path.
\<close>

type_synonym config_ptr = "nat list"

fun update_block ::
  "config_ptr \<Rightarrow> (NginxConfigStatement list \<Rightarrow> NginxConfigStatement list) \<Rightarrow> NginxConfig \<Rightarrow> NginxConfig"
where
  "update_block [] f (NginxConfig ss) = NginxConfig (f ss)"
| "update_block (i # p) f (NginxConfig ss) =
     (if i < length ss then
        (case ss ! i of
           NginxConfigStatement ts (Some c) \<Rightarrow>
             NginxConfig (ss[i := NginxConfigStatement ts (Some (update_block p f c))])
         | NginxConfigStatement ts None \<Rightarrow> NginxConfig ss)
      else NginxConfig ss)"

fun block_at :: "config_ptr \<Rightarrow> NginxConfig \<Rightarrow> NginxConfig option" where
  "block_at [] c = Some c"
| "block_at (i # p) (NginxConfig ss) =
     (if i < length ss then Option.bind (child_block (ss ! i)) (block_at p) else None)"

definition push_token :: "string \<Rightarrow> NginxConfigStatement \<Rightarrow> NginxConfigStatement" where
  "push_token t s = NginxConfigStatement (tokens s @ [t]) (child_block s)"

definition set_child :: "NginxConfig \<Rightarrow> NginxConfigStatement \<Rightarrow> NginxConfigStatement" where
  "set_child c s = NginxConfigStatement (tokens s) (Some c)"

text \<open>\<open>v.back()\<close> is updated in place.\<close>

definition update_back :: "('a \<Rightarrow> 'a) \<Rightarrow> 'a list \<Rightarrow> 'a list" where
  "update_back f xs = butlast xs @ [f (last xs)]"

record parse_state =
  config :: NginxConfig
  config_stack :: "config_ptr list"
  last_token_type :: TokenType
  BracketCount :: int

text \<open>How one turn of the loop ends: with the next turn, with a \<open>break\<close>, or with \<open>return true\<close>.\<close>

datatype parse_turn = Next parse_state | Break parse_state | Return_true parse_state

definition parse_normal :: "parse_state \<Rightarrow> string \<Rightarrow> parse_turn result" where
  "parse_normal st token =
     (if last_token_type st = TOKEN_TYPE_START \<or>
         last_token_type st = TOKEN_TYPE_STATEMENT_END \<or>
         last_token_type st = TOKEN_TYPE_START_BLOCK \<or>
         last_token_type st = TOKEN_TYPE_END_BLOCK \<or>
         last_token_type st = TOKEN_TYPE_NORMAL then
        (case config_stack st of
           [] \<Rightarrow> Inl UB_empty_stack
         | blk # _ \<Rightarrow>
             let c1 = (if last_token_type st \<noteq> TOKEN_TYPE_NORMAL
                       then update_block blk (\<lambda>ss. ss @ [NginxConfigStatement [] None]) (config st)
                       else config st)
             in (case block_at blk c1 of
                   None \<Rightarrow> Inl UB_null_deref
                 | Some b \<Rightarrow>
                     if statements b = [] then Inl UB_index
                     else Inr (Next (st\<lparr>config := update_block blk (update_back (push_token token)) c1,
                                       last_token_type := TOKEN_TYPE_NORMAL\<rparr>))))
      else Inr (Break st))"

definition parse_start_block :: "parse_state \<Rightarrow> parse_turn result" where
  "parse_start_block st0 =
     (let st = st0\<lparr>BracketCount := BracketCount st0 + 1\<rparr> in
      if last_token_type st \<noteq> TOKEN_TYPE_NORMAL then Inr (Break st)
      else (case config_stack st of
              [] \<Rightarrow> Inl UB_empty_stack
            | blk # _ \<Rightarrow>
                (case block_at blk (config st) of
                   None \<Rightarrow> Inl UB_null_deref
                 | Some b \<Rightarrow>
                     if statements b = [] then Inl UB_index
                     else Inr (Next (st\<lparr>config := update_block blk (update_back (set_child (NginxConfig []))) (config st),
                                       config_stack := (blk @ [length (statements b) - 1]) # config_stack st,
                                       last_token_type := TOKEN_TYPE_START_BLOCK\<rparr>)))))"

definition parse_end_block :: "parse_state \<Rightarrow> parse_turn result" where
  "parse_end_block st0 =
     (let st = st0\<lparr>BracketCount := BracketCount st0 - 1\<rparr> in
      if last_token_type st \<noteq> TOKEN_TYPE_STATEMENT_END \<and>
         last_token_type st \<noteq> TOKEN_TYPE_START_BLOCK \<and>
         last_token_type st \<noteq> TOKEN_TYPE_END_BLOCK then Inr (Break st)
      else (case config_stack st of
              [] \<Rightarrow> Inl UB_empty_stack
            | _ # rest \<Rightarrow> Inr (Next (st\<lparr>config_stack := rest, last_token_type := TOKEN_TYPE_END_BLOCK\<rparr>))))"

definition parse_eof :: "parse_state \<Rightarrow> parse_turn" where
  "parse_eof st =
     (if last_token_type st \<noteq> TOKEN_TYPE_STATEMENT_END \<and>
         last_token_type st \<noteq> TOKEN_TYPE_END_BLOCK \<and>
         last_token_type st \<noteq> TOKEN_TYPE_START then Break st
      else if BracketCount st \<noteq> 0 then Break st
      else Return_true st)"

fun parse_turn_of :: "parse_state \<Rightarrow> TokenType \<Rightarrow> string \<Rightarrow> parse_turn result" where
  "parse_turn_of st TOKEN_TYPE_ERROR token = Inr (Break st)"
| "parse_turn_of st TOKEN_TYPE_COMMENT token = Inr (Next st)"
| "parse_turn_of st TOKEN_TYPE_START token = Inr (Break st)"
| "parse_turn_of st TOKEN_TYPE_NORMAL token = parse_normal st token"
| "parse_turn_of st TOKEN_TYPE_STATEMENT_END token =
     (if last_token_type st \<noteq> TOKEN_TYPE_NORMAL then Inr (Break st)
      else Inr (Next (st\<lparr>last_token_type := TOKEN_TYPE_STATEMENT_END\<rparr>)))"
| "parse_turn_of st TOKEN_TYPE_START_BLOCK token = parse_start_block st"
| "parse_turn_of st TOKEN_TYPE_END_BLOCK token = parse_end_block st"
| "parse_turn_of st TOKEN_TYPE_EOF token = Inr (parse_eof st)"

text \<open>The result of \<open>Parse\<close>: its return value, the out-parameter and what it prints.\<close>

record parse_output =
  parsed :: bool
  parsed_config :: NginxConfig
  printed :: string

definition bad_transition :: "TokenType \<Rightarrow> TokenType \<Rightarrow> string" where
  "bad_transition from_type to_type =
     ''Bad transition from '' @ TokenTypeAsString from_type @ '' to '' @
     TokenTypeAsString to_type @ [LF]"

lemma no_next_at_eof:
  "parse_turn_of st TOKEN_TYPE_EOF token \<noteq> Inr (Next st')"
  "parse_turn_of st TOKEN_TYPE_ERROR token \<noteq> Inr (Next st')"
  by (auto simp: parse_eof_def)

function Parse_loop :: "parse_state \<Rightarrow> string \<Rightarrow> parse_output result" where
  "Parse_loop st input =
     (case ParseToken input of (token_type, token, rest) \<Rightarrow>
        (case parse_turn_of st token_type token of
           Inl e \<Rightarrow> Inl e
         | Inr (Next st') \<Rightarrow> Parse_loop st' rest
         | Inr (Break st') \<Rightarrow>
             Inr \<lparr>parsed = False, parsed_config = config st',
                  printed = bad_transition (last_token_type st') token_type\<rparr>
         | Inr (Return_true st') \<Rightarrow>
             Inr \<lparr>parsed = True, parsed_config = config st', printed = []\<rparr>))"
  by pat_completeness auto
termination
proof (relation "measure (\<lambda>(st, input). length input)")
  fix st input st' tt token rest and y :: "string \<times> string" and b
  assume "(tt, y) = ParseToken input" "(token, rest) = y"
    and turn: "parse_turn_of st tt token = Inr b" "b = Next st'"
  then have "ParseToken input = (tt, token, rest)" by simp
  moreover have "tt \<noteq> TOKEN_TYPE_EOF" "tt \<noteq> TOKEN_TYPE_ERROR"
    using turn no_next_at_eof by auto
  ultimately show "((st', rest), st, input) \<in> measure (\<lambda>(st, input). length input)"
    by (simp add: ParseToken_progress)
qed simp

declare Parse_loop.simps [simp del]

definition initial_parse_state :: "NginxConfig \<Rightarrow> parse_state" where
  "initial_parse_state config0 =
     \<lparr>config = config0, config_stack = [[]], last_token_type = TOKEN_TYPE_START, BracketCount = 0\<rparr>"

definition Parse :: "string \<Rightarrow> NginxConfig \<Rightarrow> parse_output result" where
  "Parse input config0 = Parse_loop (initial_parse_state config0) input"

text \<open>
  \<open>Parse\<close> of a file name: \<open>files\<close> gives the contents of the files that can be opened.
\<close>

definition Parse_file :: "(string \<Rightarrow> string option) \<Rightarrow> string \<Rightarrow> NginxConfig \<Rightarrow> parse_output result" where
  "Parse_file files file_name config0 =
     (case files file_name of
        None \<Rightarrow> Inr \<lparr>parsed = False, parsed_config = config0,
                     printed = ''Failed to open config file: '' @ file_name @ [LF]\<rparr>
      | Some contents \<Rightarrow> Parse contents config0)"

end
