(* ===== verification/Log_Helper.thy ===== *)
theory Log_Helper
  imports Handlers Config_Parser
begin

text \<open>
  The logger (\<open>log_helper.h\<close>, \<open>log_helper.cc\<close>): the records it writes, with their severity
  and text, and how its constructor configures boost.log.  The log is the list of records written
  so far, oldest first.  The formatter of boost.log, which prints a record according to a format
  string, is outside the repository and a parameter of what the log file contains.
\<close>

datatype severity_level = trace | warning | error

text \<open>Severities are ordered as boost.log orders them.\<close>

fun severity_rank :: "severity_level \<Rightarrow> nat" where
  "severity_rank trace = 0"
| "severity_rank warning = 3"
| "severity_rank error = 4"

instantiation severity_level :: linorder
begin

definition less_eq_severity_level :: "severity_level \<Rightarrow> severity_level \<Rightarrow> bool" where
  "less_eq_severity_level a b \<longleftrightarrow> severity_rank a \<le> severity_rank b"

definition less_severity_level :: "severity_level \<Rightarrow> severity_level \<Rightarrow> bool" where
  "less_severity_level a b \<longleftrightarrow> severity_rank a < severity_rank b"

instance
proof
  fix a b :: severity_level
  assume "a \<le> b" "b \<le> a"
  then show "a = b" by (cases a; cases b) (simp_all add: less_eq_severity_level_def)
qed (auto simp: less_eq_severity_level_def less_severity_level_def)

end

type_synonym log = "(severity_level \<times> string) list"

section \<open>The configuration of boost.log\<close>

definition COMMON_FMT :: string where
  "COMMON_FMT = ''%TimeStamp% [%ThreadID%] [%Severity%] [%ProcessID%] [%LineID%] %Message%''"

record log_config =
  lc_console_format :: string
  lc_console_flush :: bool
  lc_file_name :: string
  lc_rotation_size :: nat
  lc_rotation_time :: "nat \<times> nat \<times> nat"
  lc_file_flush :: bool
  lc_append :: bool
  lc_file_format :: string
  lc_filter :: "severity_level \<Rightarrow> bool"

definition new_log_helper :: log_config where
  "new_log_helper =
     \<lparr>lc_console_format = COMMON_FMT, lc_console_flush = True,
      lc_file_name = ''../log/sample_log_%N.log'', lc_rotation_size = 10 * 1024 * 1024,
      lc_rotation_time = (0, 0, 0), lc_file_flush = True, lc_append = True, lc_file_format = COMMON_FMT,
      lc_filter = (\<lambda>severity. severity \<ge> trace)\<rparr>"

text \<open>
  A formatter prints a record (severity, line number and text) for a format string.  What the
  program relies on: under its format, which ends in the message, the line is the message behind
  a prefix of time stamp, numbers and severity, on one line and without the letter \<open>R\<close>.
\<close>

type_synonym formatter = "string \<Rightarrow> severity_level \<Rightarrow> nat \<Rightarrow> string \<Rightarrow> string"

definition formatter_ok :: "formatter \<Rightarrow> bool" where
  "formatter_ok fmt \<longleftrightarrow> (\<forall>severity i message. \<exists>hdr. fmt COMMON_FMT severity i message = hdr @ message \<and>
     CHR ''R'' \<notin> set hdr \<and> LF \<notin> set hdr)"

text \<open>The lines of the log file: every record that passes the filter, numbered.\<close>

definition file_lines :: "formatter \<Rightarrow> log_config \<Rightarrow> log \<Rightarrow> string list" where
  "file_lines fmt lc lg =
     map (\<lambda>(i, severity, message). fmt (lc_file_format lc) severity i message)
       (enumerate 1 (filter (\<lambda>(severity, message). lc_filter lc severity) lg))"

section \<open>The records\<close>

lemma trace_least: "trace \<le> severity"
  by (cases severity) (simp_all add: less_eq_severity_level_def)

lemma filter_passes [simp]: "lc_filter new_log_helper severity"
  by (simp add: new_log_helper_def trace_least)

definition log_trace_file :: "string \<Rightarrow> log \<Rightarrow> log" where
  "log_trace_file trace_message lg = lg @ [(trace, ''Trace: '' @ trace_message)]"

definition log_error_file :: "string \<Rightarrow> log \<Rightarrow> log" where
  "log_error_file error_message lg = lg @ [(error, ''Error: '' @ error_message)]"

definition log_warning_file :: "string \<Rightarrow> log \<Rightarrow> log" where
  "log_warning_file warning_message lg = lg @ [(warning, ''Warning: '' @ warning_message)]"

text \<open>
  The remote endpoint of a socket as one query answers it: address and port, or \<^const>\<open>None\<close>
  when the peer is gone (the overload without an error code throws then).
\<close>

type_synonym endpoint = "(string \<times> nat) option"

definition remote_endpoint :: "endpoint \<Rightarrow> (string \<times> nat) result" where
  "remote_endpoint ep = (case ep of Some a \<Rightarrow> Inr a | None \<Rightarrow> Inl Throw_system_error)"

text \<open>\<open>log_request_info\<close> asks for the endpoint twice, first for the address, then for the port.\<close>

definition log_request_info :: "request \<Rightarrow> endpoint \<Rightarrow> endpoint \<Rightarrow> log \<Rightarrow> log result" where
  "log_request_info req ep1 ep2 lg =
     and_then (remote_endpoint ep1) (\<lambda>(address, _).
     and_then (remote_endpoint ep2) (\<lambda>(_, port).
       Inr (lg @ [(trace,
         ''Trace: '' @ method_name (rq_method req) @ '' '' @ rq_uri req @ '' HTTP '' @
         concat (map (\<lambda>h. '' '' @ fst h @ '':'' @ snd h) (rq_headers req)) @
         '' IP: '' @ address @ '' Port: '' @ to_string port)])))"

fun code_name :: "status_code \<Rightarrow> string" where
  "code_name BAD_REQ = ''400''"
| "code_name NOT_FOUND = ''404''"
| "code_name OK = ''200''"

text \<open>\<open>codes[res.code_]\<close>\<close>

definition code_text :: "response \<Rightarrow> string result" where
  "code_text res = (case rs_code res of Some c \<Rightarrow> Inr (code_name c) | None \<Rightarrow> Inl UB_uninitialised)"

definition log_response_info :: "request \<Rightarrow> response \<Rightarrow> log \<Rightarrow> log result" where
  "log_response_info req res lg =
     and_then (code_text res) (\<lambda>code.
       Inr (lg @ [(trace, ''Trace: '' @ code @ '' for request: '' @ rq_uri req)]))"

definition log_response_sent :: "log \<Rightarrow> log" where
  "log_response_sent lg = lg @ [(trace, ''Response Sent'')]"

definition handlers_message :: "location_parse_result list \<Rightarrow> string" where
  "handlers_message handlers_info =
     ''all handlers: '' @ concat (map (\<lambda>r. loc_handler_name r @ '' '' @ loc_uri r @ '' '') handlers_info)"

definition log_all_handlers :: "NginxConfig \<Rightarrow> log \<Rightarrow> log result" where
  "log_all_handlers conf lg =
     and_then (get_location_result conf) (\<lambda>handlers_info. Inr (lg @ [(trace, handlers_message handlers_info)]))"

definition metrics_message :: "string \<Rightarrow> string \<Rightarrow> string \<Rightarrow> string \<Rightarrow> string" where
  "metrics_message code uri ip handler_name =
     ''ResponseMetrics: '' @ '' Response code : '' @ code @ '' Request path: '' @ uri @
     '' IP: '' @ ip @ '' Matched request handler name: '' @ handler_name"

text \<open>\<open>log_metrics\<close> tests the endpoint with the first query and prints the second one.\<close>

definition log_metrics ::
  "request \<Rightarrow> response \<Rightarrow> endpoint \<Rightarrow> endpoint \<Rightarrow> string \<Rightarrow> log \<Rightarrow> log result" where
  "log_metrics req res ep1 ep2 handler_name lg =
     and_then (code_text res) (\<lambda>code.
     and_then (case ep1 of
                 None \<Rightarrow> Inr ''Failed to get the remote endpoint of the socket''
               | Some _ \<Rightarrow> and_then (remote_endpoint ep2) (\<lambda>(address, _). Inr address)) (\<lambda>ip.
       Inr (lg @ [(trace, metrics_message code (rq_uri req) ip handler_name)])))"

lemma log_metrics_defined:
  assumes "wf_response res" "ep1 = None \<or> ep2 \<noteq> None"
  shows "\<exists>ip. log_metrics req res ep1 ep2 name lg =
    Inr (lg @ [(trace, metrics_message (code_name (the (rs_code res))) (rq_uri req) ip name)])"
  using assms by (auto simp: log_metrics_def code_text_def wf_response_def remote_endpoint_def split: option.splits)

end
