(* ===== verification/Reverse_Proxy.thy ===== *)
theory Reverse_Proxy
  imports Log_Helper
begin

text \<open>
  The reverse proxy (\<open>reverse_proxy_request_handler.h\<close>, \<open>reverse_proxy_request_handler.cc\<close>):
  construction, the request it forwards, the exchange with the upstream server, redirects and
  the rewritten response.  The network and \<open>boost::replace_all\<close> are outside the repository and
  are parameters; a reply arrives cut into arbitrary segments.  This theory holds the
  definitions; \<open>Proxy_Correct\<close> proves them against the shape of an HTTP reply.
\<close>

section \<open>The outside\<close>

text \<open>
  What a connection attempt to the upstream server comes to: no address, no connection, or a
  connection that delivers these segments and then ends, by end of file or by another error.
\<close>

datatype net_outcome =
    Resolve_failed
  | Connect_failed
  | Connected "string list" bool

text \<open>
  \<open>up_net n host port bytes\<close> is the outcome when \<open>bytes\<close> is sent as the \<open>n\<close>-th exchange of the
  process, so that a server may answer the same request differently each time.
\<close>

record upstream =
  up_net :: "nat \<Rightarrow> string \<Rightarrow> string \<Rightarrow> string \<Rightarrow> net_outcome"
  up_replace_all :: "string \<Rightarrow> string \<Rightarrow> string \<Rightarrow> string"

text \<open>What handlers change outside themselves: the log and the number of exchanges so far.\<close>

record world =
  w_log :: log
  w_sent :: nat

section \<open>URLs\<close>

record url =
  host :: string
  path :: string
  query :: string

definition tolower :: "char \<Rightarrow> char" where
  "tolower c = (if 65 \<le> (of_char c :: nat) \<and> (of_char c :: nat) \<le> 90 then char_of ((of_char c :: nat) + 32) else c)"

definition empty_url :: url where
  "empty_url = \<lparr>host = [], path = [], query = []\<rparr>"

definition parse_url :: "string \<Rightarrow> url" where
  "parse_url url_s =
     (case str_find ''://'' url_s of
        None \<Rightarrow> empty_url
      | Some i \<Rightarrow>
          let s = drop (i + 3) url_s;
              h = takeWhile (\<lambda>c. c \<noteq> CHR ''/'') s;
              p = dropWhile (\<lambda>c. c \<noteq> CHR ''/'') s;
              q = dropWhile (\<lambda>c. c \<noteq> CHR ''?'') p
          in \<lparr>host = map tolower h, path = takeWhile (\<lambda>c. c \<noteq> CHR ''?'') p,
              query = (case q of [] \<Rightarrow> [] | _ # r \<Rightarrow> r)\<rparr>)"

section \<open>Construction\<close>

record reverse_proxy_request_handler =
  px_prefix :: string
  px_dest :: string
  px_port :: string
  px_host :: string
  px_path :: string

definition new_reverse_proxy_request_handler ::
  "NginxConfig \<Rightarrow> string \<Rightarrow> reverse_proxy_request_handler result" where
  "new_reverse_proxy_request_handler conf prefix_uri =
     and_then (with_slash prefix_uri) (\<lambda>pfx.
     and_then (get_value_from_statement conf ''dest'') (\<lambda>d.
     and_then (substr d 1 (size_minus (length d) 2)) (\<lambda>d'.
     and_then (with_slash d') (\<lambda>dest.
     and_then (get_value_from_statement conf ''port'') (\<lambda>p.
       let loc = parse_url dest in
       Inr \<lparr>px_prefix = pfx, px_dest = dest, px_port = (if p \<noteq> [] then p else ''80''),
            px_host = host loc, px_path = path loc\<rparr>)))))"

text \<open>\<open>init\<close> makes a proxy, or (\<^const>\<open>None\<close>) a not-found handler.\<close>

definition proxy_init :: "string \<Rightarrow> NginxConfig \<Rightarrow> reverse_proxy_request_handler option result" where
  "proxy_init prefix_uri conf =
     and_then (get_value_from_statement conf ''dest'') (\<lambda>d.
       if d \<noteq> [] \<and> prefix_uri \<noteq> []
       then and_then (new_reverse_proxy_request_handler conf prefix_uri) (\<lambda>h. Inr (Some h))
       else Inr None)"

section \<open>The forwarded request\<close>

text \<open>The table of method names has no entry for an invalid method.\<close>

definition request_to_string :: "request \<Rightarrow> string result" where
  "request_to_string req =
     (if rq_method req = INVALID then Inl UB_index
      else Inr (method_name (rq_method req) @ '' '' @ rq_uri req @ '' '' @ rq_version req @ CRLF @
                concat (map (\<lambda>it. fst it @ '': '' @ snd it @ CRLF) (rq_headers req)) @
                rq_body req @ CRLF @ CRLF))"

definition get_proxy_request :: "request \<Rightarrow> url \<Rightarrow> request" where
  "get_proxy_request req dest =
     \<lparr>rq_method = rq_method req, rq_uri = path dest @ query dest, rq_version = ''HTTP/1.0'',
      rq_headers = map_assign ''Host'' (host dest)
        (map_assign ''Accept-Encoding'' ''*/*'' (map_erase ''Connection'' (rq_headers req))),
      rq_body = rq_body req\<rparr>"

definition throw_400_error :: "env \<Rightarrow> response" where
  "throw_400_error e = get_response (make_date_servername_headers e (make_400_error new_builder))"

section \<open>Reading the reply\<close>

text \<open>
  \<open>boost::asio::read_until\<close>: segments are appended to the buffer until it contains the
  delimiter or the connection ends.
\<close>

fun read_until :: "string \<Rightarrow> string \<Rightarrow> string list \<Rightarrow> string \<times> string list" where
  "read_until delim buf [] = (buf, [])"
| "read_until delim buf (seg # segs) =
     (if sublist delim buf then (buf, seg # segs) else read_until delim (buf @ seg) segs)"

text \<open>
  The formatted extractions of the status line: a word, an unsigned number, the rest of the
  line.  The result is the word, the number, the unread rest and whether the stream can
  still be read (it cannot once the end was hit); \<^const>\<open>None\<close> is a failed stream.
\<close>

definition extract_unsigned :: "string \<Rightarrow> (nat \<times> string) option" where
  "extract_unsigned s =
     (let s1 = dropWhile is_space s;
          (neg, s2) = (case s1 of
                         c # r \<Rightarrow> if c = CHR ''-'' then (True, r)
                                  else if c = CHR ''+'' then (False, r) else (False, s1)
                       | [] \<Rightarrow> (False, []));
          ds = takeWhile is_dec s2;
          n = digits_val ds
      in if ds = [] \<or> n \<ge> 2 ^ 32 then None
         else Some (if neg then (2 ^ 32 - n) mod 2 ^ 32 else n, drop (length ds) s2))"

definition parse_status :: "string \<Rightarrow> (string \<times> nat \<times> string \<times> bool) option" where
  "parse_status s =
     (let s1 = dropWhile is_space s;
          w = takeWhile (\<lambda>c. \<not> is_space c) s1
      in if w = [] then None
         else (case extract_unsigned (drop (length w) s1) of
                 None \<Rightarrow> None
               | Some (code, r) \<Rightarrow>
                   if r = [] then None
                   else (case dropWhile (\<lambda>c. c \<noteq> LF) r of
                           [] \<Rightarrow> Some (w, code, [], False)
                         | _ # rest \<Rightarrow> Some (w, code, rest, True))))"

text \<open>\<open>header.find(":") + 2\<close>, which is 1 when there is no colon.\<close>

definition value_pos :: "string \<Rightarrow> nat" where
  "value_pos h = (case str_find '':'' h of Some i \<Rightarrow> i + 2 | None \<Rightarrow> 1)"

text \<open>The loop over the header lines that looks for a redirect's target.\<close>

function find_location :: "string \<Rightarrow> string option result" where
  "find_location buf =
     (if buf = [] then Inr None
      else let header = takeWhile (\<lambda>c. c \<noteq> LF) buf;
               rest = drop (Suc (length header)) buf
           in if header = [CR] then Inr None
              else if str_find ''Location'' header \<noteq> None
              then and_then (substr_from (butlast header) (value_pos (butlast header))) (\<lambda>l. Inr (Some l))
              else find_location rest)"
  by auto

termination
  by (relation "measure length") (auto simp: neq_Nil_conv)

declare find_location.simps [simp del]

text \<open>The loop that copies the reply's headers; it ends at the empty line or with the buffer.\<close>

function copy_headers :: "string \<Rightarrow> response_builder \<Rightarrow> (string \<times> response_builder) result" where
  "copy_headers buf b =
     (if buf = [] then Inr ([], b)
      else let line = takeWhile (\<lambda>c. c \<noteq> LF) buf;
               rest = drop (Suc (length line)) buf
           in if line = [CR] then Inr (rest, b)
              else if line = [] then Inl UB_buffer
              else let header = butlast line;
                       token = takeWhile (\<lambda>c. c \<noteq> CHR '':'') header
                   in if token \<noteq> ''Transfer-Encoding''
                      then and_then (substr_from header (value_pos header)) (\<lambda>v. copy_headers rest (add_header token v b))
                      else copy_headers rest b)"
  by auto

termination
  by (relation "measure (length o fst)") (auto simp: neq_Nil_conv)

declare copy_headers.simps [simp del]

definition href_mark :: string where "href_mark = ''href='' @ [CHR 0x22]"
definition src_mark :: string where "src_mark = ''src='' @ [CHR 0x22]"

definition rewrite_links :: "upstream \<Rightarrow> string \<Rightarrow> string \<Rightarrow> string" where
  "rewrite_links up pfx body =
     up_replace_all up (up_replace_all up body (href_mark @ ''/'') (href_mark @ pfx))
       (src_mark @ ''/'') (src_mark @ pfx)"

section \<open>One exchange\<close>

text \<open>
  \<open>send_request\<close> up to its call of \<open>handle_redirect\<close>: a response for the client, or the
  location to go to.
\<close>

datatype reply = Answer response | Redirect string

definition log_400 :: "env \<Rightarrow> string \<Rightarrow> world \<Rightarrow> (reply \<times> world) result" where
  "log_400 e msg w = Inr (Answer (throw_400_error e), w\<lparr>w_log := log_error_file msg (w_log w)\<rparr>)"

text \<open>The part for status 200: the remaining headers, then everything up to the end.\<close>

definition relay ::
  "env \<Rightarrow> upstream \<Rightarrow> string \<Rightarrow> string \<Rightarrow> bool \<Rightarrow> string list \<Rightarrow> bool \<Rightarrow> response result" where
  "relay e up pfx buf readable segs at_eof =
     (let (buf', segs') = read_until (CRLF @ CRLF) buf segs;
          res = set_code OK new_builder in
      and_then (if readable then copy_headers buf' res else Inr (buf', res)) (\<lambda>(content, res').
        if \<not> at_eof then Inl Throw_system_error
        else let body = rewrite_links up pfx (content @ concat segs');
                 res'' = add_body body (add_header ''Content-Length'' (to_string (length body)) res')
             in Inr (get_response (make_date_servername_headers e res''))))"

text \<open>The distinction by status code.\<close>

definition answer_status ::
  "env \<Rightarrow> upstream \<Rightarrow> reverse_proxy_request_handler \<Rightarrow> nat \<Rightarrow> string \<Rightarrow> bool \<Rightarrow> string list \<Rightarrow> bool \<Rightarrow> world \<Rightarrow>
   (reply \<times> world) result" where
  "answer_status e up px status_code rest readable segs at_eof w =
     (if status_code = 302 \<or> status_code = 301 then
        and_then (if readable then find_location rest else Inr None) (\<lambda>location.
          case location of
            Some l \<Rightarrow> Inr (Redirect l, w)
          | None \<Rightarrow> log_400 e ''No redirect location was provided'' w)
      else if status_code = 200 then
        and_then (relay e up (px_prefix px) rest readable segs at_eof) (\<lambda>res. Inr (Answer res, w))
      else if status_code = 404 then
        Inr (Answer (get_response (make_date_servername_headers e (make_404_error e new_builder))), w)
      else log_400 e (''Unsupported return code: '' @ to_string status_code) w)"

definition exchange ::
  "env \<Rightarrow> upstream \<Rightarrow> reverse_proxy_request_handler \<Rightarrow> request \<Rightarrow> string \<Rightarrow> world \<Rightarrow> (reply \<times> world) result" where
  "exchange e up px req host_name w =
     and_then (request_to_string req) (\<lambda>curr_request.
       let w' = w\<lparr>w_sent := Suc (w_sent w)\<rparr> in
       case up_net up (w_sent w) host_name (px_port px) curr_request of
         Resolve_failed \<Rightarrow> log_400 e (''Could not resolve endpoint for host: '' @ host_name) w'
       | Connect_failed \<Rightarrow> log_400 e (''Could not connect to host: '' @ host_name) w'
       | Connected segs at_eof \<Rightarrow>
           let (buf, segs') = read_until CRLF [] segs in
           (case parse_status buf of
              None \<Rightarrow> log_400 e ''No HTTP response detected from server'' w'
            | Some (http_version, status_code, rest, readable) \<Rightarrow>
                if take 5 http_version \<noteq> ''HTTP/'' then
                  log_400 e ''No HTTP response detected from server'' w'
                else answer_status e up px status_code rest readable segs' at_eof w'))"

section \<open>Redirects\<close>

text \<open>\<open>handle_redirect\<close> up to its call of \<open>send_request\<close>: the request to send next and its
  host, or (\<^const>\<open>None\<close>) a redirection to the same place.\<close>

definition redirect_url :: "string \<Rightarrow> url" where
  "redirect_url location =
     (if str_find ''http://'' location \<noteq> None \<or> str_find ''https://'' location \<noteq> None
      then parse_url location else parse_url (''http://'' @ location))"

definition handle_redirect :: "request \<Rightarrow> string \<Rightarrow> string \<Rightarrow> (request \<times> string) option" where
  "handle_redirect req location prev_host =
     (let redir_loc = redirect_url location in
      if host redir_loc = prev_host \<and> path redir_loc = rq_uri req then None
      else Some (get_proxy_request req redir_loc, host redir_loc))"

partial_function (option) send_request ::
  "env \<Rightarrow> upstream \<Rightarrow> reverse_proxy_request_handler \<Rightarrow> request \<Rightarrow> string \<Rightarrow> world \<Rightarrow>
   (response \<times> world) result option" where
  "send_request e up px req host_name w =
     (case exchange e up px req host_name w of
        Inl err \<Rightarrow> Some (Inl err)
      | Inr (Answer res, w') \<Rightarrow> Some (Inr (res, w'))
      | Inr (Redirect location, w') \<Rightarrow>
          (case handle_redirect req location host_name of
             None \<Rightarrow> Some (Inr (throw_400_error e, w'\<lparr>w_log := log_error_file
               (''Infinite redirection to: '' @ host_name @ ''/'' @ rq_uri req) (w_log w')\<rparr>))
           | Some (new_req, new_host) \<Rightarrow> send_request e up px new_req new_host w'))"

section \<open>Handling a request\<close>

definition proxy_handle_request ::
  "env \<Rightarrow> upstream \<Rightarrow> reverse_proxy_request_handler \<Rightarrow> world \<Rightarrow> request \<Rightarrow> (response \<times> world) result option" where
  "proxy_handle_request e up px w req =
     (if px_host px = [] \<or> px_path px = [] then
        Some (Inr (throw_400_error e,
          w\<lparr>w_log := log_error_file (''Destination: '' @ px_dest px @ '' is malformed'') (w_log w)\<rparr>))
      else
        (case with_slash (rq_uri req) of
           Inl err \<Rightarrow> Some (Inl err)
         | Inr uri \<Rightarrow>
             (case str_find (px_prefix px) uri of
                None \<Rightarrow>
                  Some (Inr (get_response (make_404_error e new_builder),
                    w\<lparr>w_log := log_error_file (''Proxy handler received uri: '' @ uri @
                       '' but this handler is for path: '' @ px_prefix px) (w_log w)\<rparr>))
              | Some index \<Rightarrow>
                  (case substr_from uri (size_minus (index + length (px_prefix px)) 1) of
                     Inl err \<Rightarrow> Some (Inl err)
                   | Inr new_uri \<Rightarrow>
                       let loc = \<lparr>host = px_host px,
                                  path = (if new_uri \<noteq> ''/'' then butlast new_uri else new_uri), query = []\<rparr>
                       in send_request e up px (get_proxy_request req loc) (px_host px) w))))"

end
