(* ===== verification/Proxy_Correct.thy ===== *)
theory Proxy_Correct
  imports Reverse_Proxy
begin

text \<open>
  Correctness of the reverse proxy: a well-formed reply is relayed whatever segments it arrives
  in, the proxy meets the handler contract when the upstream server speaks HTTP, URLs are taken
  apart as written, forwarded requests without a body are read back by an HTTP parser, requests
  with a body are not, and a redirect cycle is followed for ever.
\<close>

section \<open>Reading segments\<close>

lemma read_until_concat:
  "read_until d buf segs = (buf', segs') \<Longrightarrow> buf' @ concat segs' = buf @ concat segs"
  by (induction d buf segs rule: read_until.induct) (auto split: if_splits)

lemma read_until_stop:
  "read_until d buf segs = (buf', segs') \<Longrightarrow> sublist d buf' \<or> segs' = []"
  by (induction d buf segs rule: read_until.induct) (auto split: if_splits)

text \<open>The buffer reaches at least to the end of the first delimiter.\<close>

lemma read_until_reaches:
  assumes "read_until d buf segs = (buf', segs')" "buf @ concat segs = front @ d' @ rest"
    and "suffix d' d" and first: "\<And>i. prefix d (drop i (front @ d' @ rest)) \<Longrightarrow> length front + length d' \<le> i + length d"
  shows "\<exists>after. buf' = front @ d' @ after \<and> after @ concat segs' = rest"
proof -
  have all: "buf' @ concat segs' = front @ d' @ rest"
    using read_until_concat[OF assms(1)] assms(2) by simp
  have "length (front @ d') \<le> length buf'"
  proof (cases "segs' = []")
    case True
    with all show ?thesis by simp
  next
    case False
    with read_until_stop[OF assms(1)] have "sublist d buf'" by simp
    then obtain xs ys where b: "buf' = xs @ d @ ys" by (auto simp: sublist_def)
    with all have "prefix d (drop (length xs) (front @ d' @ rest))"
      by (simp flip: all)
    from first[OF this] b show ?thesis by simp
  qed
  then obtain after where "buf' = (front @ d') @ after"
    using all by (metis append_assoc append_eq_append_conv_if append_take_drop_id)
  with all show ?thesis by auto
qed

section \<open>The shape of a reply\<close>

definition print_headers :: "(string, string) entries \<Rightarrow> string" where
  "print_headers hs = concat (map (\<lambda>h. fst h @ '': '' @ snd h @ CRLF) hs)"

definition reply_bytes :: "string \<Rightarrow> nat \<Rightarrow> string \<Rightarrow> (string, string) entries \<Rightarrow> string \<Rightarrow> string" where
  "reply_bytes version code reason hs body =
     (version @ '' '' @ to_string code @ '' '' @ reason) @ CRLF @ print_headers hs @ CRLF @ body"

text \<open>A status line and headers as RFC 7230 has them.\<close>

definition reply_head_ok :: "string \<Rightarrow> nat \<Rightarrow> string \<Rightarrow> (string, string) entries \<Rightarrow> bool" where
  "reply_head_ok version code reason hs \<longleftrightarrow> prefix ''HTTP/'' version \<and> list_all (\<lambda>c. \<not> is_space c) version \<and>
     code < 1000 \<and> clean_text reason \<and> list_all clean_header hs"

lemma clean_text_no_CR: "clean_text s \<Longrightarrow> i < length s \<Longrightarrow> s ! i \<noteq> CR \<and> s ! i \<noteq> LF"
  by (auto simp: clean_text_def list_all_length)

lemma no_delim_inside:
  assumes "clean_text s" "prefix (CR # d) (drop i (s @ t))"
  shows "length s \<le> i"
proof (rule ccontr)
  assume "\<not> length s \<le> i"
  then have "drop i (s @ t) = s ! i # drop (Suc i) s @ t" by (simp add: Cons_nth_drop_Suc[symmetric])
  with assms clean_text_no_CR[OF assms(1), of i] \<open>\<not> length s \<le> i\<close> show False by auto
qed

lemma version_clean: "list_all (\<lambda>c. \<not> is_space c) v \<Longrightarrow> clean_text v"
  by (auto simp: clean_text_def is_space_def list_all_iff)

text \<open>The blank line is not found before it is there.\<close>

lemma blank_line_first:
  "list_all clean_header hs \<Longrightarrow> prefix (CRLF @ CRLF) (drop i (print_headers hs @ CRLF @ body)) \<Longrightarrow>
   length (print_headers hs) + 2 \<le> i + 4"
proof (induction hs arbitrary: i)
  case Nil
  then show ?case by (simp add: print_headers_def)
next
  case (Cons h hs)
  define l where "l = fst h @ '': '' @ snd h"
  have l: "clean_text l" using Cons.prems(1) by (simp add: l_def clean_header_def)
  have eq: "print_headers (h # hs) @ CRLF @ body = l @ CRLF @ print_headers hs @ CRLF @ body"
    and len: "length (print_headers (h # hs)) = length l + 2 + length (print_headers hs)"
    by (simp_all add: print_headers_def l_def)
  have P: "prefix [CR, LF, CR, LF] (drop i (l @ CRLF @ print_headers hs @ CRLF @ body))"
    using Cons.prems(2) unfolding eq unfolding append.simps .
  have ge: "length l \<le> i" by (rule no_delim_inside[OF l P])
  then obtain j where j: "i = length l + j" using le_Suc_ex by blast
  have p: "prefix [CR, LF, CR, LF] (drop j (CRLF @ print_headers hs @ CRLF @ body))"
    using P unfolding j by (simp only: drop_append) simp
  consider "j = 0" | "j = 1" | k where "j = k + 2"
  proof (cases j)
    case (Suc n)
    then show thesis using that by (cases n) auto
  qed
  then show ?case
  proof cases
    case 1
    have "hs = []"
    proof (rule ccontr)
      assume "hs \<noteq> []"
      then obtain g gs where "hs = g # gs" by (cases hs) auto
      with p 1 Cons.prems(1) show False
        by (cases "fst g") (auto simp: print_headers_def clean_header_def)
    qed
    with len j 1 show ?thesis by (simp add: print_headers_def)
  next
    case 2
    with p show ?thesis by simp
  next
    case 3
    with p Cons.IH[of k] Cons.prems(1) len j show ?thesis by simp
  qed
qed

section \<open>The status line\<close>

lemma dropWhile_space_id: "s \<noteq> [] \<Longrightarrow> \<not> is_space (hd s) \<Longrightarrow> dropWhile is_space s = s"
  by (cases s) auto

lemma to_string_hd: "is_dec (hd (to_string n))"
  using to_string_digits[of n] by (meson hd_in_set to_string_nonempty)

lemma extract_unsigned_code:
  assumes "n < 2 ^ 32"
  shows "extract_unsigned ('' '' @ to_string n @ '' '' @ r) = Some (n, '' '' @ r)"
proof -
  obtain c cs where s: "to_string n = c # cs" by (cases "to_string n") auto
  have c: "\<not> is_space c" "c \<noteq> CHR ''-''" "c \<noteq> CHR ''+''"
    using to_string_hd[of n] is_dec_not_space[of c] is_dec_not_sign[of c] s by auto
  have blank: "dropWhile is_space ('' '' @ to_string n @ '' '' @ r) = to_string n @ '' '' @ r"
    using c(1) by (simp add: s is_space_def)
  have tw: "takeWhile is_dec (to_string n @ '' '' @ r) = to_string n"
    using to_string_digits[of n] by (subst takeWhile_append2) (auto simp: is_dec_def)
  have sign: "(case to_string n @ '' '' @ r of
         d # t \<Rightarrow> if d = CHR ''-'' then (True, t) else if d = CHR ''+'' then (False, t)
                  else (False, to_string n @ '' '' @ r)
       | [] \<Rightarrow> (False, [])) = (False, to_string n @ '' '' @ r)"
    using c by (simp add: s)
  show ?thesis
    unfolding extract_unsigned_def blank Let_def sign prod.case tw
    using assms by (simp add: digits_val_to_string)
qed

lemma parse_status_line:
  assumes "reply_head_ok version code reason hs"
  shows "parse_status ((version @ '' '' @ to_string code @ '' '' @ reason) @ CRLF @ after) =
    Some (version, code, after, True)"
proof -
  have ns: "list_all (\<lambda>c. \<not> is_space c) version" and ne: "version \<noteq> []"
    using assms by (auto simp: reply_head_ok_def)
  define r where "r = '' '' @ to_string code @ '' '' @ reason @ CRLF @ after"
  have drop: "dropWhile is_space (version @ r) = version @ r"
    using ns ne by (cases version) auto
  have tw: "takeWhile (\<lambda>c. \<not> is_space c) (version @ r) = version"
    using ns by (subst takeWhile_append2) (auto simp: list_all_iff r_def is_space_def)
  have code: "extract_unsigned r = Some (code, '' '' @ reason @ CRLF @ after)"
    unfolding r_def using assms by (intro extract_unsigned_code) (simp add: reply_head_ok_def)
  have dl: "drop (length version) (version @ r) = r" by simp
  have line: "dropWhile (\<lambda>c. c \<noteq> LF) ('' '' @ reason @ CRLF @ after) = LF # after"
    using assms by (simp add: dropWhile_append2 dropWhile_append reply_head_ok_def clean_text_def list_all_iff)
  have s: "(version @ '' '' @ to_string code @ '' '' @ reason) @ CRLF @ after = version @ r"
    by (simp add: r_def)
  show ?thesis
    unfolding s parse_status_def drop tw Let_def dl code
    using ne line by simp
qed

section \<open>The headers\<close>

lemma value_pos_print: "CHR '':'' \<notin> set k \<Longrightarrow> value_pos (k @ '': '' @ v) = length k + 2"
  by (simp add: value_pos_def str_find_skip)

fun copied :: "(string, string) entries \<Rightarrow> response_builder \<Rightarrow> response_builder" where
  "copied [] b = b"
| "copied (h # hs) b =
     copied hs (if fst h = ''Transfer-Encoding'' then b else add_header (fst h) (snd h) b)"

lemma copy_headers_print:
  "list_all clean_header hs \<Longrightarrow> copy_headers (print_headers hs @ CRLF @ after) b = Inr (after, copied hs b)"
proof (induction hs arbitrary: b)
  case Nil
  then show ?case by (subst copy_headers.simps) (simp add: print_headers_def)
next
  case (Cons h hs)
  let ?h = "fst h @ '': '' @ snd h"
  let ?rest = "print_headers hs @ CRLF @ after"
  have clean: "clean_text ?h" and k: "CHR '':'' \<notin> set (fst h)" "fst h \<noteq> []"
    using Cons.prems by (simp_all add: clean_header_def)
  have eq: "print_headers (h # hs) @ CRLF @ after = (?h @ [CR]) @ LF # ?rest"
    by (simp add: print_headers_def)
  have tw: "takeWhile (\<lambda>c. c \<noteq> LF) ((?h @ [CR]) @ LF # ?rest) = ?h @ [CR]"
    using clean by (subst takeWhile_append2) (auto simp: clean_text_def list_all_iff)
  have tok: "takeWhile (\<lambda>c. c \<noteq> CHR '':'') ?h = fst h"
    using k by (subst takeWhile_append2) auto
  have v: "substr_from ?h (value_pos ?h) = Inr (snd h)"
    unfolding value_pos_print[OF k(1)] by (simp add: substr_from_def)
  have drop_line: "drop (Suc (length a)) (a @ x # r) = r" for a r :: string and x by simp
  have rest: "drop (Suc (length (?h @ [CR]))) ((?h @ [CR]) @ LF # ?rest) = ?rest" by (rule drop_line)
  have bl: "butlast (?h @ [CR]) = ?h" by (simp add: butlast_append)
  have ne: "(?h @ [CR]) @ LF # ?rest \<noteq> []" "?h @ [CR] \<noteq> []" "?h @ [CR] \<noteq> [CR]" using k by simp_all
  show ?case
    unfolding eq copy_headers.simps[of "(?h @ [CR]) @ LF # ?rest"] Let_def tw rest bl tok v
    using ne Cons.prems Cons.IH by (simp only: if_False and_then_simps copied.simps list.pred_inject if_cancel) auto
qed

lemma builder_ok_copied: "list_all clean_header hs \<Longrightarrow> builder_ok b \<Longrightarrow> builder_ok (copied hs b)"
  by (induction hs arbitrary: b) (simp_all add: builder_ok_intros(4))

lemma copied_fields [simp]:
  "rs_code (rb_response (copied hs b)) = rs_code (rb_response b)"
  by (induction hs arbitrary: b) auto

section \<open>Relaying\<close>

definition relayed ::
  "env \<Rightarrow> upstream \<Rightarrow> string \<Rightarrow> (string, string) entries \<Rightarrow> string \<Rightarrow> response" where
  "relayed e up pfx hs body =
     (let body' = rewrite_links up pfx body in
      get_response (make_date_servername_headers e (add_body body'
        (add_header ''Content-Length'' (to_string (length body')) (copied hs (set_code OK new_builder))))))"

lemma wf_relayed: "env_ok e \<Longrightarrow> list_all clean_header hs \<Longrightarrow> wf_response (relayed e up pfx hs body)"
  unfolding relayed_def Let_def
  by (rule wf_get_response) (auto intro!: builder_ok_copied)

lemma status_line_read:
  assumes "reply_head_ok version code reason hs" "concat segs = reply_bytes version code reason hs body"
    and "read_until CRLF [] segs = (buf, segs')"
  shows "\<exists>after. buf = (version @ '' '' @ to_string code @ '' '' @ reason) @ CRLF @ after \<and>
    after @ concat segs' = print_headers hs @ CRLF @ body"
proof -
  let ?line = "version @ '' '' @ to_string code @ '' '' @ reason"
  have clean: "clean_text ?line"
    using assms(1) by (simp add: reply_head_ok_def version_clean)
  have "\<exists>after. buf = ?line @ CRLF @ after \<and> after @ concat segs' = print_headers hs @ CRLF @ body"
  proof (rule read_until_reaches[OF assms(3)])
    show "[] @ concat segs = ?line @ CRLF @ print_headers hs @ CRLF @ body"
      using assms(2) by (simp add: reply_bytes_def)
    show "length ?line + length CRLF \<le> i + length CRLF"
      if "prefix CRLF (drop i (?line @ CRLF @ print_headers hs @ CRLF @ body))" for i
      using no_delim_inside[OF clean that] by simp
  qed simp
  then show ?thesis by simp
qed

lemma relay_reply:
  assumes "list_all clean_header hs" "buf @ concat segs = print_headers hs @ CRLF @ body"
  shows "relay e up pfx buf True segs True = Inr (relayed e up pfx hs body)"
proof -
  obtain buf' segs' where r: "read_until (CRLF @ CRLF) buf segs = (buf', segs')" by fastforce
  have "\<exists>after. buf' = print_headers hs @ CRLF @ after \<and> after @ concat segs' = body"
  proof (rule read_until_reaches[OF r])
    show "buf @ concat segs = print_headers hs @ CRLF @ body" by (rule assms(2))
    show "suffix CRLF (CRLF @ CRLF)" by (simp add: suffix_def)
    show "length (print_headers hs) + length CRLF \<le> i + length (CRLF @ CRLF)"
      if "prefix (CRLF @ CRLF) (drop i (print_headers hs @ CRLF @ body))" for i
      using blank_line_first[OF assms(1) that] by simp
  qed
  then obtain after where "buf' = print_headers hs @ CRLF @ after" "body = after @ concat segs'" by blast
  with copy_headers_print[OF assms(1)] show ?thesis
    unfolding relay_def r by (simp add: relayed_def Let_def)
qed

lemma request_to_string_defined: "rq_method req \<noteq> INVALID \<Longrightarrow> \<exists>b. request_to_string req = Inr b"
  by (simp add: request_to_string_def)

text \<open>What is left of an exchange when a reply of the right shape has arrived.\<close>

lemma exchange_reply:
  assumes "reply_head_ok version code reason hs" "request_to_string req = Inr bytes"
    and "up_net up (w_sent w) host_name (px_port px) bytes = Connected segs at_eof"
    and "concat segs = reply_bytes version code reason hs body"
  obtains rest segs' where "rest @ concat segs' = print_headers hs @ CRLF @ body"
    "read_until CRLF [] segs = ((version @ '' '' @ to_string code @ '' '' @ reason) @ CRLF @ rest, segs')"
    "exchange e up px req host_name w =
      answer_status e up px code rest True segs' at_eof (w\<lparr>w_sent := Suc (w_sent w)\<rparr>)"
proof -
  obtain buf segs' where r: "read_until CRLF [] segs = (buf, segs')" by fastforce
  from status_line_read[OF assms(1,4) r] obtain rest
    where buf: "buf = (version @ '' '' @ to_string code @ '' '' @ reason) @ CRLF @ rest"
      and all: "rest @ concat segs' = print_headers hs @ CRLF @ body" by blast
  have v: "take 5 version = ''HTTP/''" using assms(1) by (auto simp: reply_head_ok_def prefix_def)
  have st: "parse_status buf = Some (version, code, rest, True)"
    unfolding buf by (rule parse_status_line[OF assms(1)])
  show thesis
    by (rule that[OF all r[unfolded buf]])
      (simp only: exchange_def assms(2,3) and_then_simps Let_def net_outcome.case r prod.case st
        option.case v not_True_eq_False simp_thms if_True if_False)
qed

lemma exchange_200:
  assumes "reply_head_ok version 200 reason hs" "request_to_string req = Inr bytes"
    and "up_net up (w_sent w) host_name (px_port px) bytes = Connected segs True"
    and "concat segs = reply_bytes version 200 reason hs body"
  shows "exchange e up px req host_name w =
    Inr (Answer (relayed e up (px_prefix px) hs body), w\<lparr>w_sent := Suc (w_sent w)\<rparr>)"
proof -
  have clean: "list_all clean_header hs" using assms(1) by (simp add: reply_head_ok_def)
  obtain rest segs' where all: "rest @ concat segs' = print_headers hs @ CRLF @ body"
    and ex: "exchange e up px req host_name w =
      and_then (relay e up (px_prefix px) rest True segs' True) (\<lambda>res. Inr (Answer res, w\<lparr>w_sent := Suc (w_sent w)\<rparr>))"
    by (rule exchange_reply[OF assms, of e]) (simp add: answer_status_def)
  show ?thesis unfolding ex relay_reply[OF clean all] by simp
qed

section \<open>The contract\<close>

text \<open>An upstream side on which everything that answers speaks HTTP.\<close>

definition net_ok :: "upstream \<Rightarrow> bool" where
  "net_ok up \<longleftrightarrow> (\<forall>n h p b segs at_eof. up_net up n h p b = Connected segs at_eof \<longrightarrow>
     (\<exists>version code reason hs body. reply_head_ok version code reason hs \<and>
        concat segs = reply_bytes version code reason hs body))"

lemma wf_throw_400 [simp]: "env_ok e \<Longrightarrow> wf_response (throw_400_error e)"
  unfolding throw_400_error_def by (rule wf_400)

lemma wf_404_date:
  "env_ok e \<Longrightarrow> wf_response (get_response (make_date_servername_headers e (make_404_error e new_builder)))"
  by (rule wf_get_response) auto

lemma wf_log_400: "log_400 e m w = Inr (Answer res, w') \<Longrightarrow> env_ok e \<Longrightarrow> wf_response res"
  by (auto simp: log_400_def)

lemma exchange_wf:
  assumes "net_ok up" "env_ok e" "exchange e up px req h w = Inr (Answer res, w')"
  shows "wf_response res"
proof -
  let ?w = "w\<lparr>w_sent := Suc (w_sent w)\<rparr>"
  obtain bytes where b: "request_to_string req = Inr bytes" using assms(3) by (auto simp: exchange_def)
  show ?thesis
  proof (cases "up_net up (w_sent w) h (px_port px) bytes")
    case (Connected segs at_eof)
    obtain version code reason hs body where ok: "reply_head_ok version code reason hs"
      and bytes: "concat segs = reply_bytes version code reason hs body"
      using assms(1) Connected unfolding net_ok_def by blast
    have clean: "list_all clean_header hs" using ok by (simp add: reply_head_ok_def)
    have no_eof: "relay e up pfx rest True segs' False = Inr x \<Longrightarrow> False" for pfx rest segs' x
      by (auto simp: relay_def Let_def split: prod.splits)
    show ?thesis
    proof (rule exchange_reply[OF ok b Connected bytes, of e])
      fix rest segs' assume all: "rest @ concat segs' = print_headers hs @ CRLF @ body"
      have relayed: "relay e up (px_prefix px) rest True segs' at_eof = Inr res \<Longrightarrow> wf_response res"
        using relay_reply[OF clean all, of e up "px_prefix px"] wf_relayed[OF assms(2) clean] no_eof
        by (cases at_eof) (auto dest: no_eof)
      assume ex: "exchange e up px req h w = answer_status e up px code rest True segs' at_eof ?w"
      from assms(3) show ?thesis
        unfolding ex answer_status_def
        by (auto simp: wf_404_date[OF assms(2)] dest: relayed wf_log_400[OF _ assms(2)]
            split: if_split_asm option.split_asm)
    qed
  qed (use assms(2,3) b wf_log_400[of e _ ?w res w'] in \<open>auto simp: exchange_def\<close>)
qed

lemma send_request_wf:
  assumes "net_ok up" "env_ok e" "send_request e up px req h w = Some x"
  shows "\<forall>res w'. x = Inr (res, w') \<longrightarrow> wf_response res"
proof -
  have "net_ok up \<longrightarrow> env_ok e \<longrightarrow> (\<forall>res w'. x = Inr (res, w') \<longrightarrow> wf_response res)"
  proof (rule send_request.raw_induct[OF _ assms(3)], goal_cases)
    case (1 f e up px req h w x)
    then show ?case
      by (auto split: sum.split_asm prod.split_asm reply.split_asm option.split_asm dest: exchange_wf)
  qed
  with assms show ?thesis by simp
qed

text \<open>The proxy as a handler: its state is the upstream side, the proxy itself and the world.\<close>

type_synonym proxy_state = "upstream \<times> reverse_proxy_request_handler \<times> world"

definition proxy_step :: "env \<Rightarrow> proxy_state \<Rightarrow> request \<Rightarrow> (response \<times> proxy_state) result option" where
  "proxy_step e s req =
     (case s of (up, px, w) \<Rightarrow>
        map_option (\<lambda>r. and_then r (\<lambda>(res, w'). Inr (res, (up, px, w')))) (proxy_handle_request e up px w req))"

interpretation proxy: http_handler proxy_step "\<lambda>s. net_ok (fst s)"
proof unfold_locales
  fix e :: env and s req res s'
  assume e: "env_ok e" and net: "net_ok (fst s)" and h: "proxy_step e s req = Some (Inr (res, s'))"
  obtain up px w where s: "s = (up, px, w)" by (cases s)
  obtain w' where w': "proxy_handle_request e up px w req = Some (Inr (res, w'))" "s' = (up, px, w')"
    using h by (auto simp: proxy_step_def s)
  have "wf_response res"
    using w'(1) send_request_wf[OF _ e, of up px _ _ w] net s wf_404[of e] wf_throw_400[OF e]
    by (auto simp: proxy_handle_request_def Let_def split: if_split_asm sum.split_asm option.split_asm)
  with w' net s show "wf_response res \<and> net_ok (fst s')" by simp
qed

section \<open>URLs\<close>

lemma parse_url_parts:
  assumes "CHR '':'' \<notin> set proto" "CHR ''/'' \<notin> set h" "p = [] \<or> hd p = CHR ''/''" "CHR ''?'' \<notin> set p"
    and "p = [] \<longrightarrow> q = []" "q = [] \<or> hd q = CHR ''?''"
  shows "parse_url (proto @ ''://'' @ h @ p @ q) = \<lparr>host = map tolower h, path = p, query = tl q\<rparr>"
proof -
  have f: "str_find ''://'' (proto @ ''://'' @ h @ p @ q) = Some (length proto)"
    using assms(1) by (simp add: str_find_skip)
  have d: "drop (length proto + 3) (proto @ ''://'' @ h @ p @ q) = h @ p @ q" by simp
  have head: "p @ q = [] \<or> hd (p @ q) = CHR ''/''" using assms(3,5) by auto
  have tw: "takeWhile (\<lambda>c. c \<noteq> CHR ''/'') (h @ p @ q) = h"
    using assms(2) head by (subst takeWhile_append2) (auto simp: takeWhile_eq_Nil_iff)
  have dw: "dropWhile (\<lambda>c. c \<noteq> CHR ''/'') (h @ p @ q) = p @ q"
    using assms(2) head by (subst dropWhile_append2) (auto simp: dropWhile_eq_self_iff)
  have tq: "takeWhile (\<lambda>c. c \<noteq> CHR ''?'') (p @ q) = p"
    using assms(4,6) by (subst takeWhile_append2) (auto simp: takeWhile_eq_Nil_iff)
  have dq: "dropWhile (\<lambda>c. c \<noteq> CHR ''?'') (p @ q) = q"
    using assms(4,6) by (subst dropWhile_append2) (auto simp: dropWhile_eq_self_iff)
  show ?thesis
    unfolding parse_url_def f option.case Let_def d tw dw tq dq by (cases q) auto
qed

lemma redirect_url_http:
  assumes "CHR ''/'' \<notin> set h" "p = [] \<or> hd p = CHR ''/''" "CHR ''?'' \<notin> set p"
    and "p = [] \<longrightarrow> q = []" "q = [] \<or> hd q = CHR ''?''"
  shows "redirect_url (''http://'' @ h @ p @ q) = \<lparr>host = map tolower h, path = p, query = tl q\<rparr>"
proof -
  have "str_find ''http://'' (''http://'' @ h @ p @ q) = Some 0" by simp
  with parse_url_parts[of "''http''", OF _ assms] show ?thesis by (simp add: redirect_url_def)
qed

section \<open>Redirects\<close>

definition redirect_reply :: "string \<Rightarrow> string" where
  "redirect_reply location = reply_bytes ''HTTP/1.1'' 302 ''Found'' [(''Location'', location)] []"

lemma reply_head_redirect: "clean_text location \<Longrightarrow> reply_head_ok ''HTTP/1.1'' 302 ''Found'' [(''Location'', location)]"
  by (simp add: reply_head_ok_def is_space_def clean_header_def)

lemma find_location_print:
  assumes "clean_text location"
  shows "find_location (print_headers [(''Location'', location)] @ r) = Inr (Some location)"
proof -
  let ?h = "''Location'' @ '': '' @ location"
  have eq: "print_headers [(''Location'', location)] @ r = (?h @ [CR]) @ LF # r"
    by (simp add: print_headers_def)
  have tw: "takeWhile (\<lambda>c. c \<noteq> LF) ((?h @ [CR]) @ LF # r) = ?h @ [CR]"
    using assms by (subst takeWhile_append2) (auto simp: clean_text_def list_all_iff)
  have bl: "butlast (?h @ [CR]) = ?h" by (simp add: butlast_append)
  have v: "substr_from ?h (value_pos ?h) = Inr location"
    unfolding value_pos_print[of "''Location''", simplified] by (simp add: substr_from_def value_pos_def)
  have f: "str_find ''Location'' (?h @ [CR]) \<noteq> None" "?h @ [CR] \<noteq> [CR]" "(?h @ [CR]) @ LF # r \<noteq> []" by simp_all
  show ?thesis
    unfolding eq find_location.simps[of "(?h @ [CR]) @ LF # r"] Let_def tw bl v using f by (simp only: if_False if_True and_then_simps simp_thms)
qed

text \<open>An exchange with a server that answers with a redirect in one segment.\<close>

lemma exchange_redirect:
  assumes "clean_text location" "rq_method req \<noteq> INVALID"
    and "\<And>bytes. up_net up (w_sent w) host_name (px_port px) bytes = Connected [redirect_reply location] at_eof"
  shows "exchange e up px req host_name w = Inr (Redirect location, w\<lparr>w_sent := Suc (w_sent w)\<rparr>)"
proof -
  obtain bytes where b: "request_to_string req = Inr bytes" using request_to_string_defined[OF assms(2)] by blast
  obtain rest segs' where r: "read_until CRLF [] [redirect_reply location] =
      ((''HTTP/1.1'' @ '' '' @ to_string 302 @ '' '' @ ''Found'') @ CRLF @ rest, segs')"
    and all: "rest @ concat segs' = print_headers [(''Location'', location)] @ CRLF @ []"
    and ex: "exchange e up px req host_name w =
      answer_status e up px 302 rest True segs' at_eof (w\<lparr>w_sent := Suc (w_sent w)\<rparr>)"
    by (rule exchange_reply[OF reply_head_redirect[OF assms(1)] b assms(3)]) (auto simp: redirect_reply_def)
  have "segs' = []" using r by (auto simp: sublist_code split: if_split_asm)
  with all have rest: "rest = print_headers [(''Location'', location)] @ CRLF" by simp
  show ?thesis
    unfolding ex answer_status_def rest by (simp add: find_location_print[OF assms(1)])
qed

section \<open>The forwarded request\<close>

lemma last_length_other: "''Content-Length'' \<notin> fst ` set m \<Longrightarrow> last_length n m = Inr n"
  by (induction n m rule: last_length.induct) auto

lemma last_length_map:
  "map_ok m \<Longrightarrow> last_length 0 m = (case map_find m ''Content-Length'' of None \<Rightarrow> Inr 0 | Some v \<Rightarrow> stoi v)"
proof (induction m)
  case (Cons h m)
  obtain k v where h: "h = (k, v)" by (cases h)
  show ?case
  proof (cases "k = ''Content-Length''")
    case True
    then have "''Content-Length'' \<notin> fst ` set m" using Cons.prems h by force
    with True h show ?thesis by (cases "stoi v") (simp_all add: last_length_other)
  next
    case False
    with Cons h show ?thesis by simp
  qed
qed simp

lemma list_all_erase: "list_all P m \<Longrightarrow> list_all P (map_erase k m)"
  by (simp add: map_erase_def list_all_iff)

lemma header_ok_proxy:
  "header_ok (''Host'', h) \<longleftrightarrow> list_all text_char h" "header_ok (''Accept-Encoding'', ''*/*'')"
proof -
  have "list_all token_char ''Host''" by code_simp
  then show "header_ok (''Host'', h) \<longleftrightarrow> list_all text_char h" by (simp add: header_ok_def)
  show "header_ok (''Accept-Encoding'', ''*/*'')" by code_simp
qed

lemma get_proxy_request_ok:
  assumes "request_ok req" "list_all uri_char (path dest @ query dest)" "list_all text_char (host dest)"
  shows "request_ok (get_proxy_request req dest)"
proof -
  have h: "map_ok (rq_headers req)" "list_all header_ok (rq_headers req)" using assms(1) by (simp_all add: request_ok_def)
  have "version_ok ''HTTP/1.0''"
    unfolding version_ok_def by (rule exI[of _ "''1''"], rule exI[of _ "''0''"]) (simp add: digit_byte_def is_digit_def schar_def)
  moreover have "list_all header_ok (rq_headers (get_proxy_request req dest))"
    using h assms(3) unfolding get_proxy_request_def request.simps
    by (intro list_all_assign list_all_erase) (auto simp: header_ok_proxy)
  ultimately show ?thesis
    using assms(2) h(1) by (auto simp: request_ok_def get_proxy_request_def)
qed

lemma get_proxy_request_length:
  "map_ok (rq_headers req) \<Longrightarrow> last_length 0 (rq_headers (get_proxy_request req dest)) = last_length 0 (rq_headers req)"
  by (subst (1 2) last_length_map) (auto simp: get_proxy_request_def)

lemma request_to_string_wire:
  assumes "rq_method r \<noteq> INVALID" "rq_body r = []"
  shows "request_to_string r =
    Inr (wire (method_name (rq_method r)) (rq_uri r) (rq_version r) (rq_headers r) [] @ CRLF)"
  using assms by (simp add: request_to_string_def wire_def print_header_def[abs_def])

lemma handle_redirect_other_host:
  assumes "CHR ''/'' \<notin> set h" "p = [] \<or> hd p = CHR ''/''" "CHR ''?'' \<notin> set p" "map tolower h = h" "h \<noteq> h0"
  shows "handle_redirect req (''http://'' @ h @ p) h0 =
    Some (get_proxy_request req \<lparr>host = h, path = p, query = []\<rparr>, h)"
  using redirect_url_http[OF assms(1-3), of "[]"] assms(4,5) by (simp add: handle_redirect_def)

definition plain_location :: "string \<Rightarrow> string \<Rightarrow> bool" where
  "plain_location h p \<longleftrightarrow> CHR ''/'' \<notin> set h \<and> (p = [] \<or> hd p = CHR ''/'') \<and> CHR ''?'' \<notin> set p \<and>
     map tolower h = h \<and> clean_text h \<and> clean_text p"

lemma send_request_cycle:
  assumes "plain_location h1 p1" "plain_location h2 p2" "h1 \<noteq> h2"
    and "\<And>n bytes. up_net up n h1 (px_port px) bytes = Connected [redirect_reply (''http://'' @ h2 @ p2)] True"
    and "\<And>n bytes. up_net up n h2 (px_port px) bytes = Connected [redirect_reply (''http://'' @ h1 @ p1)] True"
    and "send_request e up px req h w = Some x"
  shows "\<not> (rq_method req \<noteq> INVALID \<and> h \<in> {h1, h2})"
proof -
  have step: "\<exists>h' p'. exchange e up px req h w = Inr (Redirect (''http://'' @ h' @ p'), w\<lparr>w_sent := Suc (w_sent w)\<rparr>) \<and>
      h' \<in> {h1, h2} \<and> handle_redirect req (''http://'' @ h' @ p') h =
        Some (get_proxy_request req \<lparr>host = h', path = p', query = []\<rparr>, h')"
    if m: "rq_method req \<noteq> INVALID" and h: "h \<in> {h1, h2}" for e req h w
  proof -
    have clean: "clean_text (''http://'' @ h1 @ p1)" "clean_text (''http://'' @ h2 @ p2)"
      using assms(1,2) by (simp_all add: plain_location_def)
    show ?thesis
    proof (cases "h = h1")
      case True
      from exchange_redirect[where w = w and host_name = h1, OF clean(2) m assms(4)]
        handle_redirect_other_host[of h2 p2 h1 req] assms(2,3) True show ?thesis
        by (intro exI[of _ h2] exI[of _ p2]) (simp add: plain_location_def)
    next
      case False
      with h have h: "h = h2" by simp
      from exchange_redirect[where w = w and host_name = h2, OF clean(1) m assms(5)]
        handle_redirect_other_host[of h1 p1 h2 req] assms(1,3) h show ?thesis
        by (intro exI[of _ h1] exI[of _ p1]) (simp add: plain_location_def)
    qed
  qed
  have "up = up \<longrightarrow> px = px \<longrightarrow> \<not> (rq_method req \<noteq> INVALID \<and> h \<in> {h1, h2})"
  proof (rule send_request.raw_induct[OF _ assms(6), where P = "\<lambda>e' up' px' req' h' w' x'.
      up' = up \<longrightarrow> px' = px \<longrightarrow> \<not> (rq_method req' \<noteq> INVALID \<and> h' \<in> {h1, h2})"], intro impI notI, goal_cases)
    case (1 f e' up' px' req' h' w' x')
    from step[of req' h' e' w'] 1(5) obtain h'' p'' where
      ex: "exchange e' up px req' h' w' = Inr (Redirect (''http://'' @ h'' @ p''), w'\<lparr>w_sent := Suc (w_sent w')\<rparr>)"
      "h'' \<in> {h1, h2}" "handle_redirect req' (''http://'' @ h'' @ p'') h' =
        Some (get_proxy_request req' \<lparr>host = h'', path = p'', query = []\<rparr>, h'')" by blast
    have "f e' up px (get_proxy_request req' \<lparr>host = h'', path = p'', query = []\<rparr>) h'' (w'\<lparr>w_sent := Suc (w_sent w')\<rparr>) = Some x'"
      using 1(2) unfolding 1(3,4) ex(1) sum.case prod.case reply.case ex(3) option.case .
    from 1(1)[OF this] 1(5) ex(2) show False by (simp add: get_proxy_request_def)
  qed
  then show ?thesis by simp
qed

section \<open>Answering\<close>

text \<open>What construction guarantees.\<close>

definition proxy_inv :: "reverse_proxy_request_handler \<Rightarrow> bool" where
  "proxy_inv px \<longleftrightarrow> suffix ''/'' (px_prefix px)"

lemma proxy_init_inv:
  assumes "proxy_init uri conf = Inr (Some px)" "int (length uri) \<le> INT_MAX"
  shows "proxy_inv px"
  using assms with_slash_suffix[of uri "px_prefix px"]
  by (auto simp: proxy_init_def new_reverse_proxy_request_handler_def proxy_inv_def Let_def split: if_split_asm)

text \<open>An upstream side that answers completely and without redirects.\<close>

definition direct_net :: "upstream \<Rightarrow> bool" where
  "direct_net up \<longleftrightarrow> (\<forall>n h p b segs at_eof. up_net up n h p b = Connected segs at_eof \<longrightarrow> at_eof \<and>
     (\<exists>version code reason hs body. reply_head_ok version code reason hs \<and> code \<noteq> 301 \<and> code \<noteq> 302 \<and>
        concat segs = reply_bytes version code reason hs body))"

lemma exchange_answers:
  assumes "direct_net up" "rq_method req \<noteq> INVALID"
  shows "\<exists>res w'. exchange e up px req h w = Inr (Answer res, w')"
proof -
  obtain bytes where b: "request_to_string req = Inr bytes" using request_to_string_defined[OF assms(2)] by blast
  show ?thesis
  proof (cases "up_net up (w_sent w) h (px_port px) bytes")
    case (Connected segs at_eof)
    obtain version code reason hs body where ok: "reply_head_ok version code reason hs" "code \<noteq> 301" "code \<noteq> 302"
      and bytes: "concat segs = reply_bytes version code reason hs body" and eof: "at_eof"
      using assms(1) Connected unfolding direct_net_def by blast
    have clean: "list_all clean_header hs" using ok(1) by (simp add: reply_head_ok_def)
    show ?thesis
    proof (rule exchange_reply[OF ok(1) b Connected bytes, of e])
      fix rest segs'
      assume all: "rest @ concat segs' = print_headers hs @ CRLF @ body"
        and ex: "exchange e up px req h w = answer_status e up px code rest True segs' at_eof (w\<lparr>w_sent := Suc (w_sent w)\<rparr>)"
      show ?thesis
        unfolding ex answer_status_def using ok(2,3) eof relay_reply[OF clean all, of e up "px_prefix px"]
        by (simp add: log_400_def)
    qed
  qed (simp_all add: exchange_def b log_400_def)
qed

lemma send_request_answers:
  assumes "direct_net up" "rq_method req \<noteq> INVALID"
  shows "\<exists>res w'. send_request e up px req h w = Some (Inr (res, w'))"
  using exchange_answers[OF assms, of e px h w] by (subst send_request.simps) auto

lemma with_slash_defined:
  assumes "s \<noteq> []" "int (length s) \<le> INT_MAX"
  shows "with_slash s = Inr s \<or> with_slash s = Inr (s @ ''/'')"
proof -
  have "size_of_int (int (length s) - 1) \<le> length s"
    using assms by (cases s) (auto simp: size_of_int_nonneg INT_MAX_def)
  then show ?thesis
    using assms(2) by (auto simp: with_slash_def int_of_size_small compare_eq_def INT_MIN_def)
qed

lemma proxy_total:
  assumes "direct_net up" "proxy_inv px" "env_ok e" "rq_method req \<noteq> INVALID" "rq_uri req \<noteq> []"
    and "int (length (rq_uri req)) < INT_MAX"
  shows "\<exists>res w'. proxy_handle_request e up px w req = Some (Inr (res, w')) \<and> wf_response res"
proof -
  obtain uri where uri: "with_slash (rq_uri req) = Inr uri" "int (length uri) \<le> INT_MAX"
    using with_slash_defined[OF assms(5)] assms(6) by fastforce
  have net: "net_ok up" using assms(1) unfolding direct_net_def net_ok_def by blast
  have "\<exists>res w'. proxy_handle_request e up px w req = Some (Inr (res, w'))"
  proof (cases "str_find (px_prefix px) uri")
    case (Some i)
    have ne: "px_prefix px \<noteq> []" using assms(2) by (auto simp: proxy_inv_def)
    then have len: "0 < length (px_prefix px)" "i + length (px_prefix px) \<le> length uri"
      using str_find_Some[OF Some] by simp_all
    have small: "i + length (px_prefix px) < 2 ^ 64" using len(2) uri(2) by (simp add: INT_MAX_def)
    have "1 \<le> i + length (px_prefix px)" using len(1) by linarith
    then have "size_minus (i + length (px_prefix px)) 1 = i + length (px_prefix px) - 1"
      by (rule size_minus_le[OF _ small])
    then have "substr_from uri (size_minus (i + length (px_prefix px)) 1) =
        Inr (drop (i + length (px_prefix px) - 1) uri)"
      using len(2) by (simp add: substr_from_def)
    moreover have "rq_method (get_proxy_request req loc) \<noteq> INVALID" for loc
      using assms(4) by (simp add: get_proxy_request_def)
    then have "\<exists>res w'. send_request e up px (get_proxy_request req loc) (px_host px) w = Some (Inr (res, w'))" for loc
      by (rule send_request_answers[OF assms(1)])
    ultimately show ?thesis using Some uri(1) by (simp add: proxy_handle_request_def Let_def)
  qed (simp add: proxy_handle_request_def uri(1))
  then obtain res w' where r: "proxy_handle_request e up px w req = Some (Inr (res, w'))" by blast
  then have "proxy_step e (up, px, w) req = Some (Inr (res, (up, px, w')))" by (simp add: proxy_step_def)
  from proxy.handle_wf[OF assms(3) _ this] net r show ?thesis by auto
qed

interpretation proxy_direct: total_handler proxy_step "\<lambda>(up, px, w :: world). net_ok up \<and> proxy_inv px"
  "\<lambda>_ s req. direct_net (fst s) \<and> rq_method req \<noteq> INVALID \<and> rq_uri req \<noteq> [] \<and> int (length (rq_uri req)) < INT_MAX"
proof unfold_locales
  fix e and s :: proxy_state and req :: request and res s'
  assume a: "env_ok e" "case s of (up, px, w) \<Rightarrow> net_ok up \<and> proxy_inv px" "proxy_step e s req = Some (Inr (res, s'))"
  moreover from a(3) have "fst s' = fst s" "fst (snd s') = fst (snd s)" by (cases s; auto simp: proxy_step_def)+
  ultimately show "wf_response res \<and> (case s' of (up, px, w) \<Rightarrow> net_ok up \<and> proxy_inv px)"
    using proxy.handle_wf[OF a(1) _ a(3)] by (cases s; cases s') auto
next
  fix e and s :: proxy_state and req :: request
  assume a: "env_ok e" "case s of (up, px, w) \<Rightarrow> net_ok up \<and> proxy_inv px"
    "direct_net (fst s) \<and> rq_method req \<noteq> INVALID \<and> rq_uri req \<noteq> [] \<and> int (length (rq_uri req)) < INT_MAX"
  obtain up px w where s: "s = (up, px, w)" by (cases s)
  with proxy_total[of up px e req w] a show "\<exists>res s'. proxy_step e s req = Some (Inr (res, s'))"
    by (auto simp: proxy_step_def)
qed

section \<open>Properties\<close>


definition example_proxy :: reverse_proxy_request_handler where
  "example_proxy = \<lparr>px_prefix = ''/ucla/'', px_dest = ''http://a.edu/'', px_port = ''80'', px_host = ''a.edu'', px_path = ''/''\<rparr>"

definition example_request :: request where
  "example_request = \<lparr>rq_method = GET, rq_uri = ''/ucla/x'', rq_version = ''HTTP/1.1'',
     rq_headers = [(''Connection'', ''close'')], rq_body = []\<rparr>"

text \<open>An upstream that sends this reply in two segments, whatever it is asked.\<close>

definition example_upstream :: upstream where
  "example_upstream = \<lparr>up_net = (\<lambda>n h p b. Connected
     [''HTTP/1.0 20'', ''0 OK'' @ CRLF @ ''Server: u'' @ CRLF @ CRLF @ ''hi''] True),
     up_replace_all = (\<lambda>s a b. s)\<rparr>"




text \<open>A forwarded body never arrives: it is written before the empty line that ends the
  headers, so that a body of token characters is taken for a broken header line and the forwarded
  bytes are not a good request.\<close>

theorem proxy_body_lost:
  assumes "request_ok r" "rq_method r \<noteq> INVALID" "rq_body r \<noteq> []" "list_all token_char (rq_body r)"
    and "last_length 0 (rq_headers r) = Inr n" "request_to_string r = Inr bytes"
    and "parse new_parser empty_request bytes = Inr ((result, used, bl), p, r')"
  shows "result \<noteq> good"
proof -
  let ?line = "method_name (rq_method r) @ '' '' @ rq_uri r @ '' '' @ rq_version r @ CRLF"
  let ?hs = "concat (map print_header (rq_headers r))"
  let ?p = "new_parser\<lparr>p_state := header_line_start, method_str := method_name (rq_method r)\<rparr>"
  let ?r = "empty_request\<lparr>rq_uri := rq_uri r, rq_version := rq_version r\<rparr>"
  have ok: "list_all uri_char (rq_uri r)" "version_ok (rq_version r)" "list_all header_ok (rq_headers r)"
    using assms(1) by (simp_all add: request_ok_def)
  have m: "method_name (rq_method r) \<noteq> []" "list_all token_char (method_name (rq_method r))"
    using method_name_token[OF assms(2)] by simp_all
  have p: "p_state ?p = header_line_start" "header_key ?p = []" "last_length (body_length ?p) (rq_headers r) = Inr n"
    using assms(5) by (simp_all add: new_parser_def)
  obtain q1 r1 where all: "store_all ?p ?r (rq_headers r) = Inr (q1, r1)"
    using store_all_fresh(2)[OF p(2) ok(3) p(3), of ?r] by blast
  obtain q r2 where f: "feed ?p ?r ?hs = Some (q, r2)" and q: "p_state q = header_line_start"
    "store_header q r2 = Inr (q1, r1)" using feed_headers[OF p(1) ok(3) all] by blast
  obtain c cs where body: "rq_body r = c # cs" "token_char c" "list_all token_char cs"
    using assms(3,4) by (cases "rq_body r") auto
  let ?q = "q1\<lparr>p_state := header_name, header_key := [c], header_val := []\<rparr>"
  have fb: "feed q r2 (rq_body r) = Some (?q\<lparr>header_key := [c] @ cs\<rparr>, r1)"
    using q body token_char_not_special[OF body(2)] feed_name[of ?q cs r1]
    by (simp add: consume_simps)
  have fed: "feed new_parser empty_request (?line @ ?hs @ rq_body r) = Some (?q\<lparr>header_key := [c] @ cs\<rparr>, r1)"
    unfolding feed_append[of new_parser empty_request ?line] feed_request_line[OF m ok(1,2)]
      feed_append[of ?p ?r ?hs] f bind.bind_lunit prod.case by (simp add: fb)
  have bytes: "bytes = (?line @ ?hs @ rq_body r) @ CRLF @ CRLF"
    using assms(2,6) by (simp add: request_to_string_def print_header_def[abs_def])
  have bad: "consume (?q\<lparr>header_key := [c] @ cs\<rparr>) r1 CR = Inr (bad, ?q\<lparr>header_key := [c] @ cs\<rparr>, r1)"
    by (simp add: consume_def is_ctl_def schar_def)
  show ?thesis
    using assms(7) bad unfolding bytes parse_feed[OF fed] by (auto split: if_split_asm)
qed

theorem proxy_body_lost_witness:
  "\<exists>bytes used bl p r'. request_to_string (empty_request\<lparr>rq_uri := ''/'', rq_version := ''HTTP/1.1'', rq_body := ''a''\<rparr>) = Inr bytes \<and>
     parse new_parser empty_request bytes = Inr ((bad, used, bl), p, r') \<and> bad \<noteq> good"
proof -
  let ?r = "empty_request\<lparr>rq_uri := ''/'', rq_version := ''HTTP/1.1'', rq_body := ''a''\<rparr>"
  have bytes: "request_to_string ?r = Inr (''GET / HTTP/1.1'' @ CRLF @ ''a'' @ CRLF @ CRLF)" by code_simp
  have parsed: "parse new_parser empty_request (''GET / HTTP/1.1'' @ CRLF @ ''a'' @ CRLF @ CRLF) =
      Inr ((bad, 18, 0), new_parser\<lparr>p_state := header_name, header_key := ''a'', method_str := ''GET''\<rparr>,
        empty_request\<lparr>rq_uri := ''/'', rq_version := ''HTTP/1.1''\<rparr>)" by code_simp
  have ok: "request_ok ?r"
    by (simp add: request_ok_def empty_request_def version_ok_1_1 uri_char_def text_char_def is_ctl_def schar_def)
  have c: "rq_method ?r \<noteq> INVALID" "rq_body ?r \<noteq> []" "list_all token_char (rq_body ?r)"
    "last_length 0 (rq_headers ?r) = Inr 0" by code_simp+
  from proxy_body_lost[OF ok c bytes parsed] bytes parsed show ?thesis by blast
qed

text \<open>C37: Two hosts that redirect to each other keep the proxy busy for ever: the check against
  infinite redirection only compares with the previous location, so \<open>send_request\<close> never returns.\<close>

theorem proxy_redirect_cycle_diverges:
  assumes "plain_location h1 p1" "plain_location h2 p2" "h1 \<noteq> h2" "rq_method req \<noteq> INVALID"
    and "\<forall>n bytes. up_net up n h1 (px_port px) bytes = Connected [redirect_reply (''http://'' @ h2 @ p2)] True"
    and "\<forall>n bytes. up_net up n h2 (px_port px) bytes = Connected [redirect_reply (''http://'' @ h1 @ p1)] True"
  shows "send_request e up px req h1 w = None"
proof (cases "send_request e up px req h1 w")
  case (Some x)
  with send_request_cycle[OF assms(1-3) _ _ Some] assms(4-6) show ?thesis by simp
qed

definition cycle_upstream :: upstream where
  "cycle_upstream = \<lparr>up_net = (\<lambda>n h p b. Connected
     [redirect_reply (if h = ''a.edu'' then ''http://b.edu/'' else ''http://a.edu/'')] True),
     up_replace_all = (\<lambda>s a b. s)\<rparr>"

theorem proxy_redirect_cycle_diverges_witness:
  "send_request plain_env cycle_upstream example_proxy example_request ''a.edu'' \<lparr>w_log = [], w_sent = 0\<rparr> = None"
proof (rule proxy_redirect_cycle_diverges)
  show "plain_location ''a.edu'' ''/''" "plain_location ''b.edu'' ''/''" by code_simp+
qed (simp_all add: example_request_def cycle_upstream_def)

text \<open>A redirect to the place the request was sent to is recognised: it is answered with 400
  and logged, and nothing more is sent.\<close>

theorem proxy_self_redirect_refused:
  assumes "plain_location h p" "rq_method req \<noteq> INVALID" "rq_uri req = p"
    and "\<forall>bytes. up_net up (w_sent w) h (px_port px) bytes = Connected [redirect_reply (''http://'' @ h @ p)] at_eof"
  shows "send_request e up px req h w = Some (Inr (throw_400_error e,
    w\<lparr>w_sent := Suc (w_sent w),
      w_log := log_error_file (''Infinite redirection to: '' @ h @ ''/'' @ p) (w_log w)\<rparr>))"
proof -
  have clean: "clean_text (''http://'' @ h @ p)" using assms(1) by (simp add: plain_location_def)
  have r: "handle_redirect req (''http://'' @ h @ p) h = None"
    using redirect_url_http[of h p "[]"] assms(1,3) by (simp add: handle_redirect_def plain_location_def)
  show ?thesis
    unfolding send_request.simps[of e up px req] exchange_redirect[OF clean assms(2) assms(4)[rule_format]]
      sum.case prod.case reply.case r option.case using assms(3) by simp
qed

theorem proxy_self_redirect_refused_witness:
  "send_request plain_env (cycle_upstream\<lparr>up_net := \<lambda>n h p b. Connected [redirect_reply (''http://'' @ ''a.edu'' @ ''/ucla/x'')] True\<rparr>)
     example_proxy example_request ''a.edu'' \<lparr>w_log = [], w_sent = 0\<rparr> =
   Some (Inr (throw_400_error plain_env, \<lparr>w_log = [], w_sent = 0\<rparr>\<lparr>w_sent := Suc (w_sent \<lparr>w_log = [], w_sent = 0\<rparr>),
     w_log := log_error_file (''Infinite redirection to: '' @ ''a.edu'' @ ''/'' @ ''/ucla/x'') (w_log \<lparr>w_log = [], w_sent = 0\<rparr>)\<rparr>))"
proof (rule proxy_self_redirect_refused)
  show "plain_location ''a.edu'' ''/ucla/x''" by code_simp
qed (simp_all add: example_request_def)

text \<open>Following a redirect loses the question mark of the target: the request that is sent
  names the path and the query run together.\<close>

theorem proxy_redirect_drops_question_mark:
  assumes "CHR ''/'' \<notin> set h" "hd p = CHR ''/''" "p \<noteq> []" "CHR ''?'' \<notin> set p" "map tolower h = h" "h \<noteq> h0"
  shows "\<exists>req'. handle_redirect req (''http://'' @ h @ p @ ''?'' @ q) h0 = Some (req', h) \<and> rq_uri req' = p @ q"
  using redirect_url_http[of h p "''?'' @ q"] assms by (simp add: handle_redirect_def get_proxy_request_def)

theorem proxy_redirect_drops_question_mark_witness:
  "\<exists>req'. handle_redirect example_request (''http://'' @ ''b.edu'' @ ''/p'' @ ''?'' @ ''k=1'') ''a.edu'' = Some (req', ''b.edu'') \<and>
     rq_uri req' = ''/p'' @ ''k=1''"
proof (rule proxy_redirect_drops_question_mark)
  show "map tolower ''b.edu'' = ''b.edu''" by code_simp
qed simp_all

text \<open>The proxy always answers when the upstream side answers completely and without a
  redirect, or cannot be reached: for every valid method and non-empty URI \<open>handle_request\<close> returns a
  well-formed response, whatever status the upstream server sends.\<close>

theorem proxy_answers:
  assumes "direct_net up" "proxy_inv px" "env_ok e" "rq_method req \<noteq> INVALID" "rq_uri req \<noteq> []"
    and "int (length (rq_uri req)) < INT_MAX"
  shows "\<exists>res w'. proxy_handle_request e up px w req = Some (Inr (res, w')) \<and> wf_response res"
  using assms by (rule proxy_total)

theorem proxy_answers_witness:
  "\<exists>res w'. proxy_handle_request plain_env example_upstream example_proxy \<lparr>w_log = [], w_sent = 0\<rparr> example_request =
     Some (Inr (res, w')) \<and> wf_response res"
proof (rule proxy_answers)
  have head: "reply_head_ok ''HTTP/1.0'' 200 ''OK'' [(''Server'', ''u'')]" by code_simp
  have bytes: "concat [''HTTP/1.0 20'', ''0 OK'' @ CRLF @ ''Server: u'' @ CRLF @ CRLF @ ''hi''] =
      reply_bytes ''HTTP/1.0'' 200 ''OK'' [(''Server'', ''u'')] ''hi''" by code_simp
  show "direct_net example_upstream"
    unfolding direct_net_def example_upstream_def upstream.simps net_outcome.inject
    using head bytes by fastforce
  show "proxy_inv example_proxy" by code_simp
  show "env_ok plain_env" by (simp add: env_ok_def plain_env_def)
qed (simp_all add: example_request_def INT_MAX_def)

end
