(* ===== verification/Static_Handler.thy ===== *)
theory Static_Handler
  imports Handlers Config_Parser
begin

text \<open>
  The static file handler (\<open>static_request_handler.h\<close>, \<open>static_request_handler.cc\<close>): its
  constructor, which normalises the root directory and the URI prefix, \<open>init\<close>, the mapping of
  a URI to a file and the response that carries the file.
\<close>

record static_request_handler =
  sh_root :: string
  sh_prefix :: string

section \<open>Construction\<close>

definition new_static_request_handler :: "NginxConfig \<Rightarrow> string \<Rightarrow> static_request_handler result" where
  "new_static_request_handler conf prefix_uri =
     and_then (get_value_from_statement conf ''root'') (\<lambda>value.
     and_then (if length value \<noteq> 0 then substr value 1 (size_minus (length value) 2) else Inr ''.'') (\<lambda>root_uri.
     and_then (with_slash root_uri) (\<lambda>root.
     and_then (with_slash prefix_uri) (\<lambda>pfx.
       Inr \<lparr>sh_root = root, sh_prefix = pfx\<rparr>))))"

text \<open>\<open>init\<close> makes a static handler, or (\<^const>\<open>None\<close>) a not-found handler without a root.\<close>

definition static_init :: "string \<Rightarrow> NginxConfig \<Rightarrow> static_request_handler option result" where
  "static_init location_path conf =
     and_then (get_value_from_statement conf ''root'') (\<lambda>value.
       if value \<noteq> []
       then and_then (new_static_request_handler conf location_path) (\<lambda>h. Inr (Some h))
       else Inr None)"

section \<open>Serving a file\<close>

definition get_file_name :: "static_request_handler \<Rightarrow> string \<Rightarrow> string result" where
  "get_file_name s uri =
     (let i = (case str_rfind (sh_prefix s) uri of Some k \<Rightarrow> int_of_size k | None \<Rightarrow> - 1) in
      if i \<noteq> - 1 then
        let len = int_of_size (length (sh_prefix s)) in
        if in_int (i + len) then substr_from uri (size_of_int (i + len)) else Inl UB_overflow
      else Inr [])"

definition extension_to_type :: "string \<Rightarrow> string" where
  "extension_to_type extension =
     (if extension = ''.zip'' then ''application/zip''
      else if extension = ''.txt'' then ''text/plain''
      else if extension = ''.jpg'' then ''image/jpeg''
      else if extension = ''.png'' then ''image/png''
      else if extension = ''.html'' \<or> extension = ''.htm'' then ''text/html''
      else if extension = ''.pdf'' then ''application/pdf''
      else if extension = ''.zip'' then ''application/zip''
      else ''application/octet-stream'')"

definition file_extension :: "string \<Rightarrow> string result" where
  "file_extension file_path =
     (case str_rfind ''.'' file_path of
        Some cursor \<Rightarrow> substr_from file_path cursor
      | None \<Rightarrow> Inr [])"

definition file_to_body :: "env \<Rightarrow> string \<Rightarrow> response_builder \<Rightarrow> (bool \<times> response_builder) result" where
  "file_to_body e file_path b =
     (case env_files e file_path of
        Some body \<Rightarrow>
          and_then (file_extension file_path) (\<lambda>extension.
            Inr (True, add_header ''Content-Length'' (to_string (length body))
                         (add_header ''Content-Type'' (extension_to_type extension) (add_body body b))))
      | None \<Rightarrow> Inr (False, b))"

definition static_handle_request ::
  "env \<Rightarrow> static_request_handler \<Rightarrow> request \<Rightarrow> (response \<times> static_request_handler) result" where
  "static_handle_request e s req =
     (let res = set_code OK new_builder;
          not_found = Inr (get_response (make_404_error e new_builder), s) in
      and_then (get_file_name s (rq_uri req)) (\<lambda>filename.
        if filename = [] then not_found
        else and_then (file_to_body e (sh_root s @ filename) res) (\<lambda>(found, res').
               if \<not> found then not_found
               else Inr (get_response (make_date_servername_headers e res'), s))))"

section \<open>The handler's invariant\<close>

definition static_inv :: "static_request_handler \<Rightarrow> bool" where
  "static_inv s \<longleftrightarrow> suffix ''/'' (sh_root s) \<and> suffix ''/'' (sh_prefix s)"

lemma extension_to_type_clean [simp]: "clean_text (extension_to_type x)"
  by (simp add: extension_to_type_def)

lemma file_extension_defined: "\<exists>x. file_extension p = Inr x"
  using str_rfind_Some[of "''.''" p] by (auto simp: file_extension_def substr_from_def split: option.splits)

lemma file_to_body_cases:
  "env_files e p = None \<Longrightarrow> file_to_body e p b = Inr (False, b)"
  "env_files e p = Some body \<Longrightarrow> \<exists>x. file_extension p = Inr x \<and> file_to_body e p b =
     Inr (True, add_header ''Content-Length'' (to_string (length body))
                  (add_header ''Content-Type'' (extension_to_type x) (add_body body b)))"
  using file_extension_defined[of p] by (auto simp: file_to_body_def)

lemma get_file_name_bounded:
  assumes "int (length uri) \<le> INT_MAX"
  shows "get_file_name s uri =
    Inr (case str_rfind (sh_prefix s) uri of Some i \<Rightarrow> drop (i + length (sh_prefix s)) uri | None \<Rightarrow> [])"
proof (cases "str_rfind (sh_prefix s) uri")
  case None
  then show ?thesis by (simp add: get_file_name_def)
next
  case (Some i)
  have "i + length (sh_prefix s) \<le> length uri" using str_rfind_Some[OF Some] by simp
  with assms Some show ?thesis
    by (simp add: get_file_name_def int_of_size_small in_int_def INT_MIN_def INT_MAX_def
        size_of_int_nonneg substr_from_def nat_int_add Let_def)
qed

lemma static_wf:
  assumes "env_ok e" "static_handle_request e s req = Inr (res, s')"
  shows "wf_response res \<and> s' = s"
proof -
  obtain f where f: "get_file_name s (rq_uri req) = Inr f"
    using assms(2) by (auto simp: static_handle_request_def Let_def)
  let ?b = "\<lambda>body x. add_header ''Content-Length'' (to_string (length body))
      (add_header ''Content-Type'' (extension_to_type x) (add_body body (set_code OK new_builder)))"
  have wf: "wf_response (get_response (make_date_servername_headers e (?b body x)))" for body x
    by (rule wf_get_response) (use assms(1) in auto)
  show ?thesis
  proof (cases "env_files e (sh_root s @ f)")
    case None
    with assms(2) f wf_404[of e] show ?thesis
      by (auto simp: static_handle_request_def file_to_body_cases Let_def split: if_splits)
  next
    case (Some body)
    with file_to_body_cases(2)[OF Some, of "set_code OK new_builder"] assms(2) f wf_404[of e] wf
    show ?thesis
      by (auto simp: static_handle_request_def Let_def split: if_splits)
  qed
qed

interpretation static: total_handler "\<lambda>e s req. Some (static_handle_request e s req)" static_inv
  "\<lambda>_ _ req. int (length (rq_uri req)) \<le> INT_MAX"
proof unfold_locales
  fix e :: env and s and req :: request
  assume len: "int (length (rq_uri req)) \<le> INT_MAX"
  then obtain f where f: "get_file_name s (rq_uri req) = Inr f" using get_file_name_bounded by blast
  show "\<exists>res s'. Some (static_handle_request e s req) = Some (Inr (res, s'))"
  proof (cases "env_files e (sh_root s @ f)")
    case None
    with f show ?thesis by (auto simp: static_handle_request_def file_to_body_cases Let_def)
  next
    case (Some body)
    with f file_to_body_cases(2)[OF Some, of "set_code OK new_builder"] show ?thesis
      by (auto simp: static_handle_request_def Let_def)
  qed
qed (auto dest: static_wf)

lemma last_occurrence:
  assumes "\<not> sublist t (tl (t @ name))"
  shows "str_rfind t (before @ t @ name) = Some (length before)"
proof (rule str_rfind_unique)
  show "\<forall>j>length before. j \<le> length (before @ t @ name) \<longrightarrow> \<not> prefix t (drop j (before @ t @ name))"
  proof (intro allI impI notI)
    fix j assume j: "j > length before" and p: "prefix t (drop j (before @ t @ name))"
    have "drop j (before @ t @ name) = drop (j - length before - 1) (tl (t @ name))"
      using j by (simp add: drop_Suc[symmetric] Suc_diff_Suc)
    with p have "sublist t (tl (t @ name))"
      by (metis append_take_drop_id prefix_def sublist_def)
    with assms show False by simp
  qed
qed simp_all

section \<open>Properties\<close>

text \<open>A static handler that could be built from a block with a root and a location has a root
  directory and a prefix that both end in a slash, the root being the quoted value of the block.\<close>

theorem static_init_normalised:
  assumes "static_init location_path conf = Inr (Some s)"
    and "get_value_from_statement conf ''root'' = Inr v"
    and "int (length v) \<le> INT_MAX" "int (length location_path) \<le> INT_MAX"
  shows "static_inv s \<and> sh_root s \<in> {butlast (tl v), butlast (tl v) @ ''/''} \<and>
    sh_prefix s \<in> {location_path, location_path @ ''/''}"
proof -
  from assms(1,2) obtain r where r: "substr v 1 (size_minus (length v) 2) = Inr r"
    and root: "with_slash r = Inr (sh_root s)" and pfx: "with_slash location_path = Inr (sh_prefix s)"
    and ne: "v \<noteq> []"
    by (auto simp: static_init_def new_static_request_handler_def split: if_splits)
  have len: "int (length r) \<le> INT_MAX" using r assms(3) by (auto simp: substr_def split: if_splits)
  have "r \<noteq> []" using with_slash_suffix[OF root len] by simp
  then have "r = butlast (tl v)"
    using r ne assms(3)
    by (cases v; cases "tl v" rule: rev_exhaust)
      (auto simp: substr_def size_minus_le INT_MAX_def split: if_splits)
  with with_slash_suffix[OF root len] with_slash_suffix[OF pfx assms(4)] show ?thesis
    by (auto simp: static_inv_def)
qed

theorem static_init_normalised_witness:
  "static_inv \<lparr>sh_root = ''./files/'', sh_prefix = ''/static/''\<rparr> \<and>
   static_init ''/static'' (NginxConfig [NginxConfigStatement [''root'', [CHR 0x22] @ ''./files'' @ [CHR 0x22]] None]) =
     Inr (Some \<lparr>sh_root = ''./files/'', sh_prefix = ''/static/''\<rparr>)"
proof -
  let ?c = "NginxConfig [NginxConfigStatement [''root'', [CHR 0x22] @ ''./files'' @ [CHR 0x22]] None]"
  have i: "static_init ''/static'' ?c = Inr (Some \<lparr>sh_root = ''./files/'', sh_prefix = ''/static/''\<rparr>)"
    and v: "get_value_from_statement ?c ''root'' = Inr ([CHR 0x22] @ ''./files'' @ [CHR 0x22])"
    by code_simp+
  have "int (length ([CHR 0x22] @ ''./files'' @ [CHR 0x22])) \<le> INT_MAX" "int (length ''/static'') \<le> INT_MAX"
    by code_simp+
  from static_init_normalised[OF i v this] i show ?thesis by simp
qed

text \<open>C24: A request for a location prefix followed by a name is answered with the file that has
  this name, unchecked, under the root: 200, the file's bytes, their number and the media type of the
  last extension; a name that leaves the root with \<open>..\<close> is served too (the witness).  The name is
  what follows the last occurrence of the prefix.\<close>

theorem static_serves_file:
  assumes "rq_uri req = before @ sh_prefix s @ name" "name \<noteq> []"
    and "\<not> sublist (sh_prefix s) (tl (sh_prefix s @ name))"
    and "int (length (rq_uri req)) \<le> INT_MAX" "env_files e (sh_root s @ name) = Some body"
  shows "\<exists>res x. static_handle_request e s req = Inr (res, s) \<and> rs_code res = Some OK \<and> rs_body res = body \<and>
    file_extension (sh_root s @ name) = Inr x \<and>
    map_find (rs_headers res) ''Content-Type'' = Some (extension_to_type x) \<and>
    map_find (rs_headers res) ''Content-Length'' = Some (to_string (length body))"
proof -
  have "str_rfind (sh_prefix s) (rq_uri req) = Some (length before)"
    using assms(1,2) last_occurrence[OF assms(3)] by simp
  then have f: "get_file_name s (rq_uri req) = Inr name"
    using get_file_name_bounded[OF assms(4), of s] assms(1) by simp
  obtain x where "file_extension (sh_root s @ name) = Inr x" using file_extension_defined by blast
  with file_to_body_cases(2)[OF assms(5), of "set_code OK new_builder"] f assms(2) show ?thesis
    by (simp add: static_handle_request_def get_response_def make_date_servername_headers_def)
qed

theorem static_serves_file_witness:
  "\<exists>res x. static_handle_request
      \<lparr>env_files = [''./files/../server.conf'' \<mapsto> ''port 80;''], env_files_rw = Map.empty, env_log_dir = None,
       env_host_name = None, env_date = []\<rparr>
      \<lparr>sh_root = ''./files/'', sh_prefix = ''/static/''\<rparr>
      \<lparr>rq_method = GET, rq_uri = ''/static/../server.conf'', rq_version = ''HTTP/1.1'', rq_headers = [], rq_body = []\<rparr> =
      Inr (res, \<lparr>sh_root = ''./files/'', sh_prefix = ''/static/''\<rparr>) \<and>
    rs_code res = Some OK \<and> rs_body res = ''port 80;'' \<and>
    file_extension (sh_root \<lparr>sh_root = ''./files/'', sh_prefix = ''/static/''\<rparr> @ ''../server.conf'') = Inr x \<and>
    map_find (rs_headers res) ''Content-Type'' = Some (extension_to_type x) \<and>
    map_find (rs_headers res) ''Content-Length'' = Some (to_string (length ''port 80;''))"
proof (rule static_serves_file[where before = "[]"])
  show "\<not> sublist (sh_prefix \<lparr>sh_root = ''./files/'', sh_prefix = ''/static/''\<rparr>)
      (tl (sh_prefix \<lparr>sh_root = ''./files/'', sh_prefix = ''/static/''\<rparr> @ ''../server.conf''))" by code_simp
qed (simp_all add: INT_MAX_def)

text \<open>C25: A request that names no existing file is answered with the 404 page; nothing but an
  existing file is ever answered with 200.\<close>

theorem static_not_found:
  assumes "int (length (rq_uri req)) \<le> INT_MAX"
    and "\<forall>before name. rq_uri req = before @ sh_prefix s @ name \<longrightarrow> name = [] \<or> env_files e (sh_root s @ name) = None"
  shows "static_handle_request e s req = Inr (get_response (make_404_error e new_builder), s)"
proof (cases "str_rfind (sh_prefix s) (rq_uri req)")
  case None
  with get_file_name_bounded[OF assms(1), of s] show ?thesis by (simp add: static_handle_request_def)
next
  case (Some i)
  let ?name = "drop (i + length (sh_prefix s)) (rq_uri req)"
  obtain zs where zs: "drop i (rq_uri req) = sh_prefix s @ zs"
    using str_rfind_Some[OF Some] by (auto simp: prefix_def)
  then have "?name = zs" by (metis add.commute append_eq_conv_conj drop_drop)
  with zs have "rq_uri req = take i (rq_uri req) @ sh_prefix s @ ?name"
    by (metis append_take_drop_id)
  with assms(2)[rule_format, of "take i (rq_uri req)" ?name]
  have "?name = [] \<or> env_files e (sh_root s @ ?name) = None" by simp
  with get_file_name_bounded[OF assms(1), of s] Some show ?thesis
    by (auto simp: static_handle_request_def file_to_body_cases Let_def)
qed

theorem static_not_found_witness:
  "static_handle_request
      \<lparr>env_files = Map.empty, env_files_rw = Map.empty, env_log_dir = None, env_host_name = None, env_date = []\<rparr>
      \<lparr>sh_root = ''./files/'', sh_prefix = ''/static/''\<rparr>
      \<lparr>rq_method = GET, rq_uri = ''/static/a.txt'', rq_version = ''HTTP/1.1'', rq_headers = [], rq_body = []\<rparr> =
    Inr (get_response (make_404_error
      \<lparr>env_files = Map.empty, env_files_rw = Map.empty, env_log_dir = None, env_host_name = None, env_date = []\<rparr>
      new_builder), \<lparr>sh_root = ''./files/'', sh_prefix = ''/static/''\<rparr>)"
  by (rule static_not_found) (simp_all add: INT_MAX_def)

end
