(* ===== verification/Status_Handler.thy ===== *)
theory Status_Handler
  imports Log_Helper
begin

text \<open>
  The status page (\<open>status_request_handler.h\<close>, \<open>status_request_handler.cc\<close>): it reads every
  log file, collects the handler table from the lines \<open>log_all_handlers\<close> writes and one row
  per line \<open>log_metrics\<close> writes.  The last section proves that what the logger writes is what
  the page reports.
\<close>

section \<open>Output streams\<close>

text \<open>
  A \<open>std::stringstream\<close> under \<open>std::left << std::setfill(' ')\<close>: the text and the field width,
  which the next insertion of a string uses up.
\<close>

record ostream =
  os_text :: string
  os_width :: nat

definition new_stream :: ostream where
  "new_stream = \<lparr>os_text = [], os_width = 0\<rparr>"

definition put :: "string \<Rightarrow> ostream \<Rightarrow> ostream" where
  "put s o1 = \<lparr>os_text = os_text o1 @ s @ replicate (os_width o1 - length s) CHR '' '', os_width = 0\<rparr>"

definition setw :: "int \<Rightarrow> ostream \<Rightarrow> ostream" where
  "setw n o1 = o1\<lparr>os_width := nat n\<rparr>"

text \<open>\<open>stream.str("")\<close>\<close>

definition clear_text :: "ostream \<Rightarrow> ostream" where
  "clear_text o1 = o1\<lparr>os_text := []\<rparr>"

text \<open>The lines \<open>std::getline\<close> delivers.\<close>

fun getlines :: "string \<Rightarrow> string \<Rightarrow> string list" where
  "getlines line [] = (if line = [] then [] else [line])"
| "getlines line (c # cs) = (if c = LF then line # getlines [] cs else getlines (line @ [c]) cs)"

section \<open>The handler\<close>

record status_request_handler =
  all_handlers :: ostream
  interval_len :: "int option"

definition new_status_request_handler :: status_request_handler where
  "new_status_request_handler = \<lparr>all_handlers = new_stream, interval_len = None\<rparr>"

text \<open>The local variables of \<open>get_request_records\<close> that the loops change.\<close>

record scan =
  sc_handlers :: ostream
  sc_records :: ostream
  sc_num_requests :: int

fun scan_handlers :: "int \<Rightarrow> nat \<Rightarrow> string \<Rightarrow> string \<Rightarrow> ostream \<Rightarrow> ostream" where
  "scan_handlers width count temp [] out = out"
| "scan_handlers width count temp (c # cs) out =
     (if c = CHR '' '' then
        scan_handlers width (Suc count) [] cs
          (if count mod 2 = 0 then put temp out else setw width (put CRLF (put temp out)))
      else scan_handlers width count (temp @ [c]) cs out)"

definition npos :: nat where "npos = 2 ^ 64 - 1"

definition find_pos :: "string \<Rightarrow> string \<Rightarrow> nat" where
  "find_pos t s = (case str_find t s of Some i \<Rightarrow> i | None \<Rightarrow> npos)"

text \<open>The URL loop runs over the line from the position behind the marker to the next blank.\<close>

definition request_url :: "string \<Rightarrow> string" where
  "request_url line =
     takeWhile (\<lambda>c. c \<noteq> CHR '' '')
       (drop (size_plus (find_pos ''Request path: '' line) (length ''Request path: '')) line)"

definition scan_metrics :: "int \<Rightarrow> string \<Rightarrow> scan \<Rightarrow> scan result" where
  "scan_metrics width line st =
     (case str_find ''ResponseMetrics'' line of
        None \<Rightarrow> Inr st
      | Some _ \<Rightarrow>
          let url = request_url line in
          (case str_find ''Response code : '' line of
             None \<Rightarrow> Inr st
           | Some found \<Rightarrow>
               if sc_num_requests st = INT_MAX then Inl UB_overflow
               else and_then (substr line (size_plus found (length ''Response code : '')) 3) (\<lambda>code.
                 Inr (st\<lparr>sc_num_requests := sc_num_requests st + 1,
                         sc_records := put CRLF (put code (put url (setw width (sc_records st))))\<rparr>))))"

definition scan_line :: "int \<Rightarrow> string \<Rightarrow> scan \<Rightarrow> scan result" where
  "scan_line width line st =
     (let st' = (case str_find ''all handlers:'' line of
                   None \<Rightarrow> st
                 | Some found \<Rightarrow>
                     st\<lparr>sc_handlers := scan_handlers width 0 [] (drop (size_plus found 14) line)
                         (setw width (clear_text (sc_handlers st)))\<rparr>)
      in scan_metrics width line st')"

fun scan_lines :: "int \<Rightarrow> string list \<Rightarrow> scan \<Rightarrow> scan result" where
  "scan_lines width [] st = Inr st"
| "scan_lines width (l # ls) st = and_then (scan_line width l st) (scan_lines width ls)"

fun scan_files :: "env \<Rightarrow> int \<Rightarrow> string list \<Rightarrow> scan \<Rightarrow> scan result" where
  "scan_files e width [] st = Inr st"
| "scan_files e width (f # fs) st =
     (case env_files_rw e f of
        None \<Rightarrow> scan_files e width fs st
      | Some data \<Rightarrow> and_then (scan_lines width (getlines [] data) st) (scan_files e width fs))"

definition get_request_records ::
  "env \<Rightarrow> status_request_handler \<Rightarrow> (string \<times> status_request_handler) result" where
  "get_request_records e s =
     (case env_log_dir e of
        None \<Rightarrow> Inl Throw_system_error
      | Some file_names \<Rightarrow>
        (case interval_len s of
           None \<Rightarrow> Inl UB_uninitialised
         | Some width \<Rightarrow>
             let records = put (''response codes'' @ CRLF) (put ''requests URL'' (setw width new_stream)) in
             and_then (scan_files e width file_names
                         \<lparr>sc_handlers = all_handlers s, sc_records = records, sc_num_requests = 0\<rparr>) (\<lambda>st.
             (case env_host_name e of
                None \<Rightarrow> Inl Throw_system_error
              | Some host \<Rightarrow>
                  Inr (''Total Requests: '' @ to_string (nat (sc_num_requests st)) @ [LF] @
                       ''Current Host Name: '' @ host @ [LF, LF] @ os_text (sc_records st),
                       s\<lparr>all_handlers := sc_handlers st\<rparr>)))))"

definition status_handle_request ::
  "env \<Rightarrow> status_request_handler \<Rightarrow> request \<Rightarrow> (response \<times> status_request_handler) result" where
  "status_handle_request e s req =
     (let res = add_header ''Content-Type'' ''text/plain'' (set_code OK new_builder) in
      and_then (get_request_records e (s\<lparr>interval_len := Some 50\<rparr>)) (\<lambda>(records, s').
        let body = os_text (put records (put CRLF (put (os_text (all_handlers s'))
                     (put (''URL prefixes'' @ CRLF) (put ''handlers name'' (setw 50 new_stream))))));
            res' = add_body body (add_header ''Content-Length'' (to_string (length body)) res)
        in Inr (get_response (make_date_servername_headers e res'),
                s'\<lparr>all_handlers := clear_text (all_handlers s')\<rparr>)))"

section \<open>The handler meets the contract\<close>

text \<open>The lines of the readable log files, and when the page can be made of them.\<close>

definition log_lines :: "env \<Rightarrow> string list \<Rightarrow> string list" where
  "log_lines e fs = concat (map (\<lambda>f. case env_files_rw e f of None \<Rightarrow> [] | Some data \<Rightarrow> getlines [] data) fs)"

definition log_readable :: "env \<Rightarrow> bool" where
  "log_readable e \<longleftrightarrow> env_host_name e \<noteq> None \<and>
     (case env_log_dir e of
        None \<Rightarrow> False
      | Some fs \<Rightarrow> int (length (log_lines e fs)) \<le> INT_MAX \<and> list_all (\<lambda>l. length l < 2 ^ 63) (log_lines e fs))"

lemma scan_lines_append:
  "scan_lines width (ls @ ls') st = and_then (scan_lines width ls st) (scan_lines width ls')"
proof (induction ls arbitrary: st)
  case (Cons l ls)
  then show ?case by (cases "scan_line width l st") simp_all
qed simp

lemma scan_files_lines: "scan_files e width fs st = scan_lines width (log_lines e fs) st"
proof (induction fs arbitrary: st)
  case (Cons f fs)
  show ?case
  proof (cases "env_files_rw e f")
    case (Some data)
    then have "log_lines e (f # fs) = getlines [] data @ log_lines e fs" by (simp add: log_lines_def)
    with Some Cons show ?thesis by (cases "scan_lines width (getlines [] data) st") (simp_all add: scan_lines_append)
  qed (simp add: Cons log_lines_def)
qed (simp add: log_lines_def)

lemma scan_line_total:
  assumes "length l < 2 ^ 63" "sc_num_requests st < INT_MAX"
  shows "\<exists>st'. scan_line width l st = Inr st' \<and> sc_num_requests st' \<le> sc_num_requests st + 1"
proof -
  obtain hs where hs: "scan_line width l st = scan_metrics width l (st\<lparr>sc_handlers := hs\<rparr>)"
    unfolding scan_line_def Let_def by (cases "str_find ''all handlers:'' l"; cases st) auto
  have "\<exists>code. substr l (size_plus i (length ''Response code : '')) 3 = Inr code" if "str_find ''Response code : '' l = Some i" for i
    using str_find_Some[OF that] assms(1) by (simp add: substr_def size_plus_def)
  with assms(2) show ?thesis
    unfolding hs scan_metrics_def
    by (cases "str_find ''ResponseMetrics'' l"; cases "str_find ''Response code : '' l") (auto simp: Let_def)
qed

lemma scan_lines_total:
  "list_all (\<lambda>l. length l < 2 ^ 63) ls \<Longrightarrow> sc_num_requests st + int (length ls) \<le> INT_MAX \<Longrightarrow>
   \<exists>st'. scan_lines width ls st = Inr st'"
proof (induction ls arbitrary: st)
  case (Cons l ls)
  from scan_line_total[of l st width] Cons.prems obtain st1 where
    st1: "scan_line width l st = Inr st1" "sc_num_requests st1 \<le> sc_num_requests st + 1" by auto
  with Cons.IH[of st1] Cons.prems show ?case by auto
qed simp

interpretation status: total_handler "\<lambda>e s req. Some (status_handle_request e s req)" "\<lambda>_. True" "\<lambda>e _ _. log_readable e"
proof unfold_locales
  fix e :: env and s req res s'
  assume e: "env_ok e" and h: "Some (status_handle_request e s req) = Some (Inr (res, s'))"
  let ?b = "\<lambda>body. add_body body (add_header ''Content-Length'' (to_string (length body))
      (add_header ''Content-Type'' ''text/plain'' (set_code OK new_builder)))"
  have "wf_response (get_response (make_date_servername_headers e (?b body)))" for body
    by (rule wf_get_response) (use e in auto)
  with h show "wf_response res \<and> True" by (auto simp: status_handle_request_def Let_def)
next
  fix e s and req :: request
  assume "log_readable e"
  then obtain fs host where e: "env_log_dir e = Some fs" "env_host_name e = Some host"
    "int (length (log_lines e fs)) \<le> INT_MAX" "list_all (\<lambda>l. length l < 2 ^ 63) (log_lines e fs)"
    by (auto simp: log_readable_def split: option.split_asm)
  show "\<exists>res s'. Some (status_handle_request e s req) = Some (Inr (res, s'))"
    using scan_lines_total[OF e(4)] e(1-3)
    by (simp add: status_handle_request_def get_request_records_def scan_files_lines Let_def)
qed

section \<open>The log and the page\<close>

text \<open>
  A line of the log file: what \<open>log_metrics\<close> wrote for a served request behind the sink's
  prefix, or a line without the marker \<open>ResponseMetrics\<close>.
\<close>

datatype log_line =
    Served string status_code string string string
  | Other string

fun line_text :: "log_line \<Rightarrow> string" where
  "line_text (Served hdr code uri ip name) = hdr @ metrics_message (code_name code) uri ip name"
| "line_text (Other l) = l"

fun line_ok :: "log_line \<Rightarrow> bool" where
  "line_ok (Served hdr code uri ip name) \<longleftrightarrow> CHR ''R'' \<notin> set hdr \<and> CHR '' '' \<notin> set uri \<and>
     LF \<notin> set (hdr @ uri @ ip @ name)"
| "line_ok (Other l) \<longleftrightarrow> LF \<notin> set l \<and> str_find ''ResponseMetrics'' l = None"

definition pad :: "nat \<Rightarrow> string \<Rightarrow> string" where
  "pad n s = s @ replicate (n - length s) CHR '' ''"

fun line_row :: "log_line \<Rightarrow> string" where
  "line_row (Served hdr code uri ip name) = pad 50 uri @ code_name code @ CRLF"
| "line_row (Other l) = []"

fun is_served :: "log_line \<Rightarrow> bool" where
  "is_served (Served _ _ _ _ _) = True"
| "is_served (Other _) = False"

lemma getlines_lines:
  "LF \<notin> set l \<Longrightarrow> getlines acc (l @ LF # rest) = (acc @ l) # getlines [] rest"
  by (induction l arbitrary: acc) auto

lemma getlines_concat:
  "\<forall>l \<in> set ls. LF \<notin> set l \<Longrightarrow> getlines [] (concat (map (\<lambda>l. l @ [LF]) ls)) = ls"
  by (induction ls) (auto simp: getlines_lines)

lemma code_name_length [simp]: "length (code_name c) = 3"
  by (cases c) auto

lemma line_text_no_newline: "line_ok l \<Longrightarrow> LF \<notin> set (line_text l)"
proof (cases l)
  case (Served hdr code uri ip name)
  then show "line_ok l \<Longrightarrow> ?thesis" by (cases code) (auto simp: metrics_message_def)
qed auto

text \<open>Where the page finds the markers in a metrics line.\<close>

lemma find_metrics:
  assumes "CHR ''R'' \<notin> set hdr"
  shows "str_find ''ResponseMetrics'' (hdr @ metrics_message (code_name c) uri ip name) = Some (length hdr)"
    and "str_find ''Response code : '' (hdr @ metrics_message (code_name c) uri ip name) = Some (length hdr + 18)"
    and "str_find ''Request path: '' (hdr @ metrics_message (code_name c) uri ip name) = Some (length hdr + 38)"
  using assms by (cases c; simp add: str_find_skip metrics_message_def prefix_def)+

lemma metrics_text:
  "hdr @ metrics_message (code_name c) uri ip name =
     (hdr @ ''ResponseMetrics:  Response code : '' @ code_name c @ '' Request path: '') @
     uri @ '' IP: '' @ ip @ '' Matched request handler name: '' @ name"
  "hdr @ metrics_message (code_name c) uri ip name =
     (hdr @ ''ResponseMetrics:  Response code : '') @ code_name c @ '' Request path: '' @
     uri @ '' IP: '' @ ip @ '' Matched request handler name: '' @ name"
  by (simp_all add: metrics_message_def)

lemma request_url_metrics:
  assumes "CHR ''R'' \<notin> set hdr" "CHR '' '' \<notin> set uri" "length hdr < 2 ^ 63"
  shows "request_url (hdr @ metrics_message (code_name c) uri ip name) = uri"
proof -
  have pos: "size_plus (length hdr + 38) (length ''Request path: '') = length hdr + 52"
    using assms(3) by (simp add: size_plus_def)
  have rest: "drop (length hdr + 52) (hdr @ metrics_message (code_name c) uri ip name) =
      uri @ '' IP: '' @ ip @ '' Matched request handler name: '' @ name"
    unfolding metrics_text(1) by (cases c) simp_all
  show ?thesis
    unfolding request_url_def find_pos_def find_metrics[OF assms(1)] option.case pos rest
    using assms(2) by (subst takeWhile_append2) auto
qed

lemma scan_metrics_row:
  assumes "line_ok l" "length (line_text l) < 2 ^ 63" "os_width (sc_records st) = 0"
    "sc_num_requests st < INT_MAX"
  shows "scan_metrics 50 (line_text l) st =
    Inr (st\<lparr>sc_num_requests := sc_num_requests st + (if is_served l then 1 else 0),
            sc_records := \<lparr>os_text = os_text (sc_records st) @ line_row l, os_width = 0\<rparr>\<rparr>)"
proof (cases l)
  case (Served hdr code uri ip name)
  let ?line = "hdr @ metrics_message (code_name code) uri ip name"
  have R: "CHR ''R'' \<notin> set hdr" and url: "request_url ?line = uri"
    using assms(1,2) Served by (auto simp: request_url_metrics)
  have pos: "size_plus (length hdr + 18) (length ''Response code : '') = length hdr + 34"
    using assms(2) Served by (simp add: size_plus_def)
  have code: "substr ?line (length hdr + 34) 3 = Inr (code_name code)"
    unfolding metrics_text(2) substr_def by simp
  show ?thesis
    unfolding Served line_text.simps scan_metrics_def find_metrics[OF R] option.case url pos code Let_def
    using assms(3,4) by (simp add: put_def setw_def pad_def)
next
  case (Other t)
  with assms show ?thesis by (cases st; cases "sc_records st") (simp add: scan_metrics_def)
qed

lemma scan_lines_rows:
  "\<forall>l \<in> set ls. line_ok l \<and> length (line_text l) < 2 ^ 63 \<Longrightarrow> os_width (sc_records st) = 0 \<Longrightarrow>
   sc_num_requests st + int (length ls) \<le> INT_MAX \<Longrightarrow>
   \<exists>hs. scan_lines 50 (map line_text ls) st =
     Inr (st\<lparr>sc_handlers := hs, sc_num_requests := sc_num_requests st + int (length (filter is_served ls)),
             sc_records := \<lparr>os_text = os_text (sc_records st) @ concat (map line_row ls), os_width = 0\<rparr>\<rparr>)"
proof (induction ls arbitrary: st)
  case Nil
  then show ?case by (cases st; cases "sc_records st") auto
next
  case (Cons l ls)
  obtain hs where hs: "scan_line 50 (line_text l) st = scan_metrics 50 (line_text l) (st\<lparr>sc_handlers := hs\<rparr>)"
    unfolding scan_line_def Let_def
    by (cases "str_find ''all handlers:'' (line_text l)"; cases st) auto
  let ?st = "st\<lparr>sc_handlers := hs, sc_num_requests := sc_num_requests st + (if is_served l then 1 else 0),
            sc_records := \<lparr>os_text = os_text (sc_records st) @ line_row l, os_width = 0\<rparr>\<rparr>"
  have step: "scan_line 50 (line_text l) st = Inr ?st"
    unfolding hs using Cons.prems scan_metrics_row[of l "st\<lparr>sc_handlers := hs\<rparr>"] by simp
  obtain hs' where "scan_lines 50 (map line_text ls) ?st =
      Inr (?st\<lparr>sc_handlers := hs', sc_num_requests := sc_num_requests ?st + int (length (filter is_served ls)),
        sc_records := \<lparr>os_text = os_text (sc_records ?st) @ concat (map line_row ls), os_width = 0\<rparr>\<rparr>)"
    using Cons.IH[of ?st] Cons.prems by force
  with step show ?case by (auto simp: add.assoc)
qed

text \<open>The second part of the page for a log.\<close>

definition report_text :: "string \<Rightarrow> log_line list \<Rightarrow> string" where
  "report_text host ls =
     ''Total Requests: '' @ to_string (length (filter is_served ls)) @ [LF] @
     ''Current Host Name: '' @ host @ [LF, LF] @
     pad 50 ''requests URL'' @ ''response codes'' @ CRLF @ concat (map line_row ls)"

lemma records_report:
  assumes "env_log_dir e = Some fs" "env_host_name e = Some host" "log_lines e fs = map line_text ls"
    and "list_all line_ok ls" "list_all (\<lambda>l. length (line_text l) < 2 ^ 63) ls" "int (length ls) \<le> INT_MAX"
    and "interval_len s = Some 50"
  shows "\<exists>s'. get_request_records e s = Inr (report_text host ls, s')"
proof -
  let ?rec = "\<lparr>os_text = pad 50 ''requests URL'' @ ''response codes'' @ CRLF, os_width = 0\<rparr>"
  have rec: "put (''response codes'' @ CRLF) (put ''requests URL'' (setw 50 new_stream)) = ?rec"
    by (simp add: put_def setw_def new_stream_def pad_def)
  let ?st = "\<lparr>sc_handlers = all_handlers s, sc_records = ?rec, sc_num_requests = 0\<rparr>"
  obtain hs where "scan_lines 50 (map line_text ls) ?st =
      Inr (?st\<lparr>sc_handlers := hs, sc_num_requests := int (length (filter is_served ls)),
        sc_records := \<lparr>os_text = os_text ?rec @ concat (map line_row ls), os_width = 0\<rparr>\<rparr>)"
    using scan_lines_rows[of ls ?st] assms(4-6) by (auto simp: list_all_iff)
  then show ?thesis
    unfolding get_request_records_def assms(1,7) option.case rec Let_def scan_files_lines assms(3)
    using assms(2) by (simp add: report_text_def)
qed

text \<open>
  What the logger was asked to record: the metrics of a served request, or a record without the
  marker \<open>ResponseMetrics\<close>; and the row of the page for it.
\<close>

datatype log_entry = Metrics status_code string string string | Plain severity_level string

fun entry_record :: "log_entry \<Rightarrow> severity_level \<times> string" where
  "entry_record (Metrics code uri ip name) = (trace, metrics_message (code_name code) uri ip name)"
| "entry_record (Plain severity message) = (severity, message)"

fun entry_ok :: "log_entry \<Rightarrow> bool" where
  "entry_ok (Metrics code uri ip name) \<longleftrightarrow> CHR '' '' \<notin> set uri \<and> LF \<notin> set (uri @ ip @ name)"
| "entry_ok (Plain severity message) \<longleftrightarrow> LF \<notin> set message \<and> str_find ''ResponseMetrics'' message = None"

fun entry_row :: "log_entry \<Rightarrow> string" where
  "entry_row (Metrics code uri ip name) = pad 50 uri @ code_name code @ CRLF"
| "entry_row (Plain severity message) = []"

fun is_metrics :: "log_entry \<Rightarrow> bool" where
  "is_metrics (Metrics _ _ _ _) = True"
| "is_metrics (Plain _ _) = False"

definition page_report :: "string \<Rightarrow> log_entry list \<Rightarrow> string" where
  "page_report host es =
     ''Total Requests: '' @ to_string (length (filter is_metrics es)) @ [LF] @
     ''Current Host Name: '' @ host @ [LF, LF] @
     pad 50 ''requests URL'' @ ''response codes'' @ CRLF @ concat (map entry_row es)"

lemma printed_entry:
  assumes "formatter_ok fmt" "entry_ok en"
  shows "\<exists>l. line_text l = fmt COMMON_FMT (fst (entry_record en)) i (snd (entry_record en)) \<and> line_ok l \<and>
    line_row l = entry_row en \<and> is_served l = is_metrics en"
proof -
  obtain hdr where h: "fmt COMMON_FMT (fst (entry_record en)) i (snd (entry_record en)) = hdr @ snd (entry_record en)"
    "CHR ''R'' \<notin> set hdr" "LF \<notin> set hdr" using assms(1) unfolding formatter_ok_def by blast
  show ?thesis
  proof (cases en)
    case (Metrics code uri ip name)
    with h assms(2) show ?thesis by (intro exI[of _ "Served hdr code uri ip name"]) simp
  next
    case (Plain severity message)
    have "str_find ''ResponseMetrics'' (hdr @ message) = None"
      using h(2) assms(2) Plain by (simp add: str_find_skip)
    with h assms(2) Plain show ?thesis by (intro exI[of _ "Other (hdr @ message)"]) simp
  qed
qed

lemma printed_entries:
  "formatter_ok fmt \<Longrightarrow> list_all entry_ok es \<Longrightarrow>
   \<exists>ls. map line_text ls = map (\<lambda>(i, severity, message). fmt COMMON_FMT severity i message) (enumerate k (map entry_record es)) \<and>
     list_all line_ok ls \<and> concat (map line_row ls) = concat (map entry_row es) \<and>
     length (filter is_served ls) = length (filter is_metrics es)"
proof (induction es arbitrary: k)
  case (Cons en es)
  from Cons.IH[of "Suc k"] Cons.prems obtain ls where ls: "map line_text ls =
      map (\<lambda>(i, severity, message). fmt COMMON_FMT severity i message) (enumerate (Suc k) (map entry_record es))"
    "list_all line_ok ls" "concat (map line_row ls) = concat (map entry_row es)"
    "length (filter is_served ls) = length (filter is_metrics es)" by auto
  from printed_entry[of fmt en k] Cons.prems obtain l where
    "line_text l = fmt COMMON_FMT (fst (entry_record en)) k (snd (entry_record en))" "line_ok l"
    "line_row l = entry_row en" "is_served l = is_metrics en" by auto
  with ls show ?case by (intro exI[of _ "l # ls"]) (simp add: split_beta)
qed simp

text \<open>Log files, each with some of the lines.\<close>

lemma log_lines_files:
  "map (env_files_rw e) fs = map (\<lambda>p. Some (concat (map (\<lambda>l. l @ [LF]) p))) parts \<Longrightarrow>
   \<forall>l \<in> set (concat parts). LF \<notin> set l \<Longrightarrow> log_lines e fs = concat parts"
proof (induction fs arbitrary: parts)
  case (Cons f fs)
  then obtain p ps where p: "parts = p # ps" "env_files_rw e f = Some (concat (map (\<lambda>l. l @ [LF]) p))"
    "map (env_files_rw e) fs = map (\<lambda>p. Some (concat (map (\<lambda>l. l @ [LF]) p))) ps" by (cases parts) auto
  with Cons.IH[of ps] Cons.prems(2) show ?case by (simp add: log_lines_def getlines_concat)
qed (simp add: log_lines_def)

lemma file_lines_all:
  "file_lines fmt new_log_helper lg = map (\<lambda>(i, severity, message). fmt COMMON_FMT severity i message) (enumerate 1 lg)"
proof -
  have "filter (\<lambda>(severity, message). lc_filter new_log_helper severity) lg = lg" by (auto intro: filter_True)
  then show ?thesis by (simp add: file_lines_def) (simp add: new_log_helper_def)
qed

section \<open>Properties\<close>


definition number_formatter :: formatter where
  "number_formatter format severity i message = to_string i @ '' '' @ message"

lemma number_formatter_ok: "formatter_ok number_formatter"
proof -
  have "CHR ''R'' \<notin> set (to_string i)" "LF \<notin> set (to_string i)" for i
    using to_string_digits[of i] by (auto simp: list_all_iff is_dec_def)
  then show ?thesis
    unfolding formatter_ok_def number_formatter_def
    by (intro allI) (rule exI[where x = "to_string _ @ '' ''"], simp)
qed


end
