(* ===== verification/Connection.thy ===== *)
theory Connection
  imports Response
begin

text \<open>
  A connection (\<open>connection.h\<close>, \<open>connection.cc\<close>): the socket with its outstanding read and
  writes, and the timer of the read.  The operations of the class are functions on its state; what
  boost.asio and the network do between them (the timer expires, bytes leave, the peer goes away)
  is the relation \<open>net_step\<close>.  The theory shows when the bytes on the wire are the responses
  in order.
\<close>

section \<open>State and operations\<close>

text \<open>
  \<open>co_open\<close>: the socket was not closed by the program; \<open>co_peer\<close>: the peer did not reset the
  connection; \<open>co_reading\<close>: an \<open>async_read_some\<close> is outstanding; \<open>co_armed\<close>: a wait on the
  timer is outstanding; \<open>co_timeouts\<close>: the calls of \<open>timeout\<close> that wait in the strand, oldest
  first, each with its error code (\<^const>\<open>True\<close> when the wait was cancelled); \<open>co_writes\<close>: for
  every outstanding \<open>async_write\<close>, oldest first, the bytes it has still to send; \<open>co_wire\<close>: all
  bytes sent.
\<close>

record tcp_connection =
  co_open :: bool
  co_peer :: bool
  co_reading :: bool
  co_armed :: bool
  co_timeouts :: "bool list"
  co_writes :: "string list"
  co_wire :: string

definition new_connection :: tcp_connection where
  "new_connection = \<lparr>co_open = True, co_peer = True, co_reading = False, co_armed = False,
     co_timeouts = [], co_writes = [], co_wire = []\<rparr>"

lemma new_connection_simps [simp]:
  "co_open new_connection" "co_peer new_connection" "\<not> co_reading new_connection" "\<not> co_armed new_connection"
  "co_timeouts new_connection = []" "co_writes new_connection = []" "co_wire new_connection = []"
  by (simp_all add: new_connection_def)

text \<open>\<open>timeout\<close> of a connection: nothing when the wait was cancelled.\<close>

definition conn_timeout :: "bool \<Rightarrow> tcp_connection \<Rightarrow> tcp_connection" where
  "conn_timeout e c = (if e then c else c\<lparr>co_open := False\<rparr>)"

text \<open>\<open>expires_from_now\<close> cancels a wait that is still outstanding, whose handler is then queued
  with an error; a wait that has expired already is not affected.\<close>

definition expires_from_now :: "tcp_connection \<Rightarrow> tcp_connection" where
  "expires_from_now c = c\<lparr>co_timeouts := co_timeouts c @ (if co_armed c then [True] else []), co_armed := False\<rparr>"

definition conn_read :: "tcp_connection \<Rightarrow> tcp_connection" where
  "conn_read c = (expires_from_now c)\<lparr>co_armed := True, co_reading := True\<rparr>"

definition async_write :: "string \<Rightarrow> tcp_connection \<Rightarrow> tcp_connection" where
  "async_write bytes c = c\<lparr>co_writes := co_writes c @ [bytes]\<rparr>"

definition conn_write :: "response_builder \<Rightarrow> tcp_connection \<Rightarrow> tcp_connection result" where
  "conn_write res_build c = and_then (build res_build) (\<lambda>(bufs, _). Inr (async_write (concat bufs) c))"

text \<open>The handlers that remain queued when a connection is destroyed: its destructor destroys the
  timer, which cancels an outstanding wait.\<close>

definition conn_orphans :: "tcp_connection \<Rightarrow> bool list" where
  "conn_orphans c = co_timeouts (expires_from_now c)"

section \<open>The network\<close>

definition conn_alive :: "tcp_connection \<Rightarrow> bool" where
  "conn_alive c \<longleftrightarrow> co_open c \<and> co_peer c"

definition conn_sent :: "nat \<Rightarrow> nat \<Rightarrow> tcp_connection \<Rightarrow> tcp_connection" where
  "conn_sent i k c = c\<lparr>co_wire := co_wire c @ take k (co_writes c ! i),
                       co_writes := (co_writes c)[i := drop k (co_writes c ! i)]\<rparr>"

text \<open>A composed write is over when all its bytes are sent, or when the connection is lost.\<close>

definition write_over :: "nat \<Rightarrow> tcp_connection \<Rightarrow> bool" where
  "write_over i c \<longleftrightarrow> i < length (co_writes c) \<and> (co_writes c ! i = [] \<or> \<not> conn_alive c)"

definition conn_written :: "nat \<Rightarrow> tcp_connection \<Rightarrow> tcp_connection" where
  "conn_written i c = c\<lparr>co_writes := take i (co_writes c) @ drop (Suc i) (co_writes c)\<rparr>"

inductive net_step :: "tcp_connection \<Rightarrow> tcp_connection \<Rightarrow> bool" where
  expire: "co_armed c \<Longrightarrow> net_step c (c\<lparr>co_armed := False, co_timeouts := co_timeouts c @ [False]\<rparr>)"
| sent: "conn_alive c \<Longrightarrow> i < length (co_writes c) \<Longrightarrow> net_step c (conn_sent i k c)"
| reset_by_peer: "net_step c (c\<lparr>co_peer := False\<rparr>)"

inductive_cases net_stepE: "net_step c c'"

lemmas conn_defs = conn_timeout_def expires_from_now_def conn_read_def async_write_def conn_written_def
  conn_sent_def conn_alive_def

section \<open>The order of responses\<close>

text \<open>All outstanding writes but the newest have sent their bytes, and what was sent is an initial
  piece of the responses \<open>bs\<close>; on a connection that is up, what is still to be sent completes them.\<close>

definition in_order :: "tcp_connection \<Rightarrow> string list \<Rightarrow> bool" where
  "in_order c bs \<longleftrightarrow> concat (butlast (co_writes c)) = [] \<and> prefix (co_wire c) (concat bs) \<and>
     (conn_alive c \<longrightarrow> co_wire c @ concat (co_writes c) = concat bs)"

lemma in_order_sent:
  assumes "in_order c bs" "conn_alive c" "i < length (co_writes c)"
  shows "in_order (conn_sent i k c) bs"
proof (cases "i = length (co_writes c) - 1")
  case True
  obtain ws w where w: "co_writes c = ws @ [w]" using assms(3) by (cases "co_writes c" rule: rev_cases) auto
  with True have i: "i = length ws" by simp
  have ws: "concat ws = []" using assms(1) w by (simp add: in_order_def)
  then have e: "\<forall>x \<in> set ws. x = []" by simp
  have "concat bs = (co_wire c @ take k w) @ drop k w" using assms(1,2) w by (simp add: in_order_def ws)
  then show ?thesis using w i e by (simp add: in_order_def conn_sent_def conn_alive_def ws take_is_prefix)
next
  case False
  then have "co_writes c ! i \<in> set (butlast (co_writes c))"
    using assms(3) by (metis in_set_conv_nth length_butlast nth_butlast less_Suc_eq Suc_pred' length_greater_0_conv list.size(3) not_less_zero diff_Suc_1)
  then have "co_writes c ! i = []" using assms(1) by (simp add: in_order_def)
  then have "conn_sent i k c = c"
    using list_update_id[of "co_writes c" i] by (cases c) (simp add: conn_sent_def)
  with assms(1) show ?thesis by simp
qed

lemma in_order_net: "in_order c bs \<Longrightarrow> net_step c c' \<Longrightarrow> in_order c' bs"
  by (auto elim!: net_stepE intro: in_order_sent) (auto simp: in_order_def conn_alive_def)

lemma in_order_written:
  assumes "in_order c bs" "write_over i c"
  shows "in_order (conn_written i c) bs"
proof -
  let ?a = "take i (co_writes c)" and ?b = "drop (Suc i) (co_writes c)"
  have ws: "co_writes c = ?a @ co_writes c ! i # ?b"
    using assms(2) by (intro id_take_nth_drop) (simp add: write_over_def)
  have "concat (butlast (?a @ co_writes c ! i # ?b)) = []" using assms(1) ws by (simp add: in_order_def)
  then have "concat (butlast (?a @ ?b)) = []"
    by (cases "?b = []") (auto simp: butlast_append dest: in_set_butlastD)
  moreover have "concat (?a @ ?b) = concat (co_writes c)" if "conn_alive c"
    using assms(2) that by (subst (3) ws) (simp add: write_over_def)
  ultimately show ?thesis using assms(1) by (auto simp: in_order_def conn_written_def conn_alive_def)
qed

lemma in_order_timeout: "in_order c bs \<Longrightarrow> in_order (conn_timeout ec (c\<lparr>co_timeouts := ecs\<rparr>)) bs"
  by (auto simp: in_order_def conn_timeout_def conn_alive_def)

text \<open>Two outstanding writes: the second may overtake the rest of the first.\<close>

lemma writes_mix:
  assumes "conn_alive c" "co_writes c = [x # xs, b]"
  shows "\<exists>c1 c2 c3. net_step c c1 \<and> net_step c1 c2 \<and> net_step c2 c3 \<and> conn_alive c3 \<and>
    co_writes c3 = [[], []] \<and> co_wire c3 = co_wire c @ x # b @ xs"
proof -
  let ?c1 = "conn_sent 0 1 c" and ?c2 = "conn_sent 1 (length b) (conn_sent 0 1 c)"
  let ?c3 = "conn_sent 0 (length xs) ?c2"
  have "net_step c ?c1" by (rule net_step.sent) (use assms in simp_all)
  moreover have "net_step ?c1 ?c2" by (rule net_step.sent) (use assms in \<open>simp_all add: conn_sent_def conn_alive_def\<close>)
  moreover have "net_step ?c2 ?c3" by (rule net_step.sent) (use assms in \<open>simp_all add: conn_sent_def conn_alive_def\<close>)
  moreover have "conn_alive ?c3 \<and> co_writes ?c3 = [[], []] \<and> co_wire ?c3 = co_wire c @ x # b @ xs"
    using assms by (simp add: conn_sent_def conn_alive_def)
  ultimately show ?thesis by blast
qed

end
