(* ===== verification/Session.thy ===== *)
theory Session
  imports Proxy_Correct Static_Handler Status_Handler Connection
begin

text \<open>
  The session (\<open>session.h\<close>, \<open>session.cc\<close>) on its connection: the virtual call of a handler, the dispatcher \<open>process_req\<close> with its
  response cache, and the loop that cuts received data into requests.  The state that sessions
  share (location table, cache, log) is a record that the operations thread.
\<close>

section \<open>Handlers behind the common interface\<close>

datatype request_handler =
    EchoHandler
  | HealthHandler
  | NotFoundHandler
  | StaticHandler static_request_handler
  | StatusHandler status_request_handler
  | ProxyHandler reverse_proxy_request_handler

text \<open>\<open>init\<close> of the handlers that need neither location nor configuration.\<close>

definition echo_init :: "string \<Rightarrow> NginxConfig \<Rightarrow> request_handler" where
  "echo_init location_path conf = EchoHandler"

definition health_init :: "string \<Rightarrow> NginxConfig \<Rightarrow> request_handler" where
  "health_init location_path conf = HealthHandler"

definition not_found_init :: "string \<Rightarrow> NginxConfig \<Rightarrow> request_handler" where
  "not_found_init location_path conf = NotFoundHandler"

definition status_init :: "string \<Rightarrow> NginxConfig \<Rightarrow> request_handler" where
  "status_init location_path conf = StatusHandler new_status_request_handler"

lemmas init_defs [simp] = echo_init_def health_init_def not_found_init_def status_init_def

text \<open>The name each class returns, and the virtual call.\<close>

definition echo_get_handler_name :: string where "echo_get_handler_name = ''EchoHandler''"

definition health_get_handler_name :: string where "health_get_handler_name = ''HealthHandler''"

definition not_found_get_handler_name :: string where "not_found_get_handler_name = ''NotFoundHandler''"

definition static_get_handler_name :: string where "static_get_handler_name = ''StaticHandler''"

definition status_get_handler_name :: string where "status_get_handler_name = ''StatusHandler''"

definition proxy_get_handler_name :: string where "proxy_get_handler_name = ''ProxyHandler''"

lemmas name_defs [simp] = echo_get_handler_name_def health_get_handler_name_def not_found_get_handler_name_def
  static_get_handler_name_def status_get_handler_name_def proxy_get_handler_name_def

fun get_handler_name :: "request_handler \<Rightarrow> string" where
  "get_handler_name EchoHandler = echo_get_handler_name"
| "get_handler_name HealthHandler = health_get_handler_name"
| "get_handler_name NotFoundHandler = not_found_get_handler_name"
| "get_handler_name (StaticHandler _) = static_get_handler_name"
| "get_handler_name (StatusHandler _) = status_get_handler_name"
| "get_handler_name (ProxyHandler _) = proxy_get_handler_name"

type_synonym handler_state = "upstream \<times> request_handler \<times> world"

text \<open>A result of a handler that leaves the world alone.\<close>

definition local_result ::
  "upstream \<Rightarrow> world \<Rightarrow> ('st \<Rightarrow> request_handler) \<Rightarrow> (response \<times> 'st) result \<Rightarrow>
   (response \<times> handler_state) result option" where
  "local_result up w con r = Some (and_then r (\<lambda>(res, s). Inr (res, (up, con s, w))))"

fun handle_request ::
  "env \<Rightarrow> handler_state \<Rightarrow> request \<Rightarrow> (response \<times> handler_state) result option" where
  "handle_request e (up, EchoHandler, w) req =
     local_result up w (\<lambda>_. EchoHandler) (echo_handle_request e () req)"
| "handle_request e (up, HealthHandler, w) req =
     local_result up w (\<lambda>_. HealthHandler) (health_handle_request e () req)"
| "handle_request e (up, NotFoundHandler, w) req =
     local_result up w (\<lambda>_. NotFoundHandler) (not_found_handle_request e () req)"
| "handle_request e (up, StaticHandler s, w) req =
     local_result up w StaticHandler (static_handle_request e s req)"
| "handle_request e (up, StatusHandler s, w) req =
     local_result up w StatusHandler (status_handle_request e s req)"
| "handle_request e (up, ProxyHandler px, w) req =
     map_option (\<lambda>r. and_then r (\<lambda>(res, (up', px', w')). Inr (res, (up', ProxyHandler px', w'))))
       (proxy_step e (up, px, w) req)"

fun handler_ok :: "request_handler \<Rightarrow> bool" where
  "handler_ok (StaticHandler s) = static_inv s"
| "handler_ok (ProxyHandler px) = proxy_inv px"
| "handler_ok _ = True"

text \<open>The requests a handler answers whatever its state: the status page needs a log that can be
  read, the proxy an upstream side that answers without redirects.\<close>

fun can_answer :: "env \<Rightarrow> upstream \<Rightarrow> request \<Rightarrow> request_handler \<Rightarrow> bool" where
  "can_answer e up req (StaticHandler s) \<longleftrightarrow> int (length (rq_uri req)) \<le> INT_MAX"
| "can_answer e up req (StatusHandler s) \<longleftrightarrow> log_readable e"
| "can_answer e up req (ProxyHandler px) \<longleftrightarrow> direct_net up \<and> rq_method req \<noteq> INVALID \<and> rq_uri req \<noteq> [] \<and>
     int (length (rq_uri req)) < INT_MAX"
| "can_answer e up req _ \<longleftrightarrow> True"

lemma local_result_Inr [simp]:
  "local_result up w con r = Some (Inr (res, s')) \<longleftrightarrow> (\<exists>s. r = Inr (res, s) \<and> s' = (up, con s, w))"
  by (auto simp: local_result_def)

lemma handle_request_wf:
  assumes "env_ok e" "net_ok up" "handler_ok h" "handle_request e (up, h, w) req = Some (Inr (res, s'))"
  shows "wf_response res \<and> (\<exists>h' w'. s' = (up, h', w') \<and> handler_ok h')"
proof (cases h)
  case (ProxyHandler px)
  with assms(4) obtain up' px' w' where p: "proxy_step e (up, px, w) req = Some (Inr (res, (up', px', w')))"
    "s' = (up', ProxyHandler px', w')" by auto
  then have "up' = up" by (auto simp: proxy_step_def)
  with p proxy_direct.handle_wf[OF assms(1) _ p(1)] assms(2,3) ProxyHandler show ?thesis by auto
next
  case EchoHandler
  with assms(4) show ?thesis using echo.handle_wf[OF assms(1), of "()" req res "()"] by auto
next
  case HealthHandler
  with assms(4) show ?thesis using health.handle_wf[OF assms(1), of "()" req res "()"] by auto
next
  case NotFoundHandler
  with assms(4) show ?thesis using not_found.handle_wf[OF assms(1), of "()" req res "()"] by auto
next
  case (StaticHandler s)
  with assms(3,4) show ?thesis using static.handle_wf[OF assms(1), of s req res] by auto
next
  case (StatusHandler s)
  with assms(4) show ?thesis using status.handle_wf[OF assms(1), of s req res] by auto
qed

lemma handle_request_total:
  assumes "env_ok e" "net_ok up" "handler_ok h" "can_answer e up req h"
  shows "\<exists>res s'. handle_request e (up, h, w) req = Some (Inr (res, s'))"
proof (cases h)
  case EchoHandler
  then show ?thesis using echo.handle_total[OF assms(1), of "()" req] by (auto simp: local_result_def)
next
  case HealthHandler
  then show ?thesis using health.handle_total[OF assms(1), of "()" req] by (auto simp: local_result_def)
next
  case NotFoundHandler
  then show ?thesis using not_found.handle_total[OF assms(1), of "()" req] by (auto simp: local_result_def)
next
  case (StaticHandler s)
  with assms static.handle_total[OF assms(1), of s req] show ?thesis by (auto simp: local_result_def)
next
  case (StatusHandler s)
  with assms status.handle_total[OF assms(1), of s req] show ?thesis by (auto simp: local_result_def)
next
  case (ProxyHandler px)
  with assms proxy_direct.handle_total[OF assms(1), of "(up, px, w)" req] show ?thesis by auto
qed

interpretation dispatch: total_handler handle_request "\<lambda>(up, h, w). net_ok up \<and> handler_ok h"
  "\<lambda>e s req. can_answer e (fst s) req (fst (snd s))"
proof unfold_locales
  fix e s req res s'
  assume "env_ok e" "case s of (up, h, w) \<Rightarrow> net_ok up \<and> handler_ok h" "handle_request e s req = Some (Inr (res, s'))"
  then show "wf_response res \<and> (case s' of (up, h, w) \<Rightarrow> net_ok up \<and> handler_ok h)"
    by (cases s) (auto dest: handle_request_wf)
next
  fix e and s :: handler_state and req
  assume "env_ok e" "case s of (up, h, w) \<Rightarrow> net_ok up \<and> handler_ok h" "can_answer e (fst s) req (fst (snd s))"
  then show "\<exists>res s'. handle_request e s req = Some (Inr (res, s'))"
    using handle_request_total[of e "fst s" "fst (snd s)" req "snd (snd s)"] by (cases s) simp
qed

section \<open>The dispatcher\<close>

text \<open>The state that all sessions of a server share.\<close>

record shared =
  sv_handlers :: "(string, request_handler) entries"
  sv_cache :: "string \<rightharpoonup> response"
  sv_world :: world

text \<open>The test of one location in the loop of \<open>process_req\<close>.\<close>

definition location_matches :: "string \<Rightarrow> string \<Rightarrow> bool result" where
  "location_matches uri key =
     (let skip = (if length uri > length key
                  then and_then (compare_eq uri (size_minus (length key) 1) 1 ''/'') (\<lambda>eq. Inr (\<not> eq))
                  else Inr False) in
      and_then skip (\<lambda>skipped.
        if skipped then Inr False
        else and_then (substr key 0 (size_minus (length key) 1)) (\<lambda>base.
               compare_eq uri 0 (size_minus (length key) 1) base)))"

fun match_loop :: "string \<Rightarrow> string list \<Rightarrow> bool \<times> int \<times> string \<Rightarrow> (bool \<times> int \<times> string) result" where
  "match_loop uri [] best = Inr best"
| "match_loop uri (key # keys) (matched, max_matched_length, max_matched_key) =
     and_then (location_matches uri key) (\<lambda>m.
       match_loop uri keys
         (if m then
            (if size_of_int max_matched_length < length key
             then (True, int_of_size (length key), key)
             else (True, max_matched_length, max_matched_key))
          else (matched, max_matched_length, max_matched_key)))"

text \<open>The peer's endpoint as the queries made while one request is handled see it, in order.\<close>

type_synonym peer = "nat \<Rightarrow> endpoint"

definition replace_handler :: "string \<Rightarrow> request_handler \<Rightarrow> (string, request_handler) entries \<Rightarrow> (string, request_handler) entries" where
  "replace_handler key h m = map (\<lambda>(k, x). if k = key then (k, h) else (k, x)) m"

text \<open>The parts of \<open>process_req\<close>, separated at its accesses to the state that sessions share: the
  look-up in the cache, the selection of a location, the call of its handler, and the update of the
  cache with the metrics record.\<close>

definition lookup_req :: "request \<Rightarrow> shared \<Rightarrow> response_builder option" where
  "lookup_req req st =
     (if rq_uri req \<noteq> ''/status''
      then map_option (\<lambda>res. set_response res new_builder) (sv_cache st (rq_uri req))
      else None)"

definition select_location :: "request \<Rightarrow> shared \<Rightarrow> (bool \<times> int \<times> string) result" where
  "select_location req st =
     (if rq_method req \<noteq> INVALID
      then match_loop (rq_uri req) (map fst (sv_handlers st)) (False, 0, [])
      else Inr (False, 0, []))"

definition handle_selected ::
  "env \<Rightarrow> upstream \<Rightarrow> string \<Rightarrow> request \<Rightarrow> shared \<Rightarrow> (response \<times> shared) result option" where
  "handle_selected e up key req st =
     (case map_find (sv_handlers st) key of
        None \<Rightarrow> Some (Inl Throw_out_of_range)
      | Some h \<Rightarrow>
          map_option (\<lambda>r. and_then r (\<lambda>(res, (up', h', w)).
            Inr (res, st\<lparr>sv_handlers := replace_handler key h' (sv_handlers st), sv_world := w\<rparr>)))
            (handle_request e (up, h, sv_world st) req))"

definition store_response ::
  "peer \<Rightarrow> string \<Rightarrow> request \<Rightarrow> response \<Rightarrow> shared \<Rightarrow> (response_builder \<times> shared) result" where
  "store_response peer key req res st =
     (case map_find (sv_handlers st) key of
        None \<Rightarrow> Inl Throw_out_of_range
      | Some h \<Rightarrow>
          and_then (log_metrics req res (peer 2) (peer 3) (get_handler_name h) (w_log (sv_world st))) (\<lambda>lg.
            Inr (set_response res new_builder,
                 st\<lparr>sv_cache := (sv_cache st)(rq_uri req \<mapsto> res),
                    sv_world := (sv_world st)\<lparr>w_log := lg\<rparr>\<rparr>)))"

definition run_selected ::
  "env \<Rightarrow> upstream \<Rightarrow> peer \<Rightarrow> string \<Rightarrow> request \<Rightarrow> shared \<Rightarrow> (response_builder \<times> shared) result option" where
  "run_selected e up peer key req st =
     map_option (\<lambda>x. and_then x (\<lambda>(res, st'). store_response peer key req res st'))
       (handle_selected e up key req st)"

definition process_req ::
  "env \<Rightarrow> upstream \<Rightarrow> peer \<Rightarrow> request \<Rightarrow> shared \<Rightarrow> (response_builder \<times> shared) result option" where
  "process_req e up peer req st =
     (case lookup_req req st of
        Some res_build \<Rightarrow> Some (Inr (res_build, st))
      | None \<Rightarrow>
          (case select_location req st of
             Inl err \<Rightarrow> Some (Inl err)
           | Inr (matched, _, max_matched_key) \<Rightarrow>
               if matched then run_selected e up peer max_matched_key req st
               else Some (Inr (make_400_error new_builder, st))))"

lemma map_find_replace:
  "map_find m key = Some h \<Longrightarrow> map_find (replace_handler key h' m) key = Some h'"
  by (induction m) (auto simp: map_find_def replace_handler_def split: if_splits)

text \<open>The whole call in one piece.\<close>

lemma run_selected_eq:
  "run_selected e up peer key req st =
     (case map_find (sv_handlers st) key of
        None \<Rightarrow> Some (Inl Throw_out_of_range)
      | Some h \<Rightarrow>
          map_option (\<lambda>r. and_then r (\<lambda>(res, (up', h', w)).
            and_then (log_metrics req res (peer 2) (peer 3) (get_handler_name h') (w_log w)) (\<lambda>lg.
              Inr (set_response res new_builder,
                   \<lparr>sv_handlers = replace_handler key h' (sv_handlers st),
                    sv_cache = (sv_cache st)(rq_uri req \<mapsto> res),
                    sv_world = w\<lparr>w_log := lg\<rparr>\<rparr>))))
            (handle_request e (up, h, sv_world st) req))"
proof (cases "map_find (sv_handlers st) key")
  case (Some h)
  note found = map_find_replace[OF Some]
  show ?thesis
    by (cases "handle_request e (up, h, sv_world st) req"; cases st)
      (use Some found in \<open>auto simp: run_selected_def handle_selected_def store_response_def and_then_def split: sum.splits prod.splits\<close>)
qed (simp add: run_selected_def handle_selected_def)

lemma process_req_eq:
  "process_req e up peer req st =
     (case (if rq_uri req \<noteq> ''/status'' then sv_cache st (rq_uri req) else None) of
        Some res \<Rightarrow> Some (Inr (set_response res new_builder, st))
      | None \<Rightarrow>
          (case (if rq_method req \<noteq> INVALID
                 then match_loop (rq_uri req) (map fst (sv_handlers st)) (False, 0, [])
                 else Inr (False, 0, [])) of
             Inl err \<Rightarrow> Some (Inl err)
           | Inr (matched, _, max_matched_key) \<Rightarrow>
               if matched then run_selected e up peer max_matched_key req st
               else Some (Inr (make_400_error new_builder, st))))"
  by (auto simp: process_req_def lookup_req_def select_location_def split: option.splits)

section \<open>Receiving data\<close>

text \<open>
  The loop of \<open>received_req\<close> over the bytes of one read: the requests found so far, the parser
  and the request under construction.  The first \<open>parse\<close> of a turn always starts at the
  beginning of the buffer.  \<^const>\<open>None\<close> is a loop that does not end.
\<close>

partial_function (option) receive_loop ::
  "string \<Rightarrow> request list \<Rightarrow> request_parser \<Rightarrow> request \<Rightarrow>
   (request list \<times> request_parser \<times> request) result option" where
  "receive_loop data requests p req =
     (case parse p req data of
        Inl err \<Rightarrow> Some (Inl err)
      | Inr ((rt, n, bl), p1, req1) \<Rightarrow>
          if rt \<noteq> indeterminate then
            (if int n + bl < 0 \<or> int n + bl > int (length data) then Some (Inl UB_buffer)
             else (case parse (reset p1) empty_request (drop (nat (int n + bl)) data) of
                     Inl err \<Rightarrow> Some (Inl err)
                   | Inr ((rt2, n2, bl2), p2, req2) \<Rightarrow>
                       if int n + bl + int n2 + bl2 < int (length data)
                       then receive_loop data (requests @ [req1]) p2 req2
                       else Some (Inr (requests @ [req1], p2, req2))))
          else if int n + bl < int (length data) then receive_loop data requests p1 req1
          else Some (Inr (requests, p1, req1)))"

text \<open>A session: the request under construction, its parser and its connection.\<close>

record session =
  ses_request :: request
  ses_parser :: request_parser
  ses_connection :: tcp_connection

definition new_session :: "tcp_connection \<Rightarrow> session" where
  "new_session c = \<lparr>ses_request = empty_request, ses_parser = new_parser, ses_connection = c\<rparr>"

definition max_len :: nat where "max_len = 8192"

definition session_start :: "session \<Rightarrow> session" where
  "session_start ses = ses\<lparr>ses_connection := conn_read (ses_connection ses)\<rparr>"

definition wait_for_req :: "session \<Rightarrow> session" where
  "wait_for_req ses = ses\<lparr>ses_connection := conn_read (ses_connection ses)\<rparr>"

text \<open>\<open>thread_work\<close>: the response is computed and its write is started.\<close>

definition thread_work ::
  "env \<Rightarrow> upstream \<Rightarrow> peer \<Rightarrow> request \<Rightarrow> session \<times> shared \<Rightarrow> (session \<times> shared) result option" where
  "thread_work e up peer r s =
     (case s of (ses, st) \<Rightarrow>
        map_option (\<lambda>x. and_then x (\<lambda>(res_build, st').
          and_then (conn_write res_build (ses_connection ses)) (\<lambda>c.
            Inr (ses\<lparr>ses_connection := c\<rparr>, st'))))
          (process_req e up peer r st))"

text \<open>The loop over the requests; the peer's answers are numbered by request.\<close>

fun work_all ::
  "env \<Rightarrow> upstream \<Rightarrow> (nat \<Rightarrow> peer) \<Rightarrow> nat \<Rightarrow> request list \<Rightarrow> session \<times> shared \<Rightarrow> (session \<times> shared) result option" where
  "work_all e up peers i [] s = Some (Inr s)"
| "work_all e up peers i (r # rs) (ses, st) =
     (case log_request_info r (peers i 0) (peers i 1) (w_log (sv_world st)) of
        Inl err \<Rightarrow> Some (Inl err)
      | Inr lg \<Rightarrow>
          Option.bind (thread_work e up (peers i) r (ses, st\<lparr>sv_world := (sv_world st)\<lparr>w_log := lg\<rparr>\<rparr>)) (\<lambda>x.
            case x of Inl err \<Rightarrow> Some (Inl err) | Inr s' \<Rightarrow> work_all e up peers (Suc i) rs s'))"

text \<open>
  \<open>received_req\<close>: with an error nothing happens and no read is started again; otherwise the
  requests are served and \<open>wait_for_req\<close> starts the next read.
\<close>

definition received_req ::
  "env \<Rightarrow> upstream \<Rightarrow> (nat \<Rightarrow> peer) \<Rightarrow> bool \<Rightarrow> string \<Rightarrow> session \<times> shared \<Rightarrow> (session \<times> shared) result option" where
  "received_req e up peers failed data s =
     (if failed then Some (Inr s)
      else case s of (ses, st) \<Rightarrow>
        Option.bind (receive_loop data [] (ses_parser ses) (ses_request ses)) (\<lambda>x.
          case x of
            Inl err \<Rightarrow> Some (Inl err)
          | Inr (requests, p, req) \<Rightarrow>
              map_option (\<lambda>y. and_then y (\<lambda>(ses', st'). Inr (wait_for_req ses', st')))
                (work_all e up peers 0 requests (ses\<lparr>ses_parser := p, ses_request := req\<rparr>, st))))"

definition completed_request :: "shared \<Rightarrow> shared" where
  "completed_request st = st\<lparr>sv_world := (sv_world st)\<lparr>w_log := log_response_sent (w_log (sv_world st))\<rparr>\<rparr>"

end
