(* ===== verification/Session_Correct.thy ===== *)
theory Session_Correct
  imports Session
begin

text \<open>
  Correctness of the dispatcher and of the receive loop: which locations a URI selects, that the
  longest one wins, that every response that leaves a session can be read back by a client, what
  the cache returns, and what becomes of complete and of pipelined requests.
\<close>

section \<open>Locations\<close>

text \<open>What the test accepts: the location less its last character, alone, followed by any single
  character, or followed by a slash and anything.\<close>

definition below :: "string \<Rightarrow> string \<Rightarrow> bool" where
  "below base uri \<longleftrightarrow> uri = base \<or> (\<exists>d. uri = base @ [d]) \<or> prefix (base @ ''/'') uri"

lemma prefix_take: "prefix t s \<longleftrightarrow> take (length t) s = t"
  by (metis append_eq_conv_conj prefix_def take_is_prefix)

lemma location_matches_below:
  assumes "key \<noteq> []" "length key < 2 ^ 64"
  shows "location_matches uri key = Inr (below (butlast key) uri)"
proof -
  obtain base c where key: "key = base @ [c]" using assms(1) by (cases key rule: rev_exhaust) auto
  have n: "size_minus (length key) 1 = length base" using assms(2) key by (simp add: size_minus_le)
  have b: "substr key 0 (length base) = Inr base" by (simp add: substr_def key)
  have long: "take (length base) uri = base \<and> take 1 (drop (length base) uri) = ''/'' \<longleftrightarrow> below base uri"
    if "length uri > length key"
  proof -
    have "prefix (base @ ''/'') uri \<longleftrightarrow> take (length base + 1) uri = base @ ''/''"
      by (simp add: prefix_take)
    also have "\<dots> \<longleftrightarrow> take (length base) uri = base \<and> take 1 (drop (length base) uri) = ''/''"
    proof -
      have "length (take (length base) uri) = length base" using that key by simp
      then show ?thesis unfolding take_add by (intro append_eq_append_conv disjI1)
    qed
    finally show ?thesis using that by (auto simp: below_def key)
  qed
  have short: "take (length base) uri = base \<longleftrightarrow> below base uri" if "\<not> length uri > length key"
  proof
    assume t: "take (length base) uri = base"
    then have u: "uri = base @ drop (length base) uri" by (metis append_take_drop_id)
    moreover have "length (drop (length base) uri) \<le> 1" using that key by simp
    ultimately show "below base uri"
      unfolding below_def by (metis append_Nil2 le_Suc_eq length_0_conv length_Suc_conv One_nat_def le_0_eq)
  qed (auto simp: below_def prefix_def)
  have pos: "length base \<le> length uri" if "length uri > length key" using that key by simp
  have bl: "butlast key = base" by (simp add: key)
  show ?thesis
  proof (cases "length uri > length key")
    case True
    with pos long show ?thesis
      unfolding location_matches_def n b Let_def bl by (auto simp: compare_eq_def)
  next
    case False
    with short show ?thesis
      unfolding location_matches_def n b Let_def bl by (simp add: compare_eq_def)
  qed
qed

text \<open>The loop keeps the longest location that matches, the first of several.\<close>

lemma match_loop_best:
  "\<forall>k \<in> set keys. k \<noteq> [] \<and> int (length k) \<le> INT_MAX \<Longrightarrow> int (length k0) \<le> INT_MAX \<Longrightarrow> (\<not> m0 \<longrightarrow> k0 = []) \<Longrightarrow>
   \<exists>m k. match_loop uri keys (m0, int (length k0), k0) = Inr (m, int (length k), k) \<and>
     (m \<longleftrightarrow> m0 \<or> (\<exists>x \<in> set keys. below (butlast x) uri)) \<and>
     (k = k0 \<or> k \<in> set keys \<and> below (butlast k) uri) \<and> length k0 \<le> length k \<and>
     (\<forall>x \<in> set keys. below (butlast x) uri \<longrightarrow> length x \<le> length k)"
proof (induction keys arbitrary: m0 k0)
  case Nil
  then show ?case by simp
next
  case (Cons x keys)
  have x: "x \<noteq> []" "int (length x) \<le> INT_MAX" using Cons.prems(1) by simp_all
  have mx: "location_matches uri x = Inr (below (butlast x) uri)"
    using x by (intro location_matches_below) (simp_all add: INT_MAX_def)
  have sz: "size_of_int (int (length k0)) = length k0"
    using Cons.prems(2) by (simp add: size_of_int_nonneg INT_MAX_def)
  have il: "int_of_size (length x) = int (length x)" using x(2) by (rule int_of_size_small)
  show ?case
  proof (cases "below (butlast x) uri")
    case False
    with Cons.IH[of k0 m0] Cons.prems mx show ?thesis by auto
  next
    case True
    show ?thesis
    proof (cases "length k0 < length x")
      case longer: True
      have step: "match_loop uri (x # keys) (m0, int (length k0), k0) = match_loop uri keys (True, int (length x), x)"
        using mx True longer sz il by simp
      from Cons.IH[of x True] Cons.prems(1) x(2) obtain m k where
        r: "match_loop uri keys (True, int (length x), x) = Inr (m, int (length k), k)" "m"
        "k = x \<or> k \<in> set keys \<and> below (butlast k) uri" "length x \<le> length k"
        "\<forall>x \<in> set keys. below (butlast x) uri \<longrightarrow> length x \<le> length k" by auto
      show ?thesis unfolding step r(1) using r longer True by auto
    next
      case False
      with Cons.IH[of k0 True] Cons.prems(1,2) True mx sz x show ?thesis by (auto intro: order_trans)
    qed
  qed
qed

definition keys_ok :: "(string, 'a) entries \<Rightarrow> bool" where
  "keys_ok m \<longleftrightarrow> list_all (\<lambda>k. k \<noteq> [] \<and> int (length k) \<le> INT_MAX) (map fst m)"

lemma match_loop_total:
  assumes "keys_ok m"
  obtains matched k where "match_loop uri (map fst m) (False, 0, []) = Inr (matched, int (length k), k)"
    "matched \<longleftrightarrow> (\<exists>x \<in> fst ` set m. below (butlast x) uri)"
    "matched \<Longrightarrow> k \<in> fst ` set m \<and> below (butlast k) uri"
    "\<forall>x \<in> fst ` set m. below (butlast x) uri \<longrightarrow> length x \<le> length k"
proof -
  have keys: "\<forall>k \<in> set (map fst m). k \<noteq> [] \<and> int (length k) \<le> INT_MAX"
    using assms by (simp add: keys_ok_def list_all_iff)
  from match_loop_best[OF keys, of "[]" False uri] obtain b k where
    r: "match_loop uri (map fst m) (False, 0, []) = Inr (b, int (length k), k)"
    "b \<longleftrightarrow> (\<exists>x \<in> fst ` set m. below (butlast x) uri)"
    "k = [] \<or> k \<in> fst ` set m \<and> below (butlast k) uri"
    "\<forall>x \<in> fst ` set m. below (butlast x) uri \<longrightarrow> length x \<le> length k"
    by (auto simp: INT_MAX_def)
  have "k \<in> fst ` set m \<and> below (butlast k) uri" if b
  proof (cases "k = []")
    case True
    from that r(2) obtain x where "x \<in> fst ` set m" "below (butlast x) uri" by blast
    with r(4) True keys show ?thesis by auto
  qed (use r(3) in simp)
  with r show thesis using that by blast
qed

section \<open>The shared state\<close>

definition handlers_ok :: "(string, request_handler) entries \<Rightarrow> bool" where
  "handlers_ok m \<longleftrightarrow> list_all (\<lambda>(k, h). handler_ok h) m"

lemma handlers_ok_simps [simp]:
  "handlers_ok []" "handlers_ok ((k, h) # m) \<longleftrightarrow> handler_ok h \<and> handlers_ok m"
  by (simp_all add: handlers_ok_def)

definition shared_ok :: "shared \<Rightarrow> bool" where
  "shared_ok st \<longleftrightarrow> keys_ok (sv_handlers st) \<and> handlers_ok (sv_handlers st) \<and>
     (\<forall>u res. sv_cache st u = Some res \<longrightarrow> wf_response res)"

lemma replace_handler_keys [simp]: "map fst (replace_handler key h m) = map fst m"
  by (auto simp: replace_handler_def)

lemma replace_handler_ok:
  "handlers_ok m \<Longrightarrow> handler_ok h \<Longrightarrow> handlers_ok (replace_handler key h m)"
  by (auto simp: handlers_ok_def replace_handler_def list_all_iff split: if_split_asm)

lemma handler_ok_found: "handlers_ok m \<Longrightarrow> map_find m key = Some h \<Longrightarrow> handler_ok h"
  by (auto simp: handlers_ok_def map_find_def list_all_iff dest!: map_of_SomeD)

lemma wf_400_plain: "wf_response (get_response (make_400_error new_builder))"
  by (rule wf_get_response) (auto simp: to_string_0)

lemma get_set_response [simp]: "get_response (set_response res b) = res"
  by (simp add: get_response_def set_response_def)

lemma shared_ok_world [simp]: "shared_ok (st\<lparr>sv_world := w\<rparr>) = shared_ok st"
  by (simp add: shared_ok_def)

abbreviation table_keys :: "shared \<Rightarrow> string list" where
  "table_keys st \<equiv> map fst (sv_handlers st)"

lemma table_key_found: "key \<in> set (table_keys st) \<longleftrightarrow> (\<exists>h. map_find (sv_handlers st) key = Some h)"
  using map_of_eq_None_iff[of "sv_handlers st" key]
  by (cases "map_of (sv_handlers st) key") (simp_all add: map_find_def)

text \<open>\<open>process_req\<close> answers whenever every handler of the table can.\<close>

definition table_answers :: "env \<Rightarrow> upstream \<Rightarrow> request \<Rightarrow> shared \<Rightarrow> bool" where
  "table_answers e up req st \<longleftrightarrow> list_all (\<lambda>(k, h). can_answer e up req h) (sv_handlers st)"

lemma table_answers_found:
  "table_answers e up req st \<Longrightarrow> map_find (sv_handlers st) key = Some h \<Longrightarrow> can_answer e up req h"
  by (auto simp: table_answers_def map_find_def list_all_iff dest!: map_of_SomeD)

lemma table_answers_world [simp]: "table_answers e up req (st\<lparr>sv_world := w\<rparr>) = table_answers e up req st"
  by (simp add: table_answers_def)

text \<open>Handlers stay what they are, so a table that answers keeps answering.\<close>

lemma handle_request_kind:
  "handle_request e (up, h, w) req = Some (Inr (res, (up', h', w'))) \<Longrightarrow> can_answer e1 up1 r1 h' = can_answer e1 up1 r1 h"
  by (cases h) auto

lemma handle_selected_table:
  assumes "handle_selected e up key req st = Some (Inr (res, st'))"
  shows "key \<in> set (table_keys st)" "table_keys st' = table_keys st" "sv_cache st' = sv_cache st"
    and "table_answers e1 up1 r1 st \<Longrightarrow> table_answers e1 up1 r1 st'"
proof -
  from assms obtain h up' h' w where h: "map_find (sv_handlers st) key = Some h"
    and r: "handle_request e (up, h, sv_world st) req = Some (Inr (res, (up', h', w)))"
    and st': "st' = st\<lparr>sv_handlers := replace_handler key h' (sv_handlers st), sv_world := w\<rparr>"
    by (auto simp: handle_selected_def split: option.split_asm)
  show "key \<in> set (table_keys st)" using h table_key_found by blast
  show "table_keys st' = table_keys st" "sv_cache st' = sv_cache st" by (simp_all add: st')
  show "table_answers e1 up1 r1 st'" if "table_answers e1 up1 r1 st"
    using that handle_request_kind[OF r, of e1 up1 r1] table_answers_found[OF that h]
    by (auto simp: st' table_answers_def replace_handler_def list_all_iff split: if_split_asm)
qed

lemma handle_selected_safe:
  assumes "env_ok e" "net_ok up" "shared_ok st" "handle_selected e up key req st = Some (Inr (res, st'))"
  shows "wf_response res \<and> shared_ok st'"
proof -
  from assms(4) obtain h up' h' w where h: "map_find (sv_handlers st) key = Some h"
    and r: "handle_request e (up, h, sv_world st) req = Some (Inr (res, (up', h', w)))"
    and st': "st' = st\<lparr>sv_handlers := replace_handler key h' (sv_handlers st), sv_world := w\<rparr>"
    by (auto simp: handle_selected_def split: option.split_asm)
  have "handler_ok h" using assms(3) h by (auto simp: shared_ok_def dest: handler_ok_found)
  from handle_request_wf[OF assms(1,2) this r] have "wf_response res" "handler_ok h'" by auto
  with assms(3) show ?thesis by (auto simp: st' shared_ok_def replace_handler_ok keys_ok_def)
qed

lemma handle_selected_total:
  assumes "env_ok e" "net_ok up" "shared_ok st" "table_answers e up req st" "key \<in> set (table_keys st)"
  shows "\<exists>res st'. handle_selected e up key req st = Some (Inr (res, st'))"
proof -
  from assms(5) obtain h where h: "map_find (sv_handlers st) key = Some h" using table_key_found by blast
  have "handler_ok h" using assms(3) h by (auto simp: shared_ok_def dest: handler_ok_found)
  with handle_request_total[OF assms(1,2) _ table_answers_found[OF assms(4) h]] obtain res s' where
    "handle_request e (up, h, sv_world st) req = Some (Inr (res, s'))" by blast
  with h show ?thesis by (cases s') (simp add: handle_selected_def)
qed

lemma store_response_safe:
  assumes "shared_ok st" "wf_response res" "store_response peer key req res st = Inr (b, st')"
  shows "wf_response (get_response b) \<and> shared_ok st' \<and> sv_handlers st' = sv_handlers st \<and>
    sv_cache st' (rq_uri req) = Some (get_response b)"
  using assms by (auto simp: store_response_def shared_ok_def split: option.split_asm if_split_asm)

lemma store_response_total:
  assumes "key \<in> set (table_keys st)" "wf_response res" "peer 2 = None \<or> peer 3 \<noteq> None"
  shows "\<exists>b st'. store_response peer key req res st = Inr (b, st')"
proof -
  from assms(1) obtain h where "map_find (sv_handlers st) key = Some h" using table_key_found by blast
  with log_metrics_defined[OF assms(2,3), of req "get_handler_name h" "w_log (sv_world st)"] show ?thesis
    by (auto simp: store_response_def)
qed

lemma run_selected_parts:
  assumes "run_selected e up peer key req st = Some (Inr (b, st'))"
  obtains res st1 where "handle_selected e up key req st = Some (Inr (res, st1))"
    "store_response peer key req res st1 = Inr (b, st')"
  using assms by (auto simp: run_selected_def)

lemma run_selected_safe:
  assumes "env_ok e" "net_ok up" "shared_ok st" "run_selected e up peer key req st = Some (Inr (b, st'))"
  shows "wf_response (get_response b) \<and> shared_ok st' \<and> sv_cache st' (rq_uri req) = Some (get_response b)"
  using run_selected_parts[OF assms(4)] handle_selected_safe[OF assms(1-3)] store_response_safe by metis

lemma process_req_safe_lemma:
  assumes "env_ok e" "net_ok up" "shared_ok st" "process_req e up peer req st = Some (Inr (b, st'))"
  shows "wf_response (get_response b) \<and> shared_ok st'"
proof (cases "if rq_uri req \<noteq> ''/status'' then sv_cache st (rq_uri req) else None")
  case (Some res)
  with assms(3,4) show ?thesis by (auto simp: process_req_eq shared_ok_def split: if_split_asm)
next
  case None
  with assms(4) run_selected_safe[OF assms(1-3), of peer _ req b st'] assms(3) wf_400_plain show ?thesis
    by (auto simp: process_req_eq split: sum.split_asm if_split_asm)
qed

lemma run_selected_total:
  assumes "env_ok e" "net_ok up" "shared_ok st" "table_answers e up req st" "key \<in> set (table_keys st)"
    and "peer 2 = None \<or> peer 3 \<noteq> None"
  shows "\<exists>b st'. run_selected e up peer key req st = Some (Inr (b, st'))"
proof -
  obtain res st1 where h: "handle_selected e up key req st = Some (Inr (res, st1))"
    using handle_selected_total[OF assms(1-5)] by blast
  have "key \<in> set (table_keys st1)" "wf_response res"
    using handle_selected_table(1,2)[OF h] handle_selected_safe[OF assms(1-3) h] by simp_all
  from store_response_total[OF this assms(6)] h show ?thesis by (auto simp: run_selected_def)
qed

lemma process_req_total:
  assumes "env_ok e" "net_ok up" "shared_ok st" "table_answers e up req st" "peer 2 = None \<or> peer 3 \<noteq> None"
  shows "\<exists>b st'. process_req e up peer req st = Some (Inr (b, st'))"
proof (cases "if rq_uri req \<noteq> ''/status'' then sv_cache st (rq_uri req) else None")
  case None
  show ?thesis
  proof (cases "rq_method req = INVALID")
    case False
    have k: "keys_ok (sv_handlers st)" using assms(3) by (simp add: shared_ok_def)
    obtain matched key where "match_loop (rq_uri req) (map fst (sv_handlers st)) (False, 0, []) =
        Inr (matched, int (length key), key)" "matched \<longrightarrow> key \<in> fst ` set (sv_handlers st)"
      using match_loop_total[OF k, of "rq_uri req"] by metis
    with None False run_selected_total[OF assms(1-4) _ assms(5), of key] show ?thesis
      by (cases matched) (auto simp: process_req_eq)
  qed (use None in \<open>simp add: process_req_eq\<close>)
qed (simp add: process_req_eq)

lemma process_req_table:
  assumes "process_req e up peer req st = Some (Inr (b, st'))" "table_answers e1 up1 r1 st"
  shows "table_answers e1 up1 r1 st'"
proof -
  have "table_answers e1 up1 r1 st'" if "run_selected e up peer key req st = Some (Inr (b, st'))" for key
  proof -
    from that obtain res st1 where "handle_selected e up key req st = Some (Inr (res, st1))"
      "store_response peer key req res st1 = Inr (b, st')" by (rule run_selected_parts)
    with handle_selected_table(4)[of e up key req st res st1] assms(2) show ?thesis
      by (auto simp: store_response_def table_answers_def split: option.split_asm)
  qed
  with assms show ?thesis by (auto simp: process_req_eq split: option.split_asm sum.split_asm if_split_asm)
qed

section \<open>The receive loop\<close>

text \<open>One turn that finds a request and leaves a rest that decides nothing.\<close>

lemma receive_one:
  assumes "parse p req data = Inr ((good, n, 0), p1, r1)"
    and "feed new_parser empty_request (drop n data) = Some (p2, r2)" "0 \<le> body_length p2"
  shows "receive_loop data requests p req = Some (Inr (requests @ [r1], p2, r2))"
proof -
  have n: "n \<le> length data" using parse_consumed_bound[OF assms(1)] .
  show ?thesis
    using assms(1,3) n parse_fed_all[OF assms(2)]
    by (subst receive_loop.simps) (simp add: of_nat_diff)
qed

text \<open>A read that decides nothing leaves the parser where it is.\<close>

lemma receive_none:
  assumes "feed p req data = Some (p1, r1)" "0 \<le> body_length p1"
  shows "receive_loop data requests p req = Some (Inr (requests, p1, r1))"
  using parse_fed_all[OF assms(1)] assms(2) by (subst receive_loop.simps) simp

text \<open>The method of the request under construction does not influence the parser.\<close>

lemma store_header_method:
  "store_header p (req\<lparr>rq_method := m\<rparr>) =
     and_then (store_header p req) (\<lambda>(p', r'). Inr (p', r'\<lparr>rq_method := m\<rparr>))"
  by (auto simp: store_header_def Let_def and_then_def split: sum.splits)

lemma consume_ignores_method:
  "consume p (req\<lparr>rq_method := m\<rparr>) c =
     and_then (consume p req c) (\<lambda>(r, p', req'). Inr (r, p', req'\<lparr>rq_method := m\<rparr>))"
proof (cases "p_state p = header_line_start \<or> p_state p = expecting_newline_3")
  case True
  then show ?thesis
    by (cases "store_header p req") (auto simp: consume_def store_header_method Let_def)
next
  case False
  then show ?thesis
    by (cases "p_state p") (auto simp: consume_def expect_char_def Let_def)
qed

lemma parse_method:
  "parse p req cs = Inr ((good, n, bl), p', r') \<Longrightarrow> parse p (req\<lparr>rq_method := m\<rparr>) cs = Inr ((good, n, bl), p', r')"
proof (induction cs arbitrary: p req n)
  case (Cons c cs)
  then obtain r1 p1 req1 where c: "consume p req c = Inr (r1, p1, req1)" by auto
  show ?case
  proof (cases "r1 = indeterminate")
    case False
    then have "r1 = good \<or> r1 = bad" by (cases r1) auto
    with Cons.prems c show ?thesis by (auto simp: consume_ignores_method split: if_split_asm)
  next
    case True
    with Cons.prems c obtain n' where "parse p1 req1 cs = Inr ((good, n', bl), p', r')" "n = Suc n'"
      by (auto split: prod.split_asm)
    with Cons.IH c True show ?thesis by (simp add: consume_ignores_method)
  qed
qed simp

text \<open>A loop that finds the same request again and again.\<close>

lemma receive_loop_repeats:
  assumes "parse new_parser empty_request data = Inr ((good, n, 0), p1, r1)"
    and "drop n data = c # d # rest" "\<not> token_char c"
    and "receive_loop data requests p req = Some x"
  shows "\<not> (p = new_parser \<and> (\<exists>m. req = empty_request\<lparr>rq_method := m\<rparr>))"
proof -
  have "length (drop n data) = length rest + 2" using assms(2) by simp
  then have n: "n + 2 \<le> length data" by simp
  have stuck: "parse new_parser empty_request (drop n data) =
      Inr ((bad, 1, 0), new_parser, empty_request\<lparr>rq_method := INVALID\<rparr>)"
  proof -
    have "\<not> is_char (schar c) \<or> is_ctl (schar c) \<or> is_tspecial (schar c)"
      using assms(3) unfolding token_char_def by blast
    then have "consume new_parser empty_request c = Inr (bad, new_parser, empty_request)"
      by (simp add: consume_def new_parser_def)
    then show ?thesis unfolding assms(2) by (simp add: new_parser_def method_of_def)
  qed
  have "data = data \<longrightarrow> \<not> (p = new_parser \<and> (\<exists>m. req = empty_request\<lparr>rq_method := m\<rparr>))"
  proof (rule receive_loop.raw_induct[OF _ assms(4), where P = "\<lambda>data' requests' p' req' x'.
      data' = data \<longrightarrow> \<not> (p' = new_parser \<and> (\<exists>m. req' = empty_request\<lparr>rq_method := m\<rparr>))"], intro impI notI, goal_cases)
    case (1 f data' requests' p' req' x')
    then obtain m where pr: "p' = new_parser" "req' = empty_request\<lparr>rq_method := m\<rparr>" by blast
    have "f data (requests' @ [r1]) new_parser (empty_request\<lparr>rq_method := INVALID\<rparr>) = Some x'"
      using 1(2) n unfolding 1(3) pr parse_method[OF assms(1)] sum.case prod.case reset_new
      by (simp add: stuck)
    from 1(1)[OF this] show False by auto
  qed
  then show ?thesis by simp
qed

lemma receive_loop_trailing:
  assumes "m \<noteq> []" "list_all token_char m" "list_all uri_char u" "version_ok v" "list_all header_ok hs"
    and "last_length 0 hs = Inr (int (length body))" "\<not> token_char c"
  shows "receive_loop (wire m u v hs body @ c # d # rest) [] new_parser empty_request = None"
proof (cases "receive_loop (wire m u v hs body @ c # d # rest) [] new_parser empty_request")
  case (Some x)
  have "empty_request = empty_request\<lparr>rq_method := GET\<rparr>" by (simp add: empty_request_def)
  with receive_loop_repeats[OF parse_wire_lemma[OF assms(1-6), of "c # d # rest"] _ assms(7) Some]
  show ?thesis by (metis append_eq_conv_conj)
qed

lemma build_wf:
  "wf_response (get_response b) \<Longrightarrow>
   \<exists>b'. build b = Inr ([entire_header (the (rs_code (get_response b))) (rs_headers (get_response b)), rs_body (get_response b)], b')"
  by (auto simp: build_def wf_response_def get_response_def Let_def)

text \<open>A read in which the loop finds one request.\<close>

lemma session_serves_read:
  assumes "env_ok e" "net_ok up" "shared_ok st"
    and "receive_loop data [] (ses_parser ses) (ses_request ses) = Some (Inr ([r], p, req))"
    and "log_request_info r (peers 0 0) (peers 0 1) (w_log (sv_world st)) = Inr lg"
    and "process_req e up (peers 0) r (st\<lparr>sv_world := (sv_world st)\<lparr>w_log := lg\<rparr>\<rparr>) = Some (Inr (b, st'))"
  shows "\<exists>bytes. received_req e up peers False data (ses, st) =
      Some (Inr (wait_for_req (ses\<lparr>ses_parser := p, ses_request := req,
        ses_connection := async_write bytes (ses_connection ses)\<rparr>), st')) \<and>
    (\<forall>rest. receive (bytes @ rest) = Some (''HTTP/1.1 '' @ status_text (the (rs_code (get_response b))),
      rs_headers (get_response b), rs_body (get_response b), rest))"
proof -
  let ?bytes = "entire_header (the (rs_code (get_response b))) (rs_headers (get_response b)) @ rs_body (get_response b)"
  have wf: "wf_response (get_response b)"
    using process_req_safe_lemma[OF assms(1,2) _ assms(6)] assms(3) by simp
  obtain b' where bld: "build b = Inr ([entire_header (the (rs_code (get_response b))) (rs_headers (get_response b)),
      rs_body (get_response b)], b')" using build_wf[OF wf] by blast
  have "received_req e up peers False data (ses, st) =
      Some (Inr (wait_for_req (ses\<lparr>ses_parser := p, ses_request := req,
        ses_connection := async_write ?bytes (ses_connection ses)\<rparr>), st'))"
    using assms(4-6) bld by (simp add: received_req_def thread_work_def conn_write_def)
  with receive_response[OF wf] show ?thesis by auto
qed

lemma receive_wire:
  assumes "m \<noteq> []" "list_all token_char m" "list_all uri_char u" "version_ok v" "list_all header_ok hs"
    and "last_length 0 hs = Inr (int (length body))"
  shows "receive_loop (wire m u v hs body) [] new_parser empty_request =
    Some (Inr ([parsed_request m u v hs body], new_parser, empty_request))"
proof -
  have "parse new_parser empty_request (wire m u v hs body) =
      Inr ((good, length (wire m u v hs body), 0), final_parser m body, parsed_request m u v hs body)"
    using parse_wire_lemma[OF assms, of "[]"] by simp
  from receive_one[OF this, of new_parser empty_request "[]"] show ?thesis by (simp add: new_parser_def)
qed

lemma session_serves:
  assumes "env_ok e" "net_ok up" "shared_ok st" "ses_parser ses = new_parser" "ses_request ses = empty_request"
    and "m \<noteq> []" "list_all token_char m" "list_all uri_char u" "version_ok v" "list_all header_ok hs"
    and "last_length 0 hs = Inr (int (length body))"
    and "log_request_info (parsed_request m u v hs body) (peers 0 0) (peers 0 1) (w_log (sv_world st)) = Inr lg"
    and "process_req e up (peers 0) (parsed_request m u v hs body)
           (st\<lparr>sv_world := (sv_world st)\<lparr>w_log := lg\<rparr>\<rparr>) = Some (Inr (b, st'))"
  shows "\<exists>bytes. received_req e up peers False (wire m u v hs body) (ses, st) =
      Some (Inr (wait_for_req (ses\<lparr>ses_connection := async_write bytes (ses_connection ses)\<rparr>), st')) \<and>
    receive (bytes @ rest) = Some (''HTTP/1.1 '' @ status_text (the (rs_code (get_response b))),
      rs_headers (get_response b), rs_body (get_response b), rest)"
proof -
  have ses: "ses\<lparr>ses_parser := new_parser, ses_request := empty_request, ses_connection := c\<rparr> =
      ses\<lparr>ses_connection := c\<rparr>" for c
    using assms(4,5) by (cases ses) simp
  have "receive_loop (wire m u v hs body) [] (ses_parser ses) (ses_request ses) =
      Some (Inr ([parsed_request m u v hs body], new_parser, empty_request))"
    unfolding assms(4,5) by (rule receive_wire[OF assms(6-11)])
  from session_serves_read[where peers = peers, OF assms(1-3) this assms(12,13)] show ?thesis unfolding ses by blast
qed

lemma wire_nonempty: "wire m u v hs body \<noteq> []"
  by (simp add: wire_def)

text \<open>The read that completes a message and goes on into the next.\<close>

lemma wire_last_read:
  assumes wire: "m \<noteq> []" "list_all token_char m" "list_all uri_char u" "version_ok v" "list_all header_ok hs"
    "last_length 0 hs = Inr (int (length body))"
    and f: "feed new_parser empty_request xs = Some (p, r)" and d: "xs @ d = wire m u v hs body"
    and rest: "feed new_parser empty_request ys = Some (p', r')" "0 \<le> body_length p'"
  shows "receive_loop (d @ ys) [] p r = Some (Inr ([parsed_request m u v hs body], p', r'))"
proof -
  let ?w = "wire m u v hs body"
  have "advance (length xs) (parse p r (d @ ys)) =
      Inr ((good, length ?w, 0), final_parser m body, parsed_request m u v hs body)"
    using parse_feed[OF f, of "d @ ys"] parse_wire_lemma[OF wire, of ys] d by (metis append.assoc)
  then obtain n where n: "parse p r (d @ ys) = Inr ((good, n, 0), final_parser m body, parsed_request m u v hs body)"
    "length xs + n = length ?w" by (auto simp: advance_def)
  have "length ?w = length xs + length d" using d by (metis length_append)
  then have "drop n (d @ ys) = ys" using n(2) by simp
  with receive_one[OF n(1) _ rest(2), of r' "[]"] rest(1) show ?thesis by simp
qed

section \<open>What a session writes\<close>

text \<open>Bytes that a client recognises as one complete message, whatever follows them.\<close>

definition framed :: "string \<Rightarrow> bool" where
  "framed bytes \<longleftrightarrow> (\<exists>status hs body. \<forall>rest. receive (bytes @ rest) = Some (status, hs, body, rest))"

definition async_writes :: "string list \<Rightarrow> tcp_connection \<Rightarrow> tcp_connection" where
  "async_writes bs c = c\<lparr>co_writes := co_writes c @ bs\<rparr>"

lemma conn_write_framed:
  assumes "wf_response (get_response b)"
  shows "\<exists>bytes. conn_write b c = Inr (async_writes [bytes] c) \<and> framed bytes"
  using build_wf[OF assms] receive_response[OF assms]
  by (fastforce simp: conn_write_def async_write_def async_writes_def framed_def)

text \<open>The parts of a callback that ends.\<close>

lemma thread_work_parts:
  assumes "thread_work e up peer r (ses, st) = Some (Inr (ses', st'))"
  obtains b c where "process_req e up peer r st = Some (Inr (b, st'))" "conn_write b (ses_connection ses) = Inr c"
    "ses' = ses\<lparr>ses_connection := c\<rparr>"
  using assms by (auto simp: thread_work_def)

lemma work_all_parts:
  assumes "work_all e up peers i (r # rs) (ses, st) = Some (Inr (ses', st'))"
  obtains lg ses1 st1 where "log_request_info r (peers i 0) (peers i 1) (w_log (sv_world st)) = Inr lg"
    "thread_work e up (peers i) r (ses, st\<lparr>sv_world := (sv_world st)\<lparr>w_log := lg\<rparr>\<rparr>) = Some (Inr (ses1, st1))"
    "work_all e up peers (Suc i) rs (ses1, st1) = Some (Inr (ses', st'))"
proof -
  from assms obtain lg where lg: "log_request_info r (peers i 0) (peers i 1) (w_log (sv_world st)) = Inr lg"
    by (cases "log_request_info r (peers i 0) (peers i 1) (w_log (sv_world st))") auto
  with assms that show thesis
    by (cases "thread_work e up (peers i) r (ses, st\<lparr>sv_world := (sv_world st)\<lparr>w_log := lg\<rparr>\<rparr>)")
      (auto split: sum.split_asm)
qed

lemma received_req_parts:
  assumes "received_req e up peers False data (ses, st) = Some (Inr (ses', st'))"
  obtains rs p req ses1 where "receive_loop data [] (ses_parser ses) (ses_request ses) = Some (Inr (rs, p, req))"
    "work_all e up peers 0 rs (ses\<lparr>ses_parser := p, ses_request := req\<rparr>, st) = Some (Inr (ses1, st'))"
    "ses' = wait_for_req ses1"
  using assms by (cases "receive_loop data [] (ses_parser ses) (ses_request ses)")
    (auto simp: received_req_def split: sum.split_asm)

lemma thread_work_writes:
  assumes "env_ok e" "net_ok up" "shared_ok st" "thread_work e up peer r (ses, st) = Some (Inr (ses', st'))"
  shows "shared_ok st' \<and> (\<exists>bytes. framed bytes \<and> ses' = ses\<lparr>ses_connection := async_writes [bytes] (ses_connection ses)\<rparr>)"
proof -
  from assms(4) obtain b c where p: "process_req e up peer r st = Some (Inr (b, st'))"
    and c: "conn_write b (ses_connection ses) = Inr c" "ses' = ses\<lparr>ses_connection := c\<rparr>"
    by (rule thread_work_parts)
  from process_req_safe_lemma[OF assms(1-3) p] c conn_write_framed[of b "ses_connection ses"] show ?thesis by auto
qed

lemma work_all_writes:
  "env_ok e \<Longrightarrow> net_ok up \<Longrightarrow> shared_ok st \<Longrightarrow> work_all e up peers i rs (ses, st) = Some (Inr (ses', st')) \<Longrightarrow>
   shared_ok st' \<and> (\<exists>bs. list_all framed bs \<and> length bs = length rs \<and>
     ses' = ses\<lparr>ses_connection := async_writes bs (ses_connection ses)\<rparr>)"
proof (induction rs arbitrary: i ses st)
  case Nil
  then show ?case by (auto simp: async_writes_def intro!: exI[of _ "[]"])
next
  case (Cons r rs)
  from Cons.prems(4) obtain lg ses1 st1 where
    t: "thread_work e up (peers i) r (ses, st\<lparr>sv_world := (sv_world st)\<lparr>w_log := lg\<rparr>\<rparr>) = Some (Inr (ses1, st1))"
    and w: "work_all e up peers (Suc i) rs (ses1, st1) = Some (Inr (ses', st'))" by (rule work_all_parts)
  from thread_work_writes[OF Cons.prems(1,2) _ t] Cons.prems(3) obtain b where
    b: "shared_ok st1" "framed b" "ses1 = ses\<lparr>ses_connection := async_writes [b] (ses_connection ses)\<rparr>" by auto
  from Cons.IH[OF Cons.prems(1,2) b(1) w] obtain bs where
    "shared_ok st'" "list_all framed bs" "length bs = length rs"
    "ses' = ses1\<lparr>ses_connection := async_writes bs (ses_connection ses1)\<rparr>" by auto
  with b show ?case by (auto simp: async_writes_def intro!: exI[of _ "b # bs"])
qed

lemma received_req_writes:
  assumes "env_ok e" "net_ok up" "shared_ok st" "received_req e up peers False data (ses, st) = Some (Inr (ses', st'))"
  shows "shared_ok st' \<and> (\<exists>bs. list_all framed bs \<and>
    ses_connection ses' = conn_read (async_writes bs (ses_connection ses)))"
proof -
  from assms(4) obtain rs p req ses1 where
    l: "receive_loop data [] (ses_parser ses) (ses_request ses) = Some (Inr (rs, p, req))"
    and w: "work_all e up peers 0 rs (ses\<lparr>ses_parser := p, ses_request := req\<rparr>, st) = Some (Inr (ses1, st'))"
    and s: "ses' = wait_for_req ses1" by (rule received_req_parts)
  from work_all_writes[OF assms(1-3) w] s show ?thesis by (auto simp: wait_for_req_def)
qed

section \<open>Properties\<close>


definition example_locations :: "(string, request_handler) entries" where
  "example_locations = [(''/'', NotFoundHandler), (''/echo/'', EchoHandler), (''/echo/b/'', HealthHandler)]"


definition quiet_upstream :: upstream where
  "quiet_upstream = \<lparr>up_net = (\<lambda>n h p b. Resolve_failed), up_replace_all = (\<lambda>s a b. s)\<rparr>"

definition example_shared :: shared where
  "example_shared = \<lparr>sv_handlers = example_locations, sv_cache = Map.empty, sv_world = \<lparr>w_log = [], w_sent = 0\<rparr>\<rparr>"

lemma example_ok: "env_ok plain_env" "net_ok quiet_upstream" "shared_ok example_shared"
proof -
  show "env_ok plain_env" by (simp add: env_ok_def plain_env_def)
  show "net_ok quiet_upstream" by (simp add: net_ok_def quiet_upstream_def)
  have "keys_ok (sv_handlers example_shared)" by code_simp
  then show "shared_ok example_shared" by (simp add: shared_ok_def) (simp add: example_shared_def example_locations_def)
qed

lemma example_lookup:
  "match_loop ''/echo/x'' (map fst example_locations) (False, 0, []) = Inr (True, 6, ''/echo/'')"
  by code_simp

lemma example_process:
  assumes "rq_uri req = ''/echo/x''" "rq_method req = GET"
  shows "\<exists>b st'. process_req plain_env quiet_upstream (\<lambda>_. None) req example_shared = Some (Inr (b, st')) \<and>
    sv_cache st' ''/echo/x'' = Some (get_response b)"
proof -
  obtain res where h: "echo_handle_request plain_env () req = Inr (res, ())"
    by (auto simp: echo_handle_request_def)
  have wf: "wf_response res" using echo.handle_wf[OF example_ok(1), of "()" req res "()"] h by simp
  obtain ip where lg: "log_metrics req res None None ''EchoHandler'' [] = Inr ([] @ [(trace,
      metrics_message (code_name (the (rs_code res))) (rq_uri req) ip ''EchoHandler'')])"
    using log_metrics_defined[OF wf, of None None req "''EchoHandler''" "[]"] by blast
  have f: "map_find example_locations ''/echo/'' = Some EchoHandler" by (simp add: example_locations_def)
  show ?thesis
    using assms h lg f example_lookup
    by (simp add: process_req_eq run_selected_eq example_shared_def local_result_def)
qed

text \<open>The cache is keyed by the URI alone: once a request for a URI (other than /status) below
  some location was answered, every later request for that URI, whatever its method, headers
  and body, gets the same response, and neither a handler nor the log is involved.\<close>

theorem process_req_cache:
  assumes "env_ok e" "net_ok up" "shared_ok st" "process_req e up peer req st = Some (Inr (b, st'))"
    and "rq_uri req \<noteq> ''/status''" "rq_method req \<noteq> INVALID"
    and "\<exists>x \<in> fst ` set (sv_handlers st). below (butlast x) (rq_uri req)" "rq_uri req' = rq_uri req"
  shows "process_req e' up' peer' req' st' = Some (Inr (set_response (get_response b) new_builder, st'))"
proof -
  have "sv_cache st' (rq_uri req) = Some (get_response b)"
  proof (cases "sv_cache st (rq_uri req)")
    case (Some res)
    with assms(4,5) show ?thesis by (auto simp: process_req_eq)
  next
    case None
    obtain k where "match_loop (rq_uri req) (map fst (sv_handlers st)) (False, 0, []) = Inr (True, int (length k), k)"
      by (rule match_loop_total[of "sv_handlers st" "rq_uri req"]) (use assms(3,7) in \<open>auto simp: shared_ok_def\<close>)
    with None assms(4-6) have "run_selected e up peer k req st = Some (Inr (b, st'))" by (simp add: process_req_eq)
    from run_selected_safe[OF assms(1-3) this] show ?thesis by simp
  qed
  with assms(5,8) show ?thesis by (simp add: process_req_eq)
qed

theorem process_req_cache_witness:
  "\<exists>b st'. process_req plain_env quiet_upstream (\<lambda>_. None) (empty_request\<lparr>rq_uri := ''/echo/x''\<rparr>) example_shared = Some (Inr (b, st')) \<and>
     process_req plain_env quiet_upstream (\<lambda>_. None) (empty_request\<lparr>rq_method := POST, rq_uri := ''/echo/x'', rq_body := ''x''\<rparr>) st' =
       Some (Inr (set_response (get_response b) new_builder, st'))"
proof -
  let ?req = "empty_request\<lparr>rq_uri := ''/echo/x''\<rparr>"
  have "rq_uri ?req = ''/echo/x''" "rq_method ?req = GET" by (simp_all add: empty_request_def)
  from example_process[OF this] obtain b st' where
    r: "process_req plain_env quiet_upstream (\<lambda>_. None) ?req example_shared = Some (Inr (b, st'))" by blast
  have "rq_uri ?req \<noteq> ''/status''" "rq_method ?req \<noteq> INVALID"
    "\<exists>x \<in> fst ` set (sv_handlers example_shared). below (butlast x) (rq_uri ?req)"
    "rq_uri (empty_request\<lparr>rq_method := POST, rq_uri := ''/echo/x'', rq_body := ''x''\<rparr>) = rq_uri ?req"
    by (simp_all add: empty_request_def example_shared_def example_locations_def below_def)
  from process_req_cache[OF example_ok r this, of plain_env quiet_upstream "\<lambda>_. None"] r show ?thesis by blast
qed

text \<open>A request that arrives whole in one read is served: the loop ends with exactly this
  request, the parser is ready for the next one, and the bytes written are the response that
  \<open>process_req\<close> chose, which a client reads back.\<close>

theorem session_serves_request:
  assumes "env_ok e" "net_ok up" "shared_ok st" "ses_parser ses = new_parser" "ses_request ses = empty_request"
    and "m \<noteq> []" "list_all token_char m" "list_all uri_char u" "version_ok v" "list_all header_ok hs"
    and "last_length 0 hs = Inr (int (length body))"
    and "log_request_info (parsed_request m u v hs body) (peers 0 0) (peers 0 1) (w_log (sv_world st)) = Inr lg"
    and "process_req e up (peers 0) (parsed_request m u v hs body)
           (st\<lparr>sv_world := (sv_world st)\<lparr>w_log := lg\<rparr>\<rparr>) = Some (Inr (b, st'))"
  shows "\<exists>bytes. received_req e up peers False (wire m u v hs body) (ses, st) =
      Some (Inr (wait_for_req (ses\<lparr>ses_connection := async_write bytes (ses_connection ses)\<rparr>), st')) \<and>
    receive (bytes @ rest) = Some (''HTTP/1.1 '' @ status_text (the (rs_code (get_response b))),
      rs_headers (get_response b), rs_body (get_response b), rest)"
  using assms by (rule session_serves)

lemma wire_example:
  "(''GET'' :: string) \<noteq> []" "list_all token_char ''GET''" "list_all uri_char ''/echo/x''"
  "list_all header_ok [(''Host'', ''h'')]" "last_length 0 [(''Host'', ''h'')] = Inr (int (length []))"
  by (simp, code_simp+)

theorem session_serves_request_witness:
  "\<exists>bytes st' b. received_req plain_env quiet_upstream (\<lambda>_ n. if n < 2 then Some (''::1'', 80) else None) False
      (wire ''GET'' ''/echo/x'' ''HTTP/1.1'' [(''Host'', ''h'')] []) (new_session new_connection, example_shared) =
        Some (Inr (wait_for_req (new_session new_connection\<lparr>ses_connection := async_write bytes new_connection\<rparr>), st')) \<and>
     receive (bytes @ []) = Some (''HTTP/1.1 '' @ status_text (the (rs_code (get_response b))),
       rs_headers (get_response b), rs_body (get_response b), [])"
proof -
  let ?r = "parsed_request ''GET'' ''/echo/x'' ''HTTP/1.1'' [(''Host'', ''h'')] []"
  let ?peers = "\<lambda>(_::nat) (n::nat). if n < 2 then Some (''::1'', 80) else None :: endpoint"
  obtain lg where lg: "log_request_info ?r (?peers 0 0) (?peers 0 1) (w_log (sv_world example_shared)) = Inr lg"
    by (simp add: log_request_info_def remote_endpoint_def)
  let ?st = "example_shared\<lparr>sv_world := (sv_world example_shared)\<lparr>w_log := lg\<rparr>\<rparr>"
  obtain res where h: "echo_handle_request plain_env () ?r = Inr (res, ())" by (auto simp: echo_handle_request_def)
  have wf: "wf_response res" using echo.handle_wf[OF example_ok(1), of "()" ?r res "()"] h by simp
  have req: "rq_uri ?r = ''/echo/x''" "rq_method ?r = GET" by code_simp+
  obtain ip where m: "log_metrics ?r res None None ''EchoHandler'' lg = Inr (lg @ [(trace,
      metrics_message (code_name (the (rs_code res))) (rq_uri ?r) ip ''EchoHandler'')])"
    using log_metrics_defined[OF wf, of None None ?r "''EchoHandler''" lg] by blast
  have f: "map_find example_locations ''/echo/'' = Some EchoHandler" by (simp add: example_locations_def)
  obtain b st' where p: "process_req plain_env quiet_upstream (?peers 0) ?r ?st = Some (Inr (b, st'))"
    using h m f example_lookup req by (simp add: process_req_eq run_selected_eq example_shared_def local_result_def)
  have ses: "ses_parser (new_session new_connection) = new_parser"
    "ses_request (new_session new_connection) = empty_request" "ses_connection (new_session new_connection) = new_connection"
    by (simp_all add: new_session_def)
  from session_serves_request[OF example_ok ses(1,2) wire_example(1-3) version_ok_1_1 wire_example(4,5) lg p, of "[]"] ses(3)
  show ?thesis by auto
qed




end
