(* ===== verification/Config_Correct.thy ===== *)
theory Config_Correct
  imports Config_Parser
begin

text \<open>
  Correctness of the configuration parser.  The loop over pointers is refined to a machine
  on a zipper (the enclosing blocks, innermost first, and the block being filled); the
  accepted inputs are then exactly the token sequences of configurations, printing and
  parsing are inverse, and the undefined behaviour of the loop is confined to inputs that
  close more blocks than they open.
\<close>

section \<open>Token sequences\<close>

type_synonym token = "TokenType \<times> string"

function lex :: "string \<Rightarrow> token list" where
  "lex input =
     (case ParseToken input of (tt, tok, rest) \<Rightarrow>
        if tt = TOKEN_TYPE_EOF \<or> tt = TOKEN_TYPE_ERROR then [(tt, tok)] else (tt, tok) # lex rest)"
  by pat_completeness auto
termination
  by (relation "measure length") (auto dest: ParseToken_progress[OF sym])

declare lex.simps [simp del]

text \<open>The loop of \<open>Parse\<close> on a sequence of tokens that has been read ahead.\<close>

fun run :: "parse_state \<Rightarrow> token list \<Rightarrow> parse_output result" where
  "run st [] = Inl UB_buffer"
| "run st ((tt, tok) # toks) =
     (case parse_turn_of st tt tok of
        Inl e \<Rightarrow> Inl e
      | Inr (Next st') \<Rightarrow> run st' toks
      | Inr (Break st') \<Rightarrow>
          Inr \<lparr>parsed = False, parsed_config = config st',
               printed = bad_transition (last_token_type st') tt\<rparr>
      | Inr (Return_true st') \<Rightarrow> Inr \<lparr>parsed = True, parsed_config = config st', printed = []\<rparr>)"

lemma Parse_loop_run: "Parse_loop st input = run st (lex input)"
proof (induction st input rule: Parse_loop.induct)
  case (1 st input)
  obtain tt tok rest where pt: "ParseToken input = (tt, tok, rest)" by (cases "ParseToken input")
  show ?case
    using 1[OF pt[symmetric] refl] pt no_next_at_eof
    by (subst Parse_loop.simps, subst lex.simps)
      (auto split: sum.splits parse_turn.splits)
qed

definition is_comment :: "token \<Rightarrow> bool" where
  "is_comment t \<longleftrightarrow> fst t = TOKEN_TYPE_COMMENT"

lemma run_skip_comments: "run st toks = run st (filter (\<lambda>t. \<not> is_comment t) toks)"
proof (induction st toks rule: run.induct)
  case (2 st tt tok toks)
  then show ?case
    by (cases "tt = TOKEN_TYPE_COMMENT")
      (auto simp: is_comment_def split: sum.splits parse_turn.splits)
qed simp

text \<open>The tokens of a configuration.\<close>

abbreviation word_token :: "string \<Rightarrow> token" where
  "word_token t \<equiv> (TOKEN_TYPE_NORMAL, t)"

abbreviation open_token :: token where "open_token \<equiv> (TOKEN_TYPE_START_BLOCK, ''{'')"
abbreviation close_token :: token where "close_token \<equiv> (TOKEN_TYPE_END_BLOCK, ''}'')"
abbreviation end_token :: token where "end_token \<equiv> (TOKEN_TYPE_STATEMENT_END, '';'')"

fun config_tokens :: "NginxConfig \<Rightarrow> token list"
  and statement_tokens :: "NginxConfigStatement \<Rightarrow> token list" where
  "config_tokens (NginxConfig ss) = concat (map statement_tokens ss)"
| "statement_tokens (NginxConfigStatement ts child) =
     map word_token ts @
     (case child of None \<Rightarrow> [end_token] | Some c \<Rightarrow> open_token # config_tokens c @ [close_token])"

abbreviation statements_tokens :: "NginxConfigStatement list \<Rightarrow> token list" where
  "statements_tokens ss \<equiv> concat (map statement_tokens ss)"

text \<open>Every statement has at least one token.\<close>

fun config_shape :: "NginxConfig \<Rightarrow> bool"
  and statement_shape :: "NginxConfigStatement \<Rightarrow> bool" where
  "config_shape (NginxConfig ss) \<longleftrightarrow> list_all statement_shape ss"
| "statement_shape (NginxConfigStatement ts child) \<longleftrightarrow>
     ts \<noteq> [] \<and> (case child of None \<Rightarrow> True | Some c \<Rightarrow> config_shape c)"

section \<open>From pointers to a zipper\<close>

text \<open>
  A frame is an enclosing block whose last statement owns the block below it: the
  statements before that one, and its tokens.
\<close>

type_synonym frame = "NginxConfigStatement list \<times> string list"

fun plug :: "frame list \<Rightarrow> NginxConfigStatement list \<Rightarrow> NginxConfig" where
  "plug [] ss = NginxConfig ss"
| "plug ((pre, ts) # fs) ss = plug fs (pre @ [NginxConfigStatement ts (Some (NginxConfig ss))])"

fun path_of :: "frame list \<Rightarrow> config_ptr" where
  "path_of [] = []"
| "path_of ((pre, ts) # fs) = path_of fs @ [length pre]"

fun stack_of :: "frame list \<Rightarrow> config_ptr list" where
  "stack_of [] = [[]]"
| "stack_of (f # fs) = path_of (f # fs) # stack_of fs"

definition zst :: "frame list \<Rightarrow> NginxConfigStatement list \<Rightarrow> TokenType \<Rightarrow> int \<Rightarrow> parse_state" where
  "zst fs ss l n =
     \<lparr>config = plug fs ss, config_stack = stack_of fs, last_token_type = l, BracketCount = n\<rparr>"

lemma stack_of_Cons: "\<exists>r. stack_of fs = path_of fs # r"
  by (cases fs) auto

lemma block_at_append: "block_at (p @ q) c = Option.bind (block_at p c) (block_at q)"
  by (induction p c rule: block_at.induct) (auto split: Option.bind_split)

lemma update_block_append:
  "update_block (p @ q) f c = update_block p (\<lambda>ss. statements (update_block q f (NginxConfig ss))) c"
proof (induction p f c rule: update_block.induct)
  case (1 f ss)
  have "update_block q f (NginxConfig ss) = NginxConfig (statements (update_block q f (NginxConfig ss)))"
    by simp
  then show ?case by (metis append_Nil update_block.simps(1))
next
  case (2 i p f ss)
  then show ?case by (auto split: NginxConfigStatement.splits option.splits)
qed

lemma block_at_plug: "block_at (path_of fs) (plug fs ss) = Some (NginxConfig ss)"
  by (induction fs ss rule: plug.induct) (auto simp: block_at_append nth_append)

lemma update_block_plug: "update_block (path_of fs) f (plug fs ss) = plug fs (f ss)"
proof (induction fs ss arbitrary: f rule: plug.induct)
  case (2 pre ts fs ss)
  have "update_block [length pre] f (NginxConfig (pre @ [NginxConfigStatement ts (Some (NginxConfig ss))]))
      = NginxConfig (pre @ [NginxConfigStatement ts (Some (NginxConfig (f ss)))])"
    by (simp add: nth_append)
  with 2 show ?case by (simp add: update_block_append del: update_block.simps)
qed simp

definition begins_statement :: "TokenType \<Rightarrow> bool" where
  "begins_statement l \<longleftrightarrow> l = TOKEN_TYPE_START \<or> l = TOKEN_TYPE_STATEMENT_END \<or>
     l = TOKEN_TYPE_START_BLOCK \<or> l = TOKEN_TYPE_END_BLOCK"

lemma zst_sel [simp]:
  "config (zst fs ss l n) = plug fs ss" "config_stack (zst fs ss l n) = stack_of fs"
  "last_token_type (zst fs ss l n) = l" "BracketCount (zst fs ss l n) = n"
  "(zst fs ss l n)\<lparr>last_token_type := l'\<rparr> = zst fs ss l' n"
  by (simp_all add: zst_def)

lemma parse_normal_begin:
  assumes "begins_statement l"
  shows "parse_normal (zst fs ss l n) t =
    Inr (Next (zst fs (ss @ [NginxConfigStatement [t] None]) TOKEN_TYPE_NORMAL n))"
proof -
  obtain r where "stack_of fs = path_of fs # r" using stack_of_Cons by blast
  with assms show ?thesis
    by (auto simp: parse_normal_def begins_statement_def update_block_plug block_at_plug
        update_back_def push_token_def zst_def)
qed

lemma parse_normal_continue:
  "parse_normal (zst fs (ss @ [NginxConfigStatement ts c]) TOKEN_TYPE_NORMAL n) t =
    Inr (Next (zst fs (ss @ [NginxConfigStatement (ts @ [t]) c]) TOKEN_TYPE_NORMAL n))"
proof -
  obtain r where "stack_of fs = path_of fs # r" using stack_of_Cons by blast
  then show ?thesis
    by (simp add: parse_normal_def update_block_plug block_at_plug update_back_def
        push_token_def zst_def)
qed

lemma parse_start_block_zst:
  "parse_start_block (zst fs (ss @ [NginxConfigStatement ts c]) TOKEN_TYPE_NORMAL n) =
    Inr (Next (zst ((ss, ts) # fs) [] TOKEN_TYPE_START_BLOCK (n + 1)))"
proof -
  obtain r where "stack_of fs = path_of fs # r" using stack_of_Cons by blast
  then show ?thesis
    by (simp add: parse_start_block_def Let_def update_block_plug block_at_plug update_back_def
        set_child_def zst_def)
qed

lemma parse_end_block_zst:
  "l = TOKEN_TYPE_STATEMENT_END \<or> l = TOKEN_TYPE_START_BLOCK \<or> l = TOKEN_TYPE_END_BLOCK \<Longrightarrow>
   parse_end_block (zst ((pre, ts) # fs) ss l n) =
     Inr (Next (zst fs (pre @ [NginxConfigStatement ts (Some (NginxConfig ss))]) TOKEN_TYPE_END_BLOCK (n - 1)))"
  by (auto simp: parse_end_block_def Let_def zst_def)

lemmas zst_steps = parse_normal_begin parse_normal_continue parse_start_block_zst parse_end_block_zst

section \<open>Every token sequence of a configuration is accepted\<close>

fun closing_type :: "NginxConfigStatement \<Rightarrow> TokenType" where
  "closing_type (NginxConfigStatement ts None) = TOKEN_TYPE_STATEMENT_END"
| "closing_type (NginxConfigStatement ts (Some c)) = TOKEN_TYPE_END_BLOCK"

definition last_type :: "TokenType \<Rightarrow> NginxConfigStatement list \<Rightarrow> TokenType" where
  "last_type l ss = (if ss = [] then l else closing_type (last ss))"

lemma closing_type_cases:
  "closing_type s = TOKEN_TYPE_STATEMENT_END \<or> closing_type s = TOKEN_TYPE_END_BLOCK"
  by (cases s rule: closing_type.cases) auto

lemma begins_statement_last: "begins_statement l \<Longrightarrow> begins_statement (last_type l ss)"
  using closing_type_cases[of "last ss"] by (auto simp: last_type_def begins_statement_def)

lemma run_more_words:
  "run (zst fs (ss @ [NginxConfigStatement ts None]) TOKEN_TYPE_NORMAL n) (map word_token us @ toks) =
   run (zst fs (ss @ [NginxConfigStatement (ts @ us) None]) TOKEN_TYPE_NORMAL n) toks"
  by (induction us arbitrary: ts) (simp_all add: parse_normal_continue)

lemma run_words:
  "ts \<noteq> [] \<Longrightarrow> begins_statement l \<Longrightarrow>
   run (zst fs ss l n) (map word_token ts @ toks) =
   run (zst fs (ss @ [NginxConfigStatement ts None]) TOKEN_TYPE_NORMAL n) toks"
  by (cases ts) (simp_all add: parse_normal_begin run_more_words)

lemma run_config_tokens:
  "config_shape c \<Longrightarrow> begins_statement l \<Longrightarrow>
     run (zst fs ss l n) (config_tokens c @ toks) =
     run (zst fs (ss @ statements c) (last_type l (statements c)) n) toks"
  and run_statement_tokens:
  "statement_shape s \<Longrightarrow> begins_statement l \<Longrightarrow>
     run (zst fs ss l n) (statement_tokens s @ toks) =
     run (zst fs (ss @ [s]) (closing_type s) n) toks"
proof (induction c and s arbitrary: l fs ss n toks and l fs ss n toks
    rule: NginxConfig.induct NginxConfigStatement.induct)
  case (NginxConfig us)
  have "run (zst fs ss l n) (statements_tokens vs @ toks) =
        run (zst fs (ss @ vs) (last_type l vs) n) toks"
    if "set vs \<subseteq> set us" "list_all statement_shape vs" "begins_statement l" for vs l ss toks
    using that
  proof (induction vs arbitrary: l ss)
    case Nil
    then show ?case by (simp add: last_type_def)
  next
    case (Cons v vs)
    have "begins_statement (closing_type v)"
      using closing_type_cases[of v] by (auto simp: begins_statement_def)
    then have "run (zst fs ss l n) (statements_tokens (v # vs) @ toks) =
      run (zst fs ((ss @ [v]) @ vs) (last_type (closing_type v) vs) n) toks"
      using Cons.prems NginxConfig.IH[of v] Cons.IH by simp
    also have "last_type (closing_type v) vs = last_type l (v # vs)"
      by (simp add: last_type_def)
    finally show ?case by simp
  qed
  with NginxConfig.prems show ?case by simp
next
  case (NginxConfigStatement ts child)
  show ?case
  proof (cases child)
    case None
    with NginxConfigStatement.prems show ?thesis by (simp add: run_words)
  next
    case (Some c)
    obtain us where c: "c = NginxConfig us" by (cases c)
    have "begins_statement TOKEN_TYPE_START_BLOCK" by (simp add: begins_statement_def)
    then have IH: "run (zst fs' [] TOKEN_TYPE_START_BLOCK m) (config_tokens c @ toks') =
        run (zst fs' us (last_type TOKEN_TYPE_START_BLOCK us) m) toks'" for fs' m toks'
      using NginxConfigStatement.IH[of c] NginxConfigStatement.prems Some c by simp
    have "last_type TOKEN_TYPE_START_BLOCK us \<in>
        {TOKEN_TYPE_STATEMENT_END, TOKEN_TYPE_START_BLOCK, TOKEN_TYPE_END_BLOCK}"
      using closing_type_cases[of "last us"] by (auto simp: last_type_def)
    then have close: "parse_end_block (zst ((ss, ts) # fs) us (last_type TOKEN_TYPE_START_BLOCK us) (n + 1)) =
        Inr (Next (zst fs (ss @ [NginxConfigStatement ts (Some (NginxConfig us))]) TOKEN_TYPE_END_BLOCK n))"
      by (subst parse_end_block_zst) auto
    show ?thesis
      using NginxConfigStatement.prems Some c IH close
      by (simp add: run_words parse_start_block_zst)
  qed
qed

section \<open>Every accepted token sequence is one of a configuration\<close>

text \<open>The tokens read when the machine is in a zipper state.\<close>

fun frames_tokens :: "frame list \<Rightarrow> token list" where
  "frames_tokens [] = []"
| "frames_tokens ((pre, ts) # fs) =
     frames_tokens fs @ statements_tokens pre @ map word_token ts @ [open_token]"

definition block_tokens :: "NginxConfigStatement list \<Rightarrow> TokenType \<Rightarrow> token list" where
  "block_tokens ss l =
     (if l = TOKEN_TYPE_NORMAL then statements_tokens (butlast ss) @ map word_token (tokens (last ss))
      else statements_tokens ss)"

text \<open>The machine's invariant, with \<open>ss\<close> the block being filled.\<close>

definition frames_shape :: "frame list \<Rightarrow> bool" where
  "frames_shape fs \<longleftrightarrow> list_all (\<lambda>(pre, ts). list_all statement_shape pre \<and> ts \<noteq> []) fs"

definition zinv :: "frame list \<Rightarrow> NginxConfigStatement list \<Rightarrow> TokenType \<Rightarrow> int \<Rightarrow> bool" where
  "zinv fs ss l n \<longleftrightarrow>
     n = int (length fs) \<and> frames_shape fs \<and> list_all statement_shape ss \<and>
     (l = TOKEN_TYPE_NORMAL \<longrightarrow> (\<exists>pre ts. ss = pre @ [NginxConfigStatement ts None])) \<and>
     (l = TOKEN_TYPE_START \<longrightarrow> fs = []) \<and>
     (begins_statement l \<or> l = TOKEN_TYPE_NORMAL)"

text \<open>Punctuation carries its own text, as the tokenizer delivers it.\<close>

definition canonical :: "token \<Rightarrow> bool" where
  "canonical t \<longleftrightarrow>
     (fst t = TOKEN_TYPE_START_BLOCK \<longrightarrow> snd t = ''{'') \<and>
     (fst t = TOKEN_TYPE_END_BLOCK \<longrightarrow> snd t = ''}'') \<and>
     (fst t = TOKEN_TYPE_STATEMENT_END \<longrightarrow> snd t = '';'')"

lemma run_after_root_popped:
  "config_stack st = [] \<Longrightarrow> last_token_type st = TOKEN_TYPE_END_BLOCK \<Longrightarrow> BracketCount st < 0 \<Longrightarrow>
   run st toks = Inr out \<Longrightarrow> \<not> parsed out"
proof (induction toks)
  case (Cons t toks)
  obtain tt tok where "t = (tt, tok)" by (cases t)
  with Cons show ?case
    by (cases tt) (auto simp: parse_normal_def parse_start_block_def parse_end_block_def parse_eof_def Let_def)
qed simp

definition root_popped :: "parse_state \<Rightarrow> bool" where
  "root_popped st \<longleftrightarrow>
     config_stack st = [] \<and> last_token_type st = TOKEN_TYPE_END_BLOCK \<and> BracketCount st < 0"

lemma zinv_normalD:
  "zinv fs ss TOKEN_TYPE_NORMAL n \<Longrightarrow> \<exists>pre ts. ss = pre @ [NginxConfigStatement ts None]"
  by (simp add: zinv_def)

lemma zst_step_normal:
  assumes "zinv fs ss l n"
  obtains ss' where "parse_normal (zst fs ss l n) tok = Inr (Next (zst fs ss' TOKEN_TYPE_NORMAL n))"
    "zinv fs ss' TOKEN_TYPE_NORMAL n"
    "block_tokens ss' TOKEN_TYPE_NORMAL = block_tokens ss l @ [word_token tok]"
proof (cases "l = TOKEN_TYPE_NORMAL")
  case True
  with assms obtain pre ts where ss: "ss = pre @ [NginxConfigStatement ts None]"
    using zinv_normalD by blast
  show thesis
    by (rule that[of "pre @ [NginxConfigStatement (ts @ [tok]) None]"])
      (use assms True ss in \<open>auto simp: parse_normal_continue zinv_def block_tokens_def\<close>)
next
  case False
  with assms have l: "begins_statement l" by (simp add: zinv_def)
  show thesis
    by (rule that[of "ss @ [NginxConfigStatement [tok] None]"])
      (use assms False l in \<open>auto simp: parse_normal_begin zinv_def block_tokens_def\<close>)
qed

lemma zst_step_end_statement:
  assumes "zinv fs ss l n" and "l = TOKEN_TYPE_NORMAL"
  shows "zinv fs ss TOKEN_TYPE_STATEMENT_END n"
    "block_tokens ss TOKEN_TYPE_STATEMENT_END = block_tokens ss l @ [end_token]"
  using assms by (auto simp: zst_def zinv_def block_tokens_def begins_statement_def)

lemma zst_step_start_block:
  assumes "zinv fs ss l n"
  shows "l \<noteq> TOKEN_TYPE_NORMAL \<Longrightarrow>
      \<exists>st. parse_start_block (zst fs ss l n) = Inr (Break st)"
    and "l = TOKEN_TYPE_NORMAL \<Longrightarrow>
      \<exists>f. parse_start_block (zst fs ss l n) = Inr (Next (zst (f # fs) [] TOKEN_TYPE_START_BLOCK (n + 1))) \<and>
          zinv (f # fs) [] TOKEN_TYPE_START_BLOCK (n + 1) \<and>
          frames_tokens (f # fs) = frames_tokens fs @ block_tokens ss l @ [open_token]"
proof -
  show "\<exists>st. parse_start_block (zst fs ss l n) = Inr (Break st)" if "l \<noteq> TOKEN_TYPE_NORMAL"
    using that by (simp add: parse_start_block_def Let_def)
  assume l: "l = TOKEN_TYPE_NORMAL"
  with assms obtain pre ts where ss: "ss = pre @ [NginxConfigStatement ts None]"
    using zinv_normalD by blast
  then show "\<exists>f. parse_start_block (zst fs ss l n) = Inr (Next (zst (f # fs) [] TOKEN_TYPE_START_BLOCK (n + 1))) \<and>
          zinv (f # fs) [] TOKEN_TYPE_START_BLOCK (n + 1) \<and>
          frames_tokens (f # fs) = frames_tokens fs @ block_tokens ss l @ [open_token]"
    using assms l
    by (intro exI[of _ "(pre, ts)"])
      (auto simp: parse_start_block_zst zinv_def frames_shape_def begins_statement_def block_tokens_def)
qed

lemma zst_step_end_block:
  assumes "zinv (f # fs) ss l n"
  shows "l = TOKEN_TYPE_NORMAL \<Longrightarrow> \<exists>st. parse_end_block (zst (f # fs) ss l n) = Inr (Break st)"
    and "l \<noteq> TOKEN_TYPE_NORMAL \<Longrightarrow>
      \<exists>ss'. parse_end_block (zst (f # fs) ss l n) = Inr (Next (zst fs ss' TOKEN_TYPE_END_BLOCK (n - 1))) \<and>
            zinv fs ss' TOKEN_TYPE_END_BLOCK (n - 1) \<and>
            frames_tokens fs @ block_tokens ss' TOKEN_TYPE_END_BLOCK =
              frames_tokens (f # fs) @ block_tokens ss l @ [close_token]"
proof -
  show "\<exists>st. parse_end_block (zst (f # fs) ss l n) = Inr (Break st)" if "l = TOKEN_TYPE_NORMAL"
    using that by (simp add: parse_end_block_def Let_def)
  assume l: "l \<noteq> TOKEN_TYPE_NORMAL"
  obtain pre ts where f: "f = (pre, ts)" by (cases f)
  have "l = TOKEN_TYPE_STATEMENT_END \<or> l = TOKEN_TYPE_START_BLOCK \<or> l = TOKEN_TYPE_END_BLOCK"
    using assms l by (auto simp: zinv_def begins_statement_def)
  then show "\<exists>ss'. parse_end_block (zst (f # fs) ss l n) = Inr (Next (zst fs ss' TOKEN_TYPE_END_BLOCK (n - 1))) \<and>
            zinv fs ss' TOKEN_TYPE_END_BLOCK (n - 1) \<and>
            frames_tokens fs @ block_tokens ss' TOKEN_TYPE_END_BLOCK =
              frames_tokens (f # fs) @ block_tokens ss l @ [close_token]"
    using assms l f
    by (intro exI[of _ "pre @ [NginxConfigStatement ts (Some (NginxConfig ss))]"])
      (auto simp: parse_end_block_zst zinv_def frames_shape_def begins_statement_def block_tokens_def)
qed

lemma zst_end_block_root:
  "parse_end_block (zst [] ss l n) = Inr (Next st) \<Longrightarrow> n = 0 \<Longrightarrow> root_popped st"
  by (auto simp: parse_end_block_def Let_def root_popped_def zst_def split: if_splits)

text \<open>One turn of the loop keeps the invariant and appends the token to what has been read.\<close>

lemma zst_step:
  assumes inv: "zinv fs ss l n" and can: "canonical (tt, tok)"
    and turn: "parse_turn_of (zst fs ss l n) tt tok = Inr (Next st)"
  shows "root_popped st \<or>
    (\<exists>fs' ss' l' n'. st = zst fs' ss' l' n' \<and> zinv fs' ss' l' n' \<and>
       frames_tokens fs' @ block_tokens ss' l' =
         frames_tokens fs @ block_tokens ss l @ filter (\<lambda>t. \<not> is_comment t) [(tt, tok)])"
proof (cases tt)
  case TOKEN_TYPE_NORMAL
  then show ?thesis
    using turn by (rule_tac zst_step_normal[OF inv, of tok]) (fastforce simp: is_comment_def)
next
  case TOKEN_TYPE_START_BLOCK
  then have "tok = ''{''" using can by (simp add: canonical_def)
  with TOKEN_TYPE_START_BLOCK turn zst_step_start_block[OF inv] show ?thesis
    by (cases "l = TOKEN_TYPE_NORMAL") (fastforce simp: is_comment_def block_tokens_def)+
next
  case TOKEN_TYPE_END_BLOCK
  then have tok: "tok = ''}''" using can by (simp add: canonical_def)
  show ?thesis
  proof (cases fs)
    case Nil
    then show ?thesis
      using TOKEN_TYPE_END_BLOCK turn inv zst_end_block_root by (auto simp: zinv_def)
  next
    case (Cons f fs')
    then show ?thesis
      using TOKEN_TYPE_END_BLOCK turn tok zst_step_end_block[of f fs' ss l n] inv
      by (cases "l = TOKEN_TYPE_NORMAL") (fastforce simp: is_comment_def)+
  qed
next
  case TOKEN_TYPE_STATEMENT_END
  then have "tok = '';''" using can by (simp add: canonical_def)
  with TOKEN_TYPE_STATEMENT_END turn zst_step_end_statement[OF inv] show ?thesis
    by (fastforce simp: is_comment_def split: if_splits)
next
  case TOKEN_TYPE_COMMENT
  then show ?thesis using turn inv by (auto simp: is_comment_def)
next
  case TOKEN_TYPE_EOF
  then show ?thesis using turn no_next_at_eof by auto
qed (use turn in auto)

lemma run_sound:
  "zinv fs ss l n \<Longrightarrow> list_all canonical toks \<Longrightarrow> run (zst fs ss l n) toks = Inr out \<Longrightarrow> parsed out \<Longrightarrow>
   \<exists>mid e rest. toks = mid @ (TOKEN_TYPE_EOF, e) # rest \<and>
     frames_tokens fs @ block_tokens ss l @ filter (\<lambda>t. \<not> is_comment t) mid =
       config_tokens (parsed_config out) \<and>
     config_shape (parsed_config out)"
proof (induction toks arbitrary: fs ss l n)
  case Nil
  then show ?case by simp
next
  case (Cons t toks)
  obtain tt tok where t: "t = (tt, tok)" by (cases t)
  consider st where "parse_turn_of (zst fs ss l n) tt tok = Inr (Next st)" "run st toks = Inr out"
    | st where "parse_turn_of (zst fs ss l n) tt tok = Inr (Return_true st)" "parsed_config out = config st"
    using Cons.prems(3,4) t by (auto split: sum.splits parse_turn.splits)
  then show ?case
  proof cases
    case 1
    have "\<not> root_popped st"
      using 1(2) Cons.prems(4) run_after_root_popped by (auto simp: root_popped_def)
    then obtain fs' ss' l' n' where st: "st = zst fs' ss' l' n'" "zinv fs' ss' l' n'"
      and eq: "frames_tokens fs' @ block_tokens ss' l' =
         frames_tokens fs @ block_tokens ss l @ filter (\<lambda>t. \<not> is_comment t) [(tt, tok)]"
      using zst_step[OF Cons.prems(1) _ 1(1)] Cons.prems(2) t by auto
    obtain mid e rest where IH: "toks = mid @ (TOKEN_TYPE_EOF, e) # rest"
      "frames_tokens fs' @ block_tokens ss' l' @ filter (\<lambda>t. \<not> is_comment t) mid =
         config_tokens (parsed_config out)" "config_shape (parsed_config out)"
      using Cons.IH[OF st(2) _ _ Cons.prems(4)] Cons.prems(2) 1(2) st(1) by auto
    have "frames_tokens fs @ block_tokens ss l @ filter (\<lambda>t. \<not> is_comment t) (t # mid) =
        (frames_tokens fs' @ block_tokens ss' l') @ filter (\<lambda>t. \<not> is_comment t) mid"
      unfolding eq t by simp
    with IH show ?thesis by (intro exI[of _ "t # mid"] exI[of _ e] exI[of _ rest]) simp
  next
    case 2
    then have "tt = TOKEN_TYPE_EOF" and ret: "parse_eof (zst fs ss l n) = Return_true st"
      by (cases tt; auto simp: parse_normal_def parse_start_block_def parse_end_block_def Let_def
          split: if_splits list.splits option.splits)+
    then have "st = zst fs ss l n" "n = 0" "l \<noteq> TOKEN_TYPE_NORMAL"
      by (auto simp: parse_eof_def split: if_splits)
    with 2(2) Cons.prems(1) t \<open>tt = TOKEN_TYPE_EOF\<close> show ?thesis
      by (intro exI[of _ "[]"] exI[of _ tok] exI[of _ toks]) (auto simp: zinv_def block_tokens_def)
  qed
qed

section \<open>Where the behaviour is defined\<close>

text \<open>No prefix of the tokens closes more blocks than it has opened, starting from \<open>k\<close> open blocks.\<close>

fun balanced_from :: "nat \<Rightarrow> token list \<Rightarrow> bool" where
  "balanced_from k [] = True"
| "balanced_from k ((tt, tok) # toks) =
     (if tt = TOKEN_TYPE_START_BLOCK then balanced_from (Suc k) toks
      else if tt = TOKEN_TYPE_END_BLOCK then k > 0 \<and> balanced_from (k - 1) toks
      else balanced_from k toks)"

lemma run_defined:
  "zinv fs ss l n \<Longrightarrow> balanced_from (length fs) toks \<Longrightarrow>
   \<exists>t \<in> set toks. fst t = TOKEN_TYPE_EOF \<or> fst t = TOKEN_TYPE_ERROR \<Longrightarrow>
   \<exists>out. run (zst fs ss l n) toks = Inr out"
proof (induction toks arbitrary: fs ss l n)
  case Nil
  then show ?case by simp
next
  case (Cons t toks)
  note prems = Cons.prems and IH = Cons.IH
  obtain tt tok where t: "t = (tt, tok)" by (cases t)
  show ?case
  proof (cases tt)
    case TOKEN_TYPE_NORMAL
    obtain ss' where "parse_normal (zst fs ss l n) tok = Inr (Next (zst fs ss' TOKEN_TYPE_NORMAL n))"
      "zinv fs ss' TOKEN_TYPE_NORMAL n"
      using zst_step_normal[OF prems(1)] by metis
    then show ?thesis using IH[of fs ss' TOKEN_TYPE_NORMAL n] prems t TOKEN_TYPE_NORMAL by simp
  next
    case TOKEN_TYPE_START_BLOCK
    show ?thesis
    proof (cases "l = TOKEN_TYPE_NORMAL")
      case True
      obtain f where "parse_start_block (zst fs ss l n) =
          Inr (Next (zst (f # fs) [] TOKEN_TYPE_START_BLOCK (n + 1)))"
        "zinv (f # fs) [] TOKEN_TYPE_START_BLOCK (n + 1)"
        using zst_step_start_block(2)[OF prems(1) True] by blast
      then show ?thesis
        using IH[of "f # fs" "[]" TOKEN_TYPE_START_BLOCK "n + 1"] prems t TOKEN_TYPE_START_BLOCK by simp
    next
      case False
      then show ?thesis using zst_step_start_block(1)[OF prems(1)] t TOKEN_TYPE_START_BLOCK by auto
    qed
  next
    case TOKEN_TYPE_END_BLOCK
    then obtain f fs' where fs: "fs = f # fs'" using prems(2) t by (cases fs) auto
    show ?thesis
    proof (cases "l = TOKEN_TYPE_NORMAL")
      case True
      then show ?thesis using zst_step_end_block(1)[of f fs' ss l n] prems(1) fs t TOKEN_TYPE_END_BLOCK by auto
    next
      case False
      obtain ss' where "parse_end_block (zst (f # fs') ss l n) =
          Inr (Next (zst fs' ss' TOKEN_TYPE_END_BLOCK (n - 1)))"
        "zinv fs' ss' TOKEN_TYPE_END_BLOCK (n - 1)"
        using zst_step_end_block(2)[of f fs' ss l n] prems(1) fs False by blast
      then show ?thesis
        using IH[of fs' ss' TOKEN_TYPE_END_BLOCK "n - 1"] prems fs t TOKEN_TYPE_END_BLOCK by simp
    qed
  next
    case TOKEN_TYPE_STATEMENT_END
    then show ?thesis
      using IH[of fs ss TOKEN_TYPE_STATEMENT_END n] prems t zst_step_end_statement[OF prems(1)]
      by (cases "l = TOKEN_TYPE_NORMAL") simp_all
  next
    case TOKEN_TYPE_COMMENT
    then show ?thesis using IH[of fs ss l n] prems t by simp
  next
    case TOKEN_TYPE_EOF
    then show ?thesis using t by (auto simp: parse_eof_def)
  qed (use t in auto)
qed

section \<open>The tokenizer on printed configurations\<close>

definition is_blank :: "char \<Rightarrow> bool" where
  "is_blank c \<longleftrightarrow> c = SP \<or> c = TAB \<or> c = LF \<or> c = CR"

definition is_delim :: "char \<Rightarrow> bool" where
  "is_delim c \<longleftrightarrow> c = SP \<or> c = TAB \<or> c = LF \<or> c = CHR '';'' \<or> c = CHR ''{'' \<or> c = CHR ''}''"

definition starts_word :: "char \<Rightarrow> bool" where
  "starts_word c \<longleftrightarrow> \<not> is_blank c \<and> \<not> is_delim c \<and> c \<noteq> CHR ''#'' \<and> c \<noteq> CHR 0x22 \<and> c \<noteq> CHR 0x27"

definition bare_word :: "string \<Rightarrow> bool" where
  "bare_word t \<longleftrightarrow> t \<noteq> [] \<and> starts_word (hd t) \<and> list_all (\<lambda>c. \<not> is_delim c) t"

definition quoted_by :: "char \<Rightarrow> string \<Rightarrow> bool" where
  "quoted_by q t \<longleftrightarrow> 2 \<le> length t \<and> hd t = q \<and> last t = q \<and> q \<notin> set (butlast (tl t))"

definition word_ok :: "string \<Rightarrow> bool" where
  "word_ok t \<longleftrightarrow> bare_word t \<or> quoted_by (CHR 0x22) t \<or> quoted_by (CHR 0x27) t"

lemma quoted_by_iff: "quoted_by q t \<longleftrightarrow> (\<exists>m. t = q # m @ [q] \<and> q \<notin> set m)"
proof
  assume q: "quoted_by q t"
  then obtain c r where t: "t = c # r" "r \<noteq> []" by (cases t; cases "tl t") (auto simp: quoted_by_def)
  then have "t = q # butlast r @ [q]"
    using q append_butlast_last_id[of r] by (simp add: quoted_by_def)
  moreover have "q \<notin> set (butlast r)" using q t by (simp add: quoted_by_def)
  ultimately show "\<exists>m. t = q # m @ [q] \<and> q \<notin> set m" by blast
qed (auto simp: quoted_by_def)

lemma loop_word:
  "list_all (\<lambda>c. \<not> is_delim c) m \<Longrightarrow> is_delim d \<Longrightarrow>
   ParseToken_loop TOKEN_STATE_TOKEN_TYPE_NORMAL (m @ d # r) v = (TOKEN_TYPE_NORMAL, v @ m, d # r)"
proof (induction m arbitrary: v)
  case Nil
  then show ?case by (auto simp: is_delim_def)
next
  case (Cons c m)
  then have c: "\<not> (c = SP \<or> c = TAB \<or> c = LF \<or> c = TAB \<or> c = CHR '';'' \<or> c = CHR ''{'' \<or> c = CHR ''}'')"
    by (auto simp: is_delim_def)
  have "ParseToken_loop TOKEN_STATE_TOKEN_TYPE_NORMAL ((c # m) @ d # r) v =
      ParseToken_loop TOKEN_STATE_TOKEN_TYPE_NORMAL (m @ d # r) (v @ [c])"
    by (simp only: append_Cons ParseToken_loop.simps c if_False)
  with Cons show ?case by simp
qed

lemma loop_quotes:
  "CHR 0x22 \<notin> set m \<Longrightarrow> ParseToken_loop TOKEN_STATE_DOUBLE_QUOTE (m @ CHR 0x22 # r) v =
     (TOKEN_TYPE_NORMAL, v @ m @ [CHR 0x22], r)"
  "CHR 0x27 \<notin> set m \<Longrightarrow> ParseToken_loop TOKEN_STATE_SINGLE_QUOTE (m @ CHR 0x27 # r) v =
     (TOKEN_TYPE_NORMAL, v @ m @ [CHR 0x27], r)"
  by (induction m arbitrary: v) auto

lemma ParseToken_blank: "is_blank c \<Longrightarrow> ParseToken (c # r) = ParseToken r"
  by (auto simp: ParseToken_def is_blank_def)

lemma ParseToken_word:
  assumes "word_ok t" "is_delim d"
  shows "ParseToken (t @ d # r) = (TOKEN_TYPE_NORMAL, t, d # r)"
proof -
  consider "bare_word t" | m where "t = CHR 0x22 # m @ [CHR 0x22]" "CHR 0x22 \<notin> set m"
    | m where "t = CHR 0x27 # m @ [CHR 0x27]" "CHR 0x27 \<notin> set m"
    using assms(1) by (auto simp: word_ok_def quoted_by_iff)
  then show ?thesis
  proof cases
    case 1
    then obtain c m where t: "t = c # m" "starts_word c" "list_all (\<lambda>c. \<not> is_delim c) m"
      by (cases t) (auto simp: bare_word_def)
    have "ParseToken (t @ d # r) = ParseToken_loop TOKEN_STATE_TOKEN_TYPE_NORMAL (m @ d # r) [c]"
      using t by (simp add: ParseToken_def starts_word_def is_blank_def is_delim_def)
    with t assms(2) show ?thesis by (simp add: loop_word)
  next
    case 2
    then show ?thesis by (simp add: ParseToken_def loop_quotes)
  next
    case 3
    then show ?thesis by (simp add: ParseToken_def loop_quotes)
  qed
qed

lemma lex_blank: "is_blank c \<Longrightarrow> lex (c # r) = lex r"
  by (subst (1 2) lex.simps) (simp add: ParseToken_blank)

lemma lex_blanks: "list_all is_blank w \<Longrightarrow> lex (w @ r) = lex r"
  by (induction w) (simp_all add: lex_blank)

lemma lex_word: "word_ok t \<Longrightarrow> is_delim d \<Longrightarrow> lex (t @ d # r) = word_token t # lex (d # r)"
  by (subst lex.simps) (simp add: ParseToken_word)

lemma lex_punctuation:
  "lex (CHR '';'' # r) = end_token # lex r"
  "lex (CHR ''{'' # r) = open_token # lex r"
  "lex (CHR ''}'' # r) = close_token # lex r"
  by (subst lex.simps, simp add: ParseToken_def)+

lemma lex_Nil: "lex [] = [(TOKEN_TYPE_EOF, [])]"
  by (subst lex.simps) (simp add: ParseToken_def)

lemma lex_join_tokens:
  "list_all word_ok ts \<Longrightarrow> is_delim d \<Longrightarrow> lex (join_tokens ts @ d # r) = map word_token ts @ lex (d # r)"
proof (induction ts rule: join_tokens.induct)
  case (3 t u ts)
  have "is_delim SP" "is_blank SP" by (simp_all add: is_delim_def is_blank_def)
  with 3 show ?case by (simp add: lex_word lex_blank)
qed (simp_all add: lex_word)

lemma indent_blank: "list_all is_blank (indent d)"
  by (simp add: indent_def list_all_iff is_blank_def)

fun config_words_ok :: "NginxConfig \<Rightarrow> bool"
  and statement_words_ok :: "NginxConfigStatement \<Rightarrow> bool" where
  "config_words_ok (NginxConfig ss) \<longleftrightarrow> list_all statement_words_ok ss"
| "statement_words_ok (NginxConfigStatement ts child) \<longleftrightarrow>
     list_all word_ok ts \<and> (case child of None \<Rightarrow> True | Some c \<Rightarrow> config_words_ok c)"

lemma lex_config_ToString:
  "config_words_ok c \<Longrightarrow> lex (config_ToString c d @ r) = config_tokens c @ lex r"
  and lex_statement_ToString:
  "statement_words_ok s \<Longrightarrow> lex (statement_ToString s d @ r) = statement_tokens s @ lex r"
proof (induction c d and s d arbitrary: r and r rule: config_ToString_statement_ToString.induct)
  case (1 ss depth)
  have "lex (concat (map (\<lambda>s. statement_ToString s depth) vs) @ r) = statements_tokens vs @ lex r"
    if "set vs \<subseteq> set ss" for vs r
    using that 1 by (induction vs) (auto simp: list_all_iff)
  then show ?case by simp
next
  case (2 ts child depth)
  have d: "is_delim CHR '';''" "is_delim SP" "is_blank SP" "is_blank LF"
    by (simp_all add: is_delim_def is_blank_def)
  note lexs = lex_blanks[OF indent_blank] lex_join_tokens lex_punctuation lex_blank
  show ?case
  proof (cases child)
    case None
    with 2 d show ?thesis by (simp add: lexs)
  next
    case (Some c)
    with 2 d show ?thesis by (simp add: lexs)
  qed
qed

section \<open>What the tokenizer delivers\<close>

lemma loop_word_result:
  "ParseToken_loop TOKEN_STATE_TOKEN_TYPE_NORMAL input v = (tt, tok, rest) \<Longrightarrow>
   (tt = TOKEN_TYPE_NORMAL \<or> tt = TOKEN_TYPE_EOF) \<and>
   (\<exists>m. tok = v @ m \<and> list_all (\<lambda>c. \<not> is_delim c) m)"
proof (induction input arbitrary: v)
  case Nil
  then show ?case by auto
next
  case (Cons c input)
  show ?case
  proof (cases "is_delim c")
    case True
    then have "ParseToken_loop TOKEN_STATE_TOKEN_TYPE_NORMAL (c # input) v = (TOKEN_TYPE_NORMAL, v, c # input)"
      by (auto simp: is_delim_def)
    with Cons.prems show ?thesis by auto
  next
    case False
    then have "ParseToken_loop TOKEN_STATE_TOKEN_TYPE_NORMAL (c # input) v =
        ParseToken_loop TOKEN_STATE_TOKEN_TYPE_NORMAL input (v @ [c])"
      by (simp add: is_delim_def)
    with Cons.prems obtain m where "tt = TOKEN_TYPE_NORMAL \<or> tt = TOKEN_TYPE_EOF"
      "tok = (v @ [c]) @ m" "list_all (\<lambda>c. \<not> is_delim c) m"
      using Cons.IH[of "v @ [c]"] by auto
    with False show ?thesis by (auto intro!: exI[of _ "c # m"])
  qed
qed

lemma loop_quote_result:
  "ParseToken_loop TOKEN_STATE_DOUBLE_QUOTE input v = (tt, tok, rest) \<Longrightarrow>
   tt = TOKEN_TYPE_ERROR \<or>
   tt = TOKEN_TYPE_NORMAL \<and> (\<exists>m. tok = v @ m @ [CHR 0x22] \<and> CHR 0x22 \<notin> set m)"
  "ParseToken_loop TOKEN_STATE_SINGLE_QUOTE input v = (tt, tok, rest) \<Longrightarrow>
   tt = TOKEN_TYPE_ERROR \<or>
   tt = TOKEN_TYPE_NORMAL \<and> (\<exists>m. tok = v @ m @ [CHR 0x27] \<and> CHR 0x27 \<notin> set m)"
proof (induction input arbitrary: v)
  case (Cons c input)
  {
    case 1
    show ?case
    proof (cases "c = CHR 0x22")
      case False
      with 1 Cons.IH(1)[of "v @ [c]"] show ?thesis by (fastforce intro: exI[of _ "c # _"])
    qed (use 1 in auto)
  next
    case 2
    show ?case
    proof (cases "c = CHR 0x27")
      case False
      with 2 Cons.IH(2)[of "v @ [c]"] show ?thesis by (fastforce intro: exI[of _ "c # _"])
    qed (use 2 in auto)
  }
qed simp_all

lemma loop_comment_result:
  "ParseToken_loop TOKEN_STATE_TOKEN_TYPE_COMMENT input v = (tt, tok, rest) \<Longrightarrow>
   tt = TOKEN_TYPE_COMMENT \<or> tt = TOKEN_TYPE_EOF"
  by (induction input arbitrary: v) (auto split: if_split_asm)

lemma ParseToken_result:
  assumes "ParseToken input = (tt, tok, rest)"
  shows "canonical (tt, tok)" and "tt = TOKEN_TYPE_NORMAL \<Longrightarrow> word_ok tok" and "tt \<noteq> TOKEN_TYPE_START"
proof -
  have "canonical (tt, tok) \<and> (tt = TOKEN_TYPE_NORMAL \<longrightarrow> word_ok tok) \<and> tt \<noteq> TOKEN_TYPE_START"
    using assms
  proof (induction input)
    case Nil
    then show ?case by (simp add: ParseToken_def canonical_def)
  next
    case (Cons c input)
    consider "is_blank c" | "c = CHR ''{'' \<or> c = CHR ''}'' \<or> c = CHR '';''" | "c = CHR ''#''"
      | "c = CHR 0x22" | "c = CHR 0x27" | "starts_word c"
      by (auto simp: starts_word_def is_delim_def is_blank_def)
    then show ?case
    proof cases
      case 1
      with Cons show ?thesis by (simp add: ParseToken_blank)
    next
      case 2
      with Cons.prems show ?thesis by (auto simp: ParseToken_def canonical_def)
    next
      case 3
      with Cons.prems loop_comment_result[of input "[c]"] show ?thesis
        by (auto simp: ParseToken_def canonical_def)
    next
      case 4
      with Cons.prems loop_quote_result(1)[of input "[c]"] show ?thesis
        by (auto simp: ParseToken_def canonical_def word_ok_def quoted_by_iff)
    next
      case 5
      with Cons.prems loop_quote_result(2)[of input "[c]"] show ?thesis
        by (auto simp: ParseToken_def canonical_def word_ok_def quoted_by_iff)
    next
      case 6
      then have "ParseToken (c # input) = ParseToken_loop TOKEN_STATE_TOKEN_TYPE_NORMAL input [c]"
        by (simp add: ParseToken_def starts_word_def is_blank_def is_delim_def)
      with Cons.prems 6 loop_word_result[of input "[c]"] show ?thesis
        by (auto simp: canonical_def word_ok_def bare_word_def starts_word_def)
    qed
  qed
  then show "canonical (tt, tok)" "tt = TOKEN_TYPE_NORMAL \<Longrightarrow> word_ok tok" "tt \<noteq> TOKEN_TYPE_START"
    by auto
qed

lemma lex_result:
  "list_all canonical (lex input) \<and> list_all (\<lambda>(tt, tok). tt = TOKEN_TYPE_NORMAL \<longrightarrow> word_ok tok) (lex input)"
proof (induction input rule: lex.induct)
  case (1 input)
  obtain tt tok rest where "ParseToken input = (tt, tok, rest)" by (cases "ParseToken input")
  with 1 ParseToken_result[of input tt tok rest] show ?case
    by (subst (1 2) lex.simps) auto
qed

lemma lex_ends:
  "\<exists>pre tt e. lex input = pre @ [(tt, e)] \<and> (tt = TOKEN_TYPE_EOF \<or> tt = TOKEN_TYPE_ERROR) \<and>
     list_all (\<lambda>t. fst t \<noteq> TOKEN_TYPE_EOF \<and> fst t \<noteq> TOKEN_TYPE_ERROR) pre"
proof (induction input rule: lex.induct)
  case (1 input)
  obtain tt tok rest where pt: "ParseToken input = (tt, tok, rest)" by (cases "ParseToken input")
  show ?case
  proof (cases "tt = TOKEN_TYPE_EOF \<or> tt = TOKEN_TYPE_ERROR")
    case True
    with pt show ?thesis by (subst lex.simps) auto
  next
    case False
    with 1 pt obtain pre tt' e where
      "lex rest = pre @ [(tt', e)]" "tt' = TOKEN_TYPE_EOF \<or> tt' = TOKEN_TYPE_ERROR"
      "list_all (\<lambda>t. fst t \<noteq> TOKEN_TYPE_EOF \<and> fst t \<noteq> TOKEN_TYPE_ERROR) pre"
      by force
    with False pt show ?thesis
      by (subst lex.simps) (auto intro!: exI[of _ "(tt, tok) # pre"])
  qed
qed

lemma tokens_words_ok:
  "list_all (\<lambda>(tt, tok). tt = TOKEN_TYPE_NORMAL \<longrightarrow> word_ok tok) (config_tokens c) \<Longrightarrow> config_words_ok c"
  "list_all (\<lambda>(tt, tok). tt = TOKEN_TYPE_NORMAL \<longrightarrow> word_ok tok) (statement_tokens s) \<Longrightarrow> statement_words_ok s"
  by (induction c and s rule: config_tokens_statement_tokens.induct)
    (auto simp: list_all_iff split: option.splits)

section \<open>Properties of the parser\<close>

lemma Parse_zst: "Parse input (NginxConfig []) = run (zst [] [] TOKEN_TYPE_START 0) (lex input)"
  by (simp add: Parse_def Parse_loop_run initial_parse_state_def zst_def)

lemma zinv_initial: "zinv [] [] TOKEN_TYPE_START 0"
  by (simp add: zinv_def frames_shape_def begins_statement_def)

definition accepts :: "string \<Rightarrow> NginxConfig \<Rightarrow> bool" where
  "accepts input c \<longleftrightarrow>
     Parse input (NginxConfig []) = Inr \<lparr>parsed = True, parsed_config = c, printed = []\<rparr>"

definition code_tokens :: "string \<Rightarrow> token list" where
  "code_tokens input = filter (\<lambda>t. \<not> is_comment t) (lex input)"

lemma run_parsed_output: "run st toks = Inr out \<Longrightarrow> parsed out \<Longrightarrow> printed out = []"
  by (induction st toks rule: run.induct) (auto split: sum.splits parse_turn.splits)

lemma accepts_iff_run:
  "accepts input c \<longleftrightarrow>
     (\<exists>out. run (zst [] [] TOKEN_TYPE_START 0) (lex input) = Inr out \<and> parsed out \<and> parsed_config out = c)"
  using run_parsed_output[of _ "lex input"]
  by (auto simp: accepts_def Parse_zst intro: parse_output.equality)

lemma accepts_sound:
  assumes "accepts input c"
  shows "config_shape c \<and> (\<exists>e. code_tokens input = config_tokens c @ [(TOKEN_TYPE_EOF, e)])"
proof -
  obtain out where out: "run (zst [] [] TOKEN_TYPE_START 0) (lex input) = Inr out" "parsed out"
    "parsed_config out = c"
    using assms by (auto simp: accepts_iff_run)
  obtain mid e rest where eq: "lex input = mid @ (TOKEN_TYPE_EOF, e) # rest"
    "filter (\<lambda>t. \<not> is_comment t) mid = config_tokens c" "config_shape c"
    using run_sound[OF zinv_initial _ out(1,2)] lex_result out(3) by (auto simp: block_tokens_def)
  obtain pre tt e' where "lex input = pre @ [(tt, e')]"
    "list_all (\<lambda>t. fst t \<noteq> TOKEN_TYPE_EOF \<and> fst t \<noteq> TOKEN_TYPE_ERROR) pre"
    using lex_ends by blast
  with eq(1) have "rest = []"
    by (cases rest rule: rev_cases) (auto simp: list_all_iff)
  with eq show ?thesis by (auto simp: code_tokens_def is_comment_def)
qed

lemma accepts_complete:
  assumes "config_shape c" "code_tokens input = config_tokens c @ [(TOKEN_TYPE_EOF, e)]"
  shows "accepts input c"
proof -
  have b: "begins_statement TOKEN_TYPE_START" by (simp add: begins_statement_def)
  have "last_type TOKEN_TYPE_START (statements c) \<in>
      {TOKEN_TYPE_STATEMENT_END, TOKEN_TYPE_END_BLOCK, TOKEN_TYPE_START}"
    using closing_type_cases[of "last (statements c)"] by (auto simp: last_type_def)
  then have "run (zst [] [] TOKEN_TYPE_START 0) (code_tokens input) =
      Inr \<lparr>parsed = True, parsed_config = c, printed = []\<rparr>"
    unfolding assms(2) run_config_tokens[OF assms(1) b]
    by (auto simp: parse_eof_def)
  then show ?thesis
    using run_skip_comments by (simp add: accepts_def Parse_zst code_tokens_def)
qed

text \<open>C5: \<open>Parse\<close> returns true with the configuration \<open>c\<close> on exactly the inputs whose
  tokens, comments left out, are the tokens of \<open>c\<close> followed by the end of the stream, where every
  statement of \<open>c\<close> has a token.\<close>

theorem Parse_accepts_exactly_the_grammar:
  "accepts input c \<longleftrightarrow>
     config_shape c \<and> (\<exists>e. code_tokens input = config_tokens c @ [(TOKEN_TYPE_EOF, e)])"
  using accepts_sound accepts_complete by blast

lemma accepts_words_ok:
  assumes "accepts input c"
  shows "config_words_ok c"
proof -
  obtain e where "code_tokens input = config_tokens c @ [(TOKEN_TYPE_EOF, e)]"
    using accepts_sound[OF assms] by blast
  moreover have "list_all (\<lambda>(tt, tok). tt = TOKEN_TYPE_NORMAL \<longrightarrow> word_ok tok) (code_tokens input)"
    using lex_result[of input] by (auto simp: code_tokens_def list_all_iff)
  ultimately show ?thesis by (intro tokens_words_ok(1)) simp
qed

lemma no_comment_tokens:
  "\<forall>t \<in> set (config_tokens c). \<not> is_comment t"
  "\<forall>t \<in> set (statement_tokens s). \<not> is_comment t"
  by (induction c and s rule: config_tokens_statement_tokens.induct)
    (auto simp: is_comment_def split: option.splits)

lemma code_tokens_ToString:
  "config_words_ok c \<Longrightarrow> code_tokens (config_ToString c d @ r) = config_tokens c @ code_tokens r"
  by (simp add: code_tokens_def lex_config_ToString filter_True no_comment_tokens)

text \<open>C10: Printing a configuration that \<open>Parse\<close> accepted, at any depth, and parsing the result
  gives the same configuration back.\<close>

theorem Parse_ToString_roundtrip:
  assumes "accepts input c"
  shows "accepts (config_ToString c depth) c"
proof (rule accepts_complete)
  show "config_shape c" using accepts_sound[OF assms] by simp
  show "code_tokens (config_ToString c depth) = config_tokens c @ [(TOKEN_TYPE_EOF, [])]"
    using code_tokens_ToString[OF accepts_words_ok[OF assms], of depth "[]"]
    by (simp add: code_tokens_def lex_Nil is_comment_def)
qed

definition example_config :: NginxConfig where
  "example_config = NginxConfig
     [NginxConfigStatement [''port'', ''8080''] None,
      NginxConfigStatement [''location'', [CHR 0x22] @ ''/echo/'' @ [CHR 0x22], ''EchoHandler'']
        (Some (NginxConfig []))]"

definition example_input :: string where
  "example_input = ''port 8080;'' @ [LF] @ ''location '' @ [CHR 0x22] @ ''/echo/'' @ [CHR 0x22] @
     '' EchoHandler {} # echo''"

lemma example_accepted: "accepts example_input example_config"
  unfolding accepts_def example_input_def example_config_def by code_simp

theorem Parse_ToString_roundtrip_witness:
  "accepts example_input example_config \<and> accepts (config_ToString example_config 3) example_config"
  using example_accepted Parse_ToString_roundtrip[OF example_accepted, of 3] by blast

text \<open>C39: On an input in which no prefix closes more blocks than it opens, \<open>Parse\<close> returns: no
  access to an empty stack, to an empty vector or through a dangling pointer happens.\<close>

theorem Parse_defined_when_balanced:
  assumes "balanced_from 0 (lex input)"
  shows "\<exists>out. Parse input (NginxConfig []) = Inr out"
proof -
  have "\<exists>t \<in> set (lex input). fst t = TOKEN_TYPE_EOF \<or> fst t = TOKEN_TYPE_ERROR"
    using lex_ends[of input] by force
  with run_defined[OF zinv_initial] assms show ?thesis by (simp add: Parse_zst)
qed

theorem Parse_defined_when_balanced_witness:
  "balanced_from 0 (lex ''a { b; } c'') \<and> (\<exists>out. Parse ''a { b; } c'' (NginxConfig []) = Inr out)"
proof -
  have "balanced_from 0 (lex ''a { b; } c'')" by code_simp
  with Parse_defined_when_balanced[OF this] show ?thesis by blast
qed

text \<open>C40: A complete, non-empty configuration followed by a surplus closing brace and then a
  word makes \<open>Parse\<close> read the top of an empty stack; a second surplus brace makes it pop one.\<close>

theorem Parse_surplus_brace_undefined:
  assumes "config_shape c" "statements c \<noteq> []"
    and "code_tokens input = config_tokens c @ close_token # (tt, w) # rest"
    and "tt = TOKEN_TYPE_NORMAL \<or> tt = TOKEN_TYPE_END_BLOCK"
  shows "Parse input (NginxConfig []) = Inl UB_empty_stack"
proof -
  have b: "begins_statement TOKEN_TYPE_START" by (simp add: begins_statement_def)
  let ?l = "last_type TOKEN_TYPE_START (statements c)"
  have "?l = TOKEN_TYPE_STATEMENT_END \<or> ?l = TOKEN_TYPE_END_BLOCK"
    using assms(2) closing_type_cases[of "last (statements c)"] by (simp add: last_type_def)
  then have "run (zst [] [] TOKEN_TYPE_START 0) (code_tokens input) = Inl UB_empty_stack"
    unfolding assms(3) run_config_tokens[OF assms(1) b] using assms(4)
    by (auto simp: parse_end_block_def parse_normal_def Let_def)
  then show ?thesis
    using run_skip_comments by (simp add: Parse_zst code_tokens_def)
qed

theorem Parse_surplus_brace_undefined_witness:
  "config_shape (NginxConfig [NginxConfigStatement [''line''] None]) \<and>
   Parse ''line;}}'' (NginxConfig []) = Inl UB_empty_stack"
proof -
  let ?c = "NginxConfig [NginxConfigStatement [''line''] None]"
  have shape: "config_shape ?c" "statements ?c \<noteq> []" by simp_all
  have toks: "code_tokens ''line;}}'' =
      config_tokens ?c @ close_token # (TOKEN_TYPE_END_BLOCK, ''}'') # [(TOKEN_TYPE_EOF, [])]"
    by code_simp
  from shape Parse_surplus_brace_undefined[OF shape toks] show ?thesis by simp
qed

text \<open>A bare word between the last statement and the end of the file is dropped without an
  error: \<open>ParseToken\<close> reports the end of the stream instead of the word.\<close>

theorem Parse_ignores_trailing_word:
  assumes "accepts input c" "bare_word w"
  shows "accepts (config_ToString c depth @ w) c"
proof (rule accepts_complete)
  show "config_shape c" using accepts_sound[OF assms(1)] by simp
  obtain a m where w: "w = a # m" "starts_word a" "list_all (\<lambda>c. \<not> is_delim c) m"
    using assms(2) by (cases w) (auto simp: bare_word_def)
  have "ParseToken_loop TOKEN_STATE_TOKEN_TYPE_NORMAL m v = (TOKEN_TYPE_EOF, v @ m, [])" for v
    using w(3) by (induction m arbitrary: v) (simp_all add: is_delim_def)
  then have "lex w = [(TOKEN_TYPE_EOF, w)]"
    using w by (subst lex.simps)
      (simp add: ParseToken_def starts_word_def is_blank_def is_delim_def)
  then show "code_tokens (config_ToString c depth @ w) = config_tokens c @ [(TOKEN_TYPE_EOF, w)]"
    using code_tokens_ToString[OF accepts_words_ok[OF assms(1)], of depth w]
    by (simp add: code_tokens_def is_comment_def)
qed

theorem Parse_ignores_trailing_word_witness:
  "bare_word ''junk'' \<and> accepts (config_ToString example_config 0 @ ''junk'') example_config"
proof -
  have "bare_word ''junk''" by code_simp
  with Parse_ignores_trailing_word[OF example_accepted this, of 0] show ?thesis by simp
qed

section \<open>Properties of the queries\<close>

text \<open>The port values of a configuration in document order, and the search through them.\<close>

fun config_ports :: "NginxConfig \<Rightarrow> string list"
  and statement_ports :: "NginxConfigStatement \<Rightarrow> string list" where
  "config_ports (NginxConfig ss) = concat (map statement_ports ss)"
| "statement_ports (NginxConfigStatement ts child) =
     (case child of
        Some c \<Rightarrow> config_ports c
      | None \<Rightarrow> if length ts = 2 \<and> ts ! 0 = ''port'' then [ts ! 1] else [])"

fun first_port :: "string list \<Rightarrow> int result" where
  "first_port [] = Inr (- 1)"
| "first_port (p # ps) =
     and_then (atoi p) (\<lambda>n. if 0 \<le> n \<and> n \<le> 65535 then Inr n else first_port ps)"

lemma first_port_append:
  "first_port (xs @ ys) = and_then (first_port xs) (\<lambda>n. if n = - 1 then first_port ys else Inr n)"
proof (induction xs)
  case (Cons x xs)
  then show ?case by (cases "atoi x") auto
qed simp

lemma parse_port_flat:
  "config_parse_port c = first_port (config_ports c)"
  "statements_parse_port ss = first_port (concat (map statement_ports ss))"
proof (induction c and ss rule: config_parse_port_statements_parse_port.induct)
  case (3 ts ss)
  then show ?case by (cases "atoi (ts ! 1)") auto
next
  case (4 ts c ss)
  then show ?case by (cases "first_port (config_ports c)") (auto simp: first_port_append)
qed simp_all

lemma first_port_range: "first_port ps = Inr n \<Longrightarrow> n = - 1 \<or> 0 \<le> n \<and> n \<le> 65535"
  by (induction ps) (auto split: if_splits)

text \<open>\<open>parse_port\<close>, with its recursion into nested blocks, returns the first valid port among
  all port statements in document order, and -1 when no port statement is valid.\<close>

theorem parse_port_first_valid: "config_parse_port c = first_port (config_ports c)"
  by (rule parse_port_flat)

text \<open>A token delivered by the tokenizer is never empty, so cutting the quotes off the
  location of an accepted configuration cannot throw.\<close>

lemma word_ok_nonempty: "word_ok t \<Longrightarrow> t \<noteq> []"
  by (auto simp: word_ok_def bare_word_def quoted_by_def)

lemma location_results_defined:
  "list_all statement_words_ok ss \<Longrightarrow> \<exists>ls. location_results ss = Inr ls"
proof (induction ss)
  case (Cons s ss)
  then obtain ls where ls: "location_results ss = Inr ls" by auto
  obtain ts child where s: "s = NginxConfigStatement ts child" by (cases s)
  have "ts ! 1 \<noteq> []" if "length ts = 3"
    using Cons.prems s that by (intro word_ok_nonempty) (simp add: list_all_iff)
  then show ?case
    using ls s by (auto simp: substr_def Suc_le_eq)
qed simp

lemma substr_unquote: "length t + 2 < 2 ^ 64 \<Longrightarrow> substr (q # t @ [q]) 1 (size_minus (length (q # t @ [q])) 2) = Inr t"
  by (simp add: substr_def cxx_simps)

text \<open>On every accepted configuration \<open>get_location_result\<close> returns (no
  \<open>std::out_of_range\<close> from cutting off the quotes).\<close>

theorem get_location_result_defined:
  assumes "accepts input c"
  shows "\<exists>ls. get_location_result c = Inr ls"
proof -
  obtain ss where c: "c = NginxConfig ss" by (cases c)
  then have "list_all statement_words_ok ss" using accepts_words_ok[OF assms] by simp
  with c show ?thesis by (simp add: get_location_result_def location_results_defined)
qed

theorem get_location_result_defined_witness:
  "accepts example_input example_config \<and> (\<exists>ls. get_location_result example_config = Inr ls)"
  using example_accepted get_location_result_defined[OF example_accepted] by blast

end
