(* ===== verification/Server.thy ===== *)
theory Server
  imports Session_Correct Config_Correct "HOL-Library.Word"
begin

text \<open>
  The server (\<open>server.h\<close>, \<open>server.cc\<close>, \<open>server_main.cc\<close>): the location table built from
  the configuration, the accept loop with its limit on open connections, and \<open>main\<close>.
\<close>

section \<open>The location table\<close>

text \<open>The \<open>init\<close> functions by handler name; \<^const>\<open>None\<close> for a name the server does not know.\<close>

definition init_handler :: "string \<Rightarrow> string \<Rightarrow> NginxConfig \<Rightarrow> request_handler option result" where
  "init_handler name uri conf =
     (if name = ''EchoHandler'' then Inr (Some (echo_init uri conf))
      else if name = ''StaticHandler'' then
        and_then (static_init uri conf) (\<lambda>h. Inr (Some (case h of Some s \<Rightarrow> StaticHandler s | None \<Rightarrow> NotFoundHandler)))
      else if name = ''StatusHandler'' then Inr (Some (status_init uri conf))
      else if name = ''NotFoundHandler'' then Inr (Some (not_found_init uri conf))
      else if name = ''ProxyHandler'' then
        and_then (proxy_init uri conf) (\<lambda>h. Inr (Some (case h of Some px \<Rightarrow> ProxyHandler px | None \<Rightarrow> NotFoundHandler)))
      else if name = ''HealthHandler'' then Inr (Some (health_init uri conf))
      else Inr None)"

definition known_handlers :: "string list" where
  "known_handlers = [''EchoHandler'', ''StaticHandler'', ''StatusHandler'', ''NotFoundHandler'', ''ProxyHandler'', ''HealthHandler'']"

text \<open>
  \<open>add_request_handler\<close> binds \<open>*res.block_config\<close>, a null pointer when the location statement
  has no block; \<open>std::map::insert\<close> keeps an earlier handler of the same location.
\<close>

definition add_request_handler ::
  "location_parse_result \<Rightarrow> (string, request_handler) entries \<Rightarrow> (string, request_handler) entries result" where
  "add_request_handler res m =
     (if loc_handler_name res \<in> set known_handlers then
        (case loc_block_config res of
           None \<Rightarrow> Inl UB_null_deref
         | Some conf \<Rightarrow>
             and_then (init_handler (loc_handler_name res) (loc_uri res) conf) (\<lambda>h.
               Inr (case h of Some sr \<Rightarrow> map_insert (loc_uri res) sr m | None \<Rightarrow> m)))
      else Inr m)"

fun add_handlers ::
  "location_parse_result list \<Rightarrow> (string, request_handler) entries \<Rightarrow> (string, request_handler) entries result" where
  "add_handlers [] m = Inr m"
| "add_handlers (r # rs) m = and_then (add_request_handler r m) (add_handlers rs)"

section \<open>The accept loop\<close>

text \<open>
  At any time one of these is outstanding: an \<open>async_accept\<close> for a session that was created
  for it, or the timer of the back-off; a stopped server has neither.
\<close>

datatype accept_phase = Accepting | Backing_off | Stopped

record acceptor =
  ac_cnt :: int
  ac_phase :: accept_phase
  ac_sessions :: nat
  ac_log :: log

definition int_to_string :: "int \<Rightarrow> string" where
  "int_to_string i = (if i < 0 then ''-'' @ to_string (nat (- i)) else to_string (nat i))"

definition start_accept :: "acceptor \<Rightarrow> acceptor" where
  "start_accept a =
     (let a1 = a\<lparr>ac_log := log_trace_file (''Number of Connections: '' @ int_to_string (ac_cnt a)) (ac_log a)\<rparr> in
      if ac_cnt a > 100 then a1\<lparr>ac_phase := Backing_off\<rparr>
      else a1\<lparr>ac_cnt := ac_cnt a + 1, ac_phase := Accepting\<rparr>)"

text \<open>The destructor of a connection.\<close>

definition destroy_connection :: "acceptor \<Rightarrow> acceptor" where
  "destroy_connection a = a\<lparr>ac_cnt := ac_cnt a - 1\<rparr>"

text \<open>
  \<open>handle_accept\<close> starts the session, which from then on keeps itself alive by its pending
  read; after an error the session dies with the completed operation, once \<open>start_accept\<close> has
  run.
\<close>

definition handle_accept :: "bool \<Rightarrow> acceptor \<Rightarrow> acceptor" where
  "handle_accept failed a =
     (if \<not> failed then start_accept (a\<lparr>ac_sessions := ac_sessions a + 1\<rparr>)
      else destroy_connection (start_accept a))"

definition signal_handler :: "acceptor \<Rightarrow> acceptor" where
  "signal_handler a = a\<lparr>ac_phase := Stopped, ac_log := log_warning_file ''server is shutting down'' (ac_log a)\<rparr>"

text \<open>A session ends when its read fails: the last reference goes and with it the connection.\<close>

definition end_session :: "acceptor \<Rightarrow> acceptor" where
  "end_session a = destroy_connection (a\<lparr>ac_sessions := ac_sessions a - 1\<rparr>)"

definition initial_acceptor :: "log \<Rightarrow> acceptor" where
  "initial_acceptor lg = start_accept \<lparr>ac_cnt = 0, ac_phase = Stopped, ac_sessions = 0, ac_log = lg\<rparr>"

inductive accept_step :: "acceptor \<Rightarrow> acceptor \<Rightarrow> bool" where
  accepted: "ac_phase a = Accepting \<Longrightarrow> accept_step a (handle_accept failed a)"
| timer: "ac_phase a = Backing_off \<Longrightarrow> accept_step a (start_accept a)"
| session_over: "ac_sessions a > 0 \<Longrightarrow> ac_phase a \<noteq> Stopped \<Longrightarrow> accept_step a (end_session a)"
| signal: "ac_phase a \<noteq> Stopped \<Longrightarrow> accept_step a (signal_handler a)"

inductive accept_reachable :: "log \<Rightarrow> acceptor \<Rightarrow> bool" for lg where
  init: "accept_reachable lg (initial_acceptor lg)"
| step: "accept_reachable lg a \<Longrightarrow> accept_step a a' \<Longrightarrow> accept_reachable lg a'"

inductive_cases accept_stepE: "accept_step a a'"

definition accept_inv :: "acceptor \<Rightarrow> bool" where
  "accept_inv a \<longleftrightarrow> (ac_phase a \<noteq> Stopped \<longrightarrow>
     ac_cnt a = int (ac_sessions a) + (if ac_phase a = Accepting then 1 else 0)) \<and> ac_cnt a \<le> 101"

lemmas accept_defs = start_accept_def destroy_connection_def handle_accept_def signal_handler_def
  end_session_def initial_acceptor_def Let_def

lemma accept_step_inv: "accept_inv a \<Longrightarrow> accept_step a a' \<Longrightarrow> accept_inv a'"
  by (erule accept_stepE) (auto simp: accept_inv_def accept_defs)

lemma accept_reachable_inv: "accept_reachable lg a \<Longrightarrow> accept_inv a"
proof (induction rule: accept_reachable.induct)
  case init
  show ?case by (simp add: accept_inv_def accept_defs)
next
  case (step a a')
  then show ?case by (blast intro: accept_step_inv)
qed

section \<open>Start-up\<close>

text \<open>\<open>(short)port\<close> passed on as the \<open>unsigned short\<close> of an endpoint.\<close>

definition port_argument :: "int \<Rightarrow> 16 word" where
  "port_argument port = word_of_int port"

definition endpoint_port :: "16 word \<Rightarrow> nat" where
  "endpoint_port w = unat w"

record server =
  srv_port :: nat
  srv_shared :: shared
  srv_acceptor :: acceptor

definition new_server :: "16 word \<Rightarrow> NginxConfig \<Rightarrow> log \<Rightarrow> server result" where
  "new_server port conf lg =
     and_then (get_location_result conf) (\<lambda>location_results.
     and_then (add_handlers location_results []) (\<lambda>m.
     and_then (log_all_handlers conf lg) (\<lambda>lg1.
       let a = initial_acceptor lg1 in
       Inr \<lparr>srv_port = endpoint_port port,
            srv_shared = \<lparr>sv_handlers = m, sv_cache = Map.empty, sv_world = \<lparr>w_log = ac_log a, w_sent = 0\<rparr>\<rparr>,
            srv_acceptor = a\<rparr>)))"

text \<open>
  \<open>main\<close>: the exit code and the log, or the server that runs in 16 threads until it is stopped.
  \<open>bind p\<close> is the message of the exception that opening the port throws, if any, and \<open>what\<close>
  the message of the exceptions of the standard library.
\<close>

datatype main_outcome = Exit int log | Running server log

definition catch_exception :: "string \<Rightarrow> log \<Rightarrow> main_outcome" where
  "catch_exception msg lg =
     (if msg = ''bind: Permission denied''
      then Exit 0 (log_error_file ''port forbidden please choose another port'' lg)
      else Exit 1 (log_error_file msg lg))"

fun is_exception :: "cxx_error \<Rightarrow> bool" where
  "is_exception Throw_out_of_range = True"
| "is_exception Throw_invalid_argument = True"
| "is_exception Throw_system_error = True"
| "is_exception _ = False"

text \<open>The \<open>catch\<close> around the body of \<open>main\<close>; undefined behaviour stays undefined.\<close>

definition guarded :: "(cxx_error \<Rightarrow> string) \<Rightarrow> log \<Rightarrow> 'a result \<Rightarrow> ('a \<Rightarrow> main_outcome result) \<Rightarrow> main_outcome result" where
  "guarded what lg r f =
     (case r of
        Inr x \<Rightarrow> f x
      | Inl e \<Rightarrow> if is_exception e then Inr (catch_exception (what e) lg) else Inl e)"

definition main_server ::
  "(string \<Rightarrow> string option) \<Rightarrow> (nat \<Rightarrow> string option) \<Rightarrow> (cxx_error \<Rightarrow> string) \<Rightarrow> string list \<Rightarrow> log \<Rightarrow> main_outcome result" where
  "main_server files bind what argv lg =
     (if length argv \<noteq> 2 then
        Inr (Exit 1 (log_error_file ''Argument count mismatch. Usage: async_tcp_echo_server config_file'' lg))
      else
        let lg1 = log_trace_file ''server config parsing begins'' lg in
        guarded what lg1 (Parse_file files (argv ! 1) (NginxConfig [])) (\<lambda>out.
          if \<not> parsed out then Inr (Exit 1 (log_error_file '' config parsing failed'' lg1))
          else guarded what lg1 (config_parse_port (parsed_config out)) (\<lambda>port.
            if port = - 1 then
              Inr (Exit 1 (log_error_file
                ''invalid port number in cofig file,the port numbers range from 0 to 65535'' lg1))
            else
              let lg2 = log_trace_file ''server config parsing successed'' lg1 in
              (case bind (endpoint_port (port_argument port)) of
                 Some msg \<Rightarrow> Inr (catch_exception msg lg2)
               | None \<Rightarrow>
                   guarded what lg2 (new_server (port_argument port) (parsed_config out) lg2) (\<lambda>s.
                     Inr (Running s (log_trace_file ''server startup successed'' (w_log (sv_world (srv_shared s))))))))))"

section \<open>The table that start-up builds\<close>

lemma init_handler_known: "name \<in> set known_handlers \<Longrightarrow> init_handler name uri conf \<noteq> Inr None"
  by (auto simp: known_handlers_def init_handler_def)

lemma with_slash_small:
  assumes "with_slash s = Inr t" "int (length s) \<le> INT_MAX"
  shows "suffix ''/'' t"
  using with_slash_suffix[OF assms] by simp

text \<open>The size of a configuration: no token of it has \<open>INT_MAX\<close> characters or more.\<close>

definition root_small :: "NginxConfig \<Rightarrow> bool" where
  "root_small conf \<longleftrightarrow> (\<forall>v. get_value_from_statement conf ''root'' = Inr v \<longrightarrow> int (length v) \<le> INT_MAX)"

lemma static_init_inv:
  assumes "static_init uri conf = Inr (Some s)" "root_small conf" "int (length uri) \<le> INT_MAX"
  shows "static_inv s"
proof -
  from assms(1) obtain v r where v: "get_value_from_statement conf ''root'' = Inr v" "v \<noteq> []"
    and r: "substr v 1 (size_minus (length v) 2) = Inr r"
    and sl: "with_slash r = Inr (sh_root s)" "with_slash uri = Inr (sh_prefix s)"
    by (auto simp: static_init_def new_static_request_handler_def split: if_split_asm)
  have "int (length r) \<le> INT_MAX"
    using r v assms(2) by (force simp: root_small_def substr_def split: if_split_asm)
  with sl assms(3) show ?thesis by (auto simp: static_inv_def dest: with_slash_small)
qed

lemma init_handler_ok:
  assumes "init_handler name uri conf = Inr (Some h)" "root_small conf" "int (length uri) \<le> INT_MAX"
  shows "handler_ok h"
  using assms static_init_inv[of uri conf] proxy_init_inv[of uri conf]
  by (auto simp: init_handler_def split: if_split_asm option.split_asm)

lemma handler_ok_insert:
  "handlers_ok m \<Longrightarrow> handler_ok h \<Longrightarrow> handlers_ok (map_insert k h m)"
  by (induction k h m rule: map_insert.induct) auto

definition location_small :: "location_parse_result \<Rightarrow> bool" where
  "location_small r \<longleftrightarrow> loc_uri r \<noteq> [] \<and> int (length (loc_uri r)) \<le> INT_MAX \<and>
     (\<forall>conf. loc_block_config r = Some conf \<longrightarrow> root_small conf)"

lemma keys_ok_insert: "keys_ok m \<Longrightarrow> k \<noteq> [] \<Longrightarrow> int (length k) \<le> INT_MAX \<Longrightarrow> keys_ok (map_insert k h m)"
  unfolding keys_ok_def by (induction k h m rule: map_insert.induct) auto

lemma add_request_handler_cases:
  assumes "add_request_handler r m = Inr m1"
  obtains "loc_handler_name r \<notin> set known_handlers" "m1 = m"
  | conf h where "loc_handler_name r \<in> set known_handlers" "loc_block_config r = Some conf"
    "init_handler (loc_handler_name r) (loc_uri r) conf = Inr (Some h)" "m1 = map_insert (loc_uri r) h m"
proof (cases "loc_handler_name r \<in> set known_handlers")
  case True
  from assms True obtain conf where conf: "loc_block_config r = Some conf"
    by (cases "loc_block_config r") (auto simp: add_request_handler_def)
  with assms True obtain h where "init_handler (loc_handler_name r) (loc_uri r) conf = Inr h"
    "m1 = (case h of Some sr \<Rightarrow> map_insert (loc_uri r) sr m | None \<Rightarrow> m)"
    by (auto simp: add_request_handler_def)
  with init_handler_known[OF True] that(2)[OF True conf] show thesis by (cases h) auto
qed (use assms that(1) in \<open>simp add: add_request_handler_def\<close>)

lemma add_handlers_ok:
  "add_handlers rs m = Inr m' \<Longrightarrow> list_all location_small rs \<Longrightarrow> map_ok m \<Longrightarrow> keys_ok m \<Longrightarrow>
   handlers_ok m \<Longrightarrow> map_ok m' \<and> keys_ok m' \<and> handlers_ok m'"
proof (induction rs arbitrary: m)
  case (Cons r rs)
  then obtain m1 where m1: "add_request_handler r m = Inr m1" "add_handlers rs m1 = Inr m'" by auto
  from m1(1) have "map_ok m1 \<and> keys_ok m1 \<and> handlers_ok m1"
  proof (cases rule: add_request_handler_cases)
    case (2 conf h)
    with Cons.prems(2) have "handler_ok h" by (auto simp: location_small_def intro: init_handler_ok)
    with 2 Cons.prems(2-5) show ?thesis
      by (auto simp: handler_ok_insert location_small_def keys_ok_insert)
  qed (use Cons.prems in simp)
  with Cons.IH[OF m1(2)] Cons.prems(2) show ?case by simp
qed simp

text \<open>The handler a location gets: that of its first statement with a known handler name.\<close>

fun first_handler :: "location_parse_result list \<Rightarrow> string \<Rightarrow> location_parse_result option" where
  "first_handler [] uri = None"
| "first_handler (r # rs) uri =
     (if loc_uri r = uri \<and> loc_handler_name r \<in> set known_handlers then Some r else first_handler rs uri)"

lemma add_handlers_find:
  "add_handlers rs m = Inr m' \<Longrightarrow> map_ok m \<Longrightarrow>
   map_find m' uri = (case map_find m uri of
       Some h \<Rightarrow> Some h
     | None \<Rightarrow> (case first_handler rs uri of
                 None \<Rightarrow> None
               | Some r \<Rightarrow> (case init_handler (loc_handler_name r) uri (the (loc_block_config r)) of
                             Inr h \<Rightarrow> h | Inl _ \<Rightarrow> None)))"
proof (induction rs arbitrary: m)
  case Nil
  then show ?case by (simp split: option.splits)
next
  case (Cons r rs)
  then obtain m1 where m1: "add_request_handler r m = Inr m1" "add_handlers rs m1 = Inr m'" by auto
  from m1(1) show ?case
  proof (cases rule: add_request_handler_cases)
    case 1
    then have "first_handler (r # rs) uri = first_handler rs uri" by simp
    with Cons.IH[OF m1(2)] Cons.prems(2) 1 show ?thesis by (cases "map_find m uri") simp_all
  next
    case (2 conf h)
    have IH: "map_find m' uri = (case map_find m1 uri of
       Some h \<Rightarrow> Some h
     | None \<Rightarrow> (case first_handler rs uri of
                 None \<Rightarrow> None
               | Some r \<Rightarrow> (case init_handler (loc_handler_name r) uri (the (loc_block_config r)) of
                             Inr h \<Rightarrow> h | Inl _ \<Rightarrow> None)))"
      using Cons.IH[OF m1(2)] 2(4) Cons.prems(2) by blast
    have find: "map_find m1 uri = (if uri = loc_uri r \<and> map_find m uri = None then Some h else map_find m uri)"
      using 2(4) Cons.prems(2) by (auto simp: map_find_insert)
    show ?thesis
    proof (cases "loc_uri r = uri")
      case True
      then have "first_handler (r # rs) uri = Some r" using 2(1) by simp
      with IH find True 2 show ?thesis by (cases "map_find m uri") simp_all
    next
      case False
      then have "first_handler (r # rs) uri = first_handler rs uri" by simp
      with IH find False show ?thesis by (cases "map_find m uri") simp_all
    qed
  qed
qed

section \<open>Properties\<close>


definition example_table_config :: NginxConfig where
  "example_table_config = NginxConfig
     [NginxConfigStatement [''location'', [CHR 0x22] @ ''/echo/'' @ [CHR 0x22], ''EchoHandler''] (Some (NginxConfig [])),
      NginxConfigStatement [''location'', [CHR 0x22] @ ''/echo/'' @ [CHR 0x22], ''HealthHandler''] (Some (NginxConfig []))]"

definition example_locations_read :: "location_parse_result list" where
  "example_locations_read =
     [\<lparr>loc_uri = ''/echo/'', loc_handler_name = ''EchoHandler'', loc_block_config = Some (NginxConfig [])\<rparr>,
      \<lparr>loc_uri = ''/echo/'', loc_handler_name = ''HealthHandler'', loc_block_config = Some (NginxConfig [])\<rparr>]"

lemma example_table_read: "get_location_result example_table_config = Inr example_locations_read"
  by (simp add: example_table_config_def example_locations_read_def get_location_result_def substr_def size_minus_le)

lemma example_server: "\<exists>s. new_server (port_argument 80) example_table_config [] = Inr s"
  by (simp add: new_server_def log_all_handlers_def example_table_read example_locations_read_def
      add_request_handler_def known_handlers_def init_handler_def Let_def)


text \<open>C23: The location table maps every location to the handler of the first location statement
  that names it with a known handler, and nothing else: later statements for the same location and
  unknown handler names have no effect.\<close>

theorem new_server_table:
  assumes "new_server port conf lg = Inr s" "get_location_result conf = Inr rs"
  shows "map_find (sv_handlers (srv_shared s)) uri =
    (case first_handler rs uri of
       None \<Rightarrow> None
     | Some r \<Rightarrow> (case init_handler (loc_handler_name r) uri (the (loc_block_config r)) of
                   Inr h \<Rightarrow> h | Inl _ \<Rightarrow> None))"
proof -
  from assms obtain m where m: "add_handlers rs [] = Inr m" "sv_handlers (srv_shared s) = m"
    by (auto simp: new_server_def Let_def)
  show ?thesis using add_handlers_find[OF m(1), of uri] m(2) by simp
qed

theorem new_server_table_witness:
  "\<exists>s. new_server (port_argument 80) example_table_config [] = Inr s \<and>
     map_find (sv_handlers (srv_shared s)) ''/echo/'' = Some EchoHandler"
proof -
  obtain s where s: "new_server (port_argument 80) example_table_config [] = Inr s" using example_server by blast
  from new_server_table[OF s example_table_read, of "''/echo/''"] s show ?thesis
    by (simp add: example_locations_read_def known_handlers_def init_handler_def)
qed

text \<open>The number of connections is counted exactly and bounded: in every state the accept loop
  can reach, under any interleaving of accepted and failed connections, finished sessions, back-off
  timers and a signal, the counter is the number of live connections while the server runs, and it
  never exceeds 101.\<close>

theorem connection_limit:
  assumes "accept_reachable lg a"
  shows "ac_cnt a \<le> 101 \<and> (ac_phase a \<noteq> Stopped \<longrightarrow>
    ac_cnt a = int (ac_sessions a) + (if ac_phase a = Accepting then 1 else 0))"
  using accept_reachable_inv[OF assms] by (simp add: accept_inv_def)

theorem connection_limit_witness:
  "accept_reachable [] (handle_accept False (initial_acceptor [])) \<and>
   ac_cnt (handle_accept False (initial_acceptor [])) \<le> 101"
proof -
  have "accept_step (initial_acceptor []) (handle_accept False (initial_acceptor []))"
    by (rule accept_step.accepted) (simp add: accept_defs)
  with accept_reachable.init have r: "accept_reachable [] (handle_accept False (initial_acceptor []))"
    by (rule accept_reachable.step)
  from connection_limit[OF r] r show ?thesis by simp
qed

text \<open>A running server never stops listening: in every reachable state that no signal has
  stopped, an accept is outstanding, or the back-off timer is, and that timer's next run accepts again
  as soon as a session has ended since.\<close>

theorem accept_resumes:
  assumes "accept_reachable lg a" "ac_phase a \<noteq> Stopped" "ac_sessions a \<le> 100"
  shows "ac_phase a = Accepting \<or>
    (ac_phase a = Backing_off \<and> accept_step a (start_accept a) \<and> ac_phase (start_accept a) = Accepting)"
proof (cases "ac_phase a")
  case Backing_off
  moreover from this have "ac_cnt a \<le> 100"
    using accept_reachable_inv[OF assms(1)] assms(3) by (simp add: accept_inv_def)
  ultimately show ?thesis using accept_step.timer[of a] by (simp add: start_accept_def)
qed (use assms(2) in simp_all)

theorem accept_resumes_witness:
  "ac_phase (initial_acceptor []) = Accepting \<or> (ac_phase (initial_acceptor []) = Backing_off \<and>
     accept_step (initial_acceptor []) (start_accept (initial_acceptor [])) \<and>
     ac_phase (start_accept (initial_acceptor [])) = Accepting)"
  by (rule accept_resumes[OF accept_reachable.init]) (simp_all add: accept_defs)

text \<open>The cast of the port to \<open>short\<close> does no harm: every port that \<open>parse_port\<close> accepts
  reaches the endpoint unchanged, although ports above 32767 are negative in between.\<close>

theorem port_survives_cast:
  assumes "config_parse_port conf = Inr port" "port \<noteq> - 1"
  shows "int (endpoint_port (port_argument port)) = port"
proof -
  have "0 \<le> port \<and> port \<le> 0xffff"
    using assms by (auto simp: parse_port_flat dest: first_port_range)
  then show ?thesis
    by (simp add: endpoint_port_def port_argument_def unsigned_of_int take_bit_int_eq_self)
qed

theorem port_survives_cast_witness:
  "int (endpoint_port (port_argument 40000)) = 40000"
proof (rule port_survives_cast)
  show "config_parse_port (NginxConfig [NginxConfigStatement [''port'', ''40000''] None]) = Inr 40000"
    by (simp add: atoi_def strtol_def is_space_def is_dec_def digits_val_def digit_val_def in_int_def
        INT_MAX_def INT_MIN_def)
qed simp

end
