(* ===== verification/Refinement.thy ===== *)
theory Refinement
  imports Main
begin

text \<open>
  Runs of transition systems and forward simulation: the interface between a detailed system, whose
  steps emit lists of events, and an abstract one, whose steps are single events.
\<close>

inductive spec_run :: "('a \<Rightarrow> 'e \<Rightarrow> 'a \<Rightarrow> bool) \<Rightarrow> 'a \<Rightarrow> 'e list \<Rightarrow> 'a \<Rightarrow> bool" for step where
  spec_nil: "spec_run step a [] a"
| spec_snoc: "spec_run step a es b \<Longrightarrow> step b e c \<Longrightarrow> spec_run step a (es @ [e]) c"

inductive exec :: "('c \<Rightarrow> 'e list \<Rightarrow> 'c \<Rightarrow> bool) \<Rightarrow> 'c \<Rightarrow> 'e list \<Rightarrow> 'c \<Rightarrow> bool" for step where
  exec_nil: "exec step c [] c"
| exec_snoc: "exec step c es d \<Longrightarrow> step d fs c' \<Longrightarrow> exec step c (es @ fs) c'"

lemma spec_one: "step a e b \<Longrightarrow> spec_run step a [e] b"
  using spec_snoc[OF spec_nil] by fastforce

lemma spec_append: "spec_run step b fs c \<Longrightarrow> spec_run step a es b \<Longrightarrow> spec_run step a (es @ fs) c"
proof (induction rule: spec_run.induct)
  case (spec_snoc b fs c e d)
  then show ?case using spec_run.spec_snoc[of step a "es @ fs" c e d] by simp
qed simp

lemma exec_one: "step c es d \<Longrightarrow> exec step c es d"
  using exec_snoc[OF exec_nil] by fastforce

lemma exec_append: "exec step d fs c' \<Longrightarrow> exec step c es d \<Longrightarrow> exec step c (es @ fs) c'"
proof (induction rule: exec.induct)
  case (exec_snoc d fs d' gs c')
  then show ?case using exec.exec_snoc[of step c "es @ fs" d' gs c'] by simp
qed simp

lemma exec_step: "exec step c es d \<Longrightarrow> step d [] c' \<Longrightarrow> exec step c es c'"
  using exec_snoc[of step c es d "[]" c'] by simp

locale forward_simulation =
  fixes step :: "'c \<Rightarrow> 'e list \<Rightarrow> 'c \<Rightarrow> bool" and spec :: "'a \<Rightarrow> 'e \<Rightarrow> 'a \<Rightarrow> bool"
    and abs_state :: "'c \<Rightarrow> 'a" and inv :: "'c \<Rightarrow> bool"
  assumes step_inv: "inv c \<Longrightarrow> step c es c' \<Longrightarrow> inv c'"
    and step_sim: "inv c \<Longrightarrow> step c es c' \<Longrightarrow> spec_run spec (abs_state c) es (abs_state c')"
begin

lemma exec_inv: "exec step c es c' \<Longrightarrow> inv c \<Longrightarrow> inv c'"
  by (induction rule: exec.induct) (auto intro: step_inv)

lemma exec_refines: "exec step c es c' \<Longrightarrow> inv c \<Longrightarrow> spec_run spec (abs_state c) es (abs_state c')"
proof (induction rule: exec.induct)
  case (exec_snoc c es d fs c')
  from step_sim[OF exec_inv[OF exec_snoc.hyps(1) exec_snoc.prems] exec_snoc.hyps(2)] exec_snoc.IH[OF exec_snoc.prems]
  show ?case by (rule spec_append)
qed (rule spec_nil)

end

end
