(* ===== verification/Event_Loop.thy ===== *)
theory Event_Loop
  imports Server Refinement
begin

text \<open>
  The running server as one transition system: the accept loop, the sessions on their connections
  and the state they share, under every interleaving of the callbacks that the 16 threads of
  \<open>main\<close> run (\<open>server.cc\<close>, \<open>session.cc\<close>, \<open>connection.cc\<close>).  A callback is one step: the
  strand of a connection keeps its callbacks apart, and those of different connections are taken
  to be atomic.  The system refines an abstract service of clients.
\<close>

section \<open>Processes\<close>

text \<open>
  \<open>io_sessions\<close>: the sessions that exist, by number; a session lives as long as a pending read,
  a pending write or a running callback refers to it.  \<open>io_orphans\<close>: queued calls of \<open>timeout\<close>
  on connections that were destroyed since.  \<open>io_hung\<close>: sessions in whose callback a thread is
  caught in a loop that does not end.
\<close>

record io_state =
  io_acceptor :: acceptor
  io_sessions :: "nat \<rightharpoonup> session"
  io_orphans :: "bool list"
  io_hung :: "nat set"
  io_shared :: shared

text \<open>An exception that leaves a callback ends the process, as undefined behaviour may.\<close>

datatype process = Alive io_state | Crashed cxx_error io_state

text \<open>What a client can observe.\<close>

datatype event = Connect nat | Respond nat string | Disconnect nat

definition thread_count :: nat where "thread_count = 16"

text \<open>Callbacks, and the work of boost.asio between them, need a thread.\<close>

definition io_running :: "io_state \<Rightarrow> bool" where
  "io_running s \<longleftrightarrow> ac_phase (io_acceptor s) \<noteq> Stopped \<and> card (io_hung s) < thread_count"

text \<open>There is one log; an operation of the accept loop continues it.\<close>

definition with_acceptor :: "(acceptor \<Rightarrow> acceptor) \<Rightarrow> io_state \<Rightarrow> io_state" where
  "with_acceptor f s =
     (let w = sv_world (io_shared s); a = f ((io_acceptor s)\<lparr>ac_log := w_log w\<rparr>) in
      s\<lparr>io_acceptor := a, io_shared := (io_shared s)\<lparr>sv_world := w\<lparr>w_log := ac_log a\<rparr>\<rparr>\<rparr>)"

definition set_session :: "nat \<Rightarrow> session \<Rightarrow> shared \<Rightarrow> io_state \<Rightarrow> io_state" where
  "set_session n ses st s = s\<lparr>io_sessions := (io_sessions s)(n \<mapsto> ses), io_shared := st\<rparr>"

text \<open>The end of a callback of session \<open>n\<close>: without a pending read or write the last reference
  is gone, and session and connection are destroyed.\<close>

definition release :: "nat \<Rightarrow> session \<Rightarrow> shared \<Rightarrow> io_state \<Rightarrow> event list \<times> io_state" where
  "release n ses st s =
     (let c = ses_connection ses in
      if co_reading c \<or> co_writes c \<noteq> [] then ([], set_session n ses st s)
      else ([Disconnect n],
            with_acceptor end_session
              (s\<lparr>io_sessions := (io_sessions s)(n := None), io_orphans := io_orphans s @ conn_orphans c,
                 io_shared := st\<rparr>)))"

definition end_read :: "session \<Rightarrow> session" where
  "end_read ses = ses\<lparr>ses_connection := (ses_connection ses)\<lparr>co_reading := False\<rparr>\<rparr>"

definition with_connection :: "(tcp_connection \<Rightarrow> tcp_connection) \<Rightarrow> session \<Rightarrow> session" where
  "with_connection f ses = ses\<lparr>ses_connection := f (ses_connection ses)\<rparr>"

text \<open>The responses whose write a callback started.\<close>

definition responses :: "nat \<Rightarrow> session \<Rightarrow> session \<Rightarrow> event list" where
  "responses n ses ses' =
     map (Respond n) (drop (length (co_writes (ses_connection ses))) (co_writes (ses_connection ses')))"

text \<open>A closed socket has no remote endpoint; an open one has one as long as the peer is there.\<close>

definition peers_ok :: "tcp_connection \<Rightarrow> (nat \<Rightarrow> peer) \<Rightarrow> bool" where
  "peers_ok c peers \<longleftrightarrow> co_open c \<or> (\<forall>i j. peers i j = None)"

text \<open>The callbacks of the accept loop, of timers, of failed reads and of writes, and what the network
  does, next to running callbacks of the sessions \<open>busy\<close>: the strand of a session lets none of its
  callbacks start while another one runs, but the network and its timer go on.\<close>

inductive loop_step :: "nat set \<Rightarrow> io_state \<Rightarrow> event list \<Rightarrow> process \<Rightarrow> bool" for busy where
  accepted: "ac_phase (io_acceptor s) = Accepting \<Longrightarrow> io_sessions s n = None \<Longrightarrow>
    loop_step busy s [Connect n] (Alive (with_acceptor (handle_accept False)
      (set_session n (session_start (new_session new_connection)) (io_shared s) s)))"
| not_accepted: "ac_phase (io_acceptor s) = Accepting \<Longrightarrow>
    loop_step busy s [] (Alive (with_acceptor (handle_accept True) s))"
| backed_off: "ac_phase (io_acceptor s) = Backing_off \<Longrightarrow>
    loop_step busy s [] (Alive (with_acceptor start_accept s))"
| signalled: "loop_step busy s [] (Alive (with_acceptor signal_handler s))"
| network: "io_sessions s n = Some ses \<Longrightarrow> net_step (ses_connection ses) c \<Longrightarrow>
    loop_step busy s [] (Alive (set_session n (ses\<lparr>ses_connection := c\<rparr>) (io_shared s) s))"
| read_failed: "io_sessions s n = Some ses \<Longrightarrow> n \<notin> busy \<Longrightarrow> co_reading (ses_connection ses) \<Longrightarrow>
    received_req e up peers True [] (end_read ses, io_shared s) = Some (Inr (ses', st')) \<Longrightarrow>
    release n ses' st' s = (evs, s') \<Longrightarrow> loop_step busy s evs (Alive s')"
| timed_out: "io_sessions s n = Some ses \<Longrightarrow> n \<notin> busy \<Longrightarrow> co_timeouts (ses_connection ses) = ec # ecs \<Longrightarrow>
    loop_step busy s [] (Alive (set_session n
      (with_connection (\<lambda>c. conn_timeout ec (c\<lparr>co_timeouts := ecs\<rparr>)) ses) (io_shared s) s))"
| written: "io_sessions s n = Some ses \<Longrightarrow> n \<notin> busy \<Longrightarrow> write_over i (ses_connection ses) \<Longrightarrow>
    release n (with_connection (conn_written i) ses) (completed_request (io_shared s)) s = (evs, s') \<Longrightarrow>
    loop_step busy s evs (Alive s')"
| orphan_cancelled: "io_orphans s = True # ecs \<Longrightarrow> loop_step busy s [] (Alive (s\<lparr>io_orphans := ecs\<rparr>))"
| orphan_expired: "io_orphans s = False # ecs \<Longrightarrow> loop_step busy s [] (Crashed UB_dangling s)"

inductive_cases loop_stepE: "loop_step busy s evs p"

text \<open>Steps of the process: these, and a completed read with its whole callback.\<close>

inductive io_step :: "io_state \<Rightarrow> event list \<Rightarrow> process \<Rightarrow> bool" where
  loop: "io_running s \<Longrightarrow> loop_step (io_hung s) s evs p \<Longrightarrow> io_step s evs p"
| received: "io_running s \<Longrightarrow> io_sessions s n = Some ses \<Longrightarrow> n \<notin> io_hung s \<Longrightarrow>
    co_reading (ses_connection ses) \<Longrightarrow> peers_ok (ses_connection ses) peers \<Longrightarrow>
    data \<noteq> [] \<Longrightarrow> length data \<le> max_len \<Longrightarrow> env_ok e \<Longrightarrow> net_ok up \<Longrightarrow>
    received_req e up peers False data (end_read ses, io_shared s) = Some (Inr (ses', st')) \<Longrightarrow>
    io_step s (responses n ses ses') (Alive (set_session n ses' st' s))"
| received_throws: "io_running s \<Longrightarrow> io_sessions s n = Some ses \<Longrightarrow> n \<notin> io_hung s \<Longrightarrow>
    co_reading (ses_connection ses) \<Longrightarrow> peers_ok (ses_connection ses) peers \<Longrightarrow>
    data \<noteq> [] \<Longrightarrow> length data \<le> max_len \<Longrightarrow> env_ok e \<Longrightarrow> net_ok up \<Longrightarrow>
    received_req e up peers False data (end_read ses, io_shared s) = Some (Inl err) \<Longrightarrow>
    io_step s [] (Crashed err s)"
| received_hangs: "io_running s \<Longrightarrow> io_sessions s n = Some ses \<Longrightarrow> n \<notin> io_hung s \<Longrightarrow>
    co_reading (ses_connection ses) \<Longrightarrow> peers_ok (ses_connection ses) peers \<Longrightarrow>
    data \<noteq> [] \<Longrightarrow> length data \<le> max_len \<Longrightarrow> env_ok e \<Longrightarrow> net_ok up \<Longrightarrow>
    received_req e up peers False data (end_read ses, io_shared s) = None \<Longrightarrow>
    io_step s [] (Alive (set_session n (end_read ses) (io_shared s) (s\<lparr>io_hung := insert n (io_hung s)\<rparr>)))"

lemmas io_step_accepted = io_step.loop[OF _ loop_step.accepted]
  and io_step_network = io_step.loop[OF _ loop_step.network]
  and io_step_read_failed = io_step.loop[OF _ loop_step.read_failed]
  and io_step_timed_out = io_step.loop[OF _ loop_step.timed_out]
  and io_step_written = io_step.loop[OF _ loop_step.written]
  and io_step_orphan_expired = io_step.loop[OF _ loop_step.orphan_expired]

inductive_cases io_stepE: "io_step s evs p"

inductive process_step :: "process \<Rightarrow> event list \<Rightarrow> process \<Rightarrow> bool" where
  "io_step s evs p \<Longrightarrow> process_step (Alive s) evs p"

inductive_cases process_stepE: "process_step p evs p'"

text \<open>The process as \<open>main\<close> leaves it to its threads.\<close>

definition io_init :: "server \<Rightarrow> log \<Rightarrow> io_state" where
  "io_init srv lg = \<lparr>io_acceptor = srv_acceptor srv, io_sessions = Map.empty, io_orphans = [], io_hung = {},
     io_shared = (srv_shared srv)\<lparr>sv_world := (sv_world (srv_shared srv))\<lparr>w_log := lg\<rparr>\<rparr>\<rparr>"

section \<open>The invariant\<close>

text \<open>A connection of a live session: it waits for something, and a pending read is timed.\<close>

definition conn_inv :: "tcp_connection \<Rightarrow> bool" where
  "conn_inv c \<longleftrightarrow> (co_reading c \<or> co_writes c \<noteq> []) \<and>
     (co_reading c \<and> co_open c \<longrightarrow> co_armed c \<or> False \<in> set (co_timeouts c))"

text \<open>The invariant of the process; the sessions \<open>busy\<close> are in the middle of a callback.\<close>

definition inv_except :: "nat set \<Rightarrow> io_state \<Rightarrow> bool" where
  "inv_except busy s \<longleftrightarrow> shared_ok (io_shared s) \<and> accept_inv (io_acceptor s) \<and> finite (dom (io_sessions s)) \<and>
     ac_sessions (io_acceptor s) = card (dom (io_sessions s)) \<and> busy \<subseteq> dom (io_sessions s) \<and>
     (\<forall>n ses. io_sessions s n = Some ses \<and> n \<notin> busy \<longrightarrow> conn_inv (ses_connection ses))"

definition io_inv :: "io_state \<Rightarrow> bool" where
  "io_inv s \<longleftrightarrow> inv_except (io_hung s) s"

fun state_of :: "process \<Rightarrow> io_state" where
  "state_of (Alive s) = s"
| "state_of (Crashed err s) = s"

definition process_inv :: "process \<Rightarrow> bool" where
  "process_inv p \<longleftrightarrow> io_inv (state_of p)"

lemma process_inv_simps [simp]:
  "process_inv (Alive s) = io_inv s" "process_inv (Crashed err s) = io_inv s"
  by (simp_all add: process_inv_def)

lemma accept_inv_log [simp]: "accept_inv (a\<lparr>ac_log := lg\<rparr>) = accept_inv a"
  by (simp add: accept_inv_def)

lemma with_acceptor_simps [simp]:
  "io_sessions (with_acceptor f s) = io_sessions s" "io_orphans (with_acceptor f s) = io_orphans s"
  "io_hung (with_acceptor f s) = io_hung s" "shared_ok (io_shared (with_acceptor f s)) = shared_ok (io_shared s)"
  "io_acceptor (with_acceptor f s) = f ((io_acceptor s)\<lparr>ac_log := w_log (sv_world (io_shared s))\<rparr>)"
  by (simp_all add: with_acceptor_def Let_def)

lemma set_session_simps [simp]:
  "io_sessions (set_session n ses st s) = (io_sessions s)(n \<mapsto> ses)" "io_shared (set_session n ses st s) = st"
  "io_acceptor (set_session n ses st s) = io_acceptor s" "io_hung (set_session n ses st s) = io_hung s"
  "io_orphans (set_session n ses st s) = io_orphans s"
  by (simp_all add: set_session_def)

lemma accept_sessions [simp]:
  "ac_sessions (start_accept a) = ac_sessions a" "ac_sessions (signal_handler a) = ac_sessions a"
  "ac_sessions (handle_accept failed a) = ac_sessions a + (if failed then 0 else 1)"
  "ac_sessions (end_session a) = ac_sessions a - 1"
  by (simp_all add: accept_defs)

lemma conn_inv_net:
  assumes "conn_inv c" "net_step c c'"
  shows "conn_inv c'"
  using assms(2)
proof cases
  case (sent i k)
  then have "co_writes c \<noteq> []" by auto
  with sent assms(1) show ?thesis by (auto simp: conn_inv_def conn_sent_def)
qed (use assms(1) in \<open>auto simp: conn_inv_def\<close>)

lemma conn_inv_timeout:
  "conn_inv c \<Longrightarrow> co_timeouts c = ec # ecs \<Longrightarrow> conn_inv (conn_timeout ec (c\<lparr>co_timeouts := ecs\<rparr>))"
  by (auto simp: conn_inv_def conn_timeout_def)

lemma conn_inv_read: "conn_inv (conn_read c)"
  by (simp add: conn_inv_def conn_read_def)

lemma inv_exceptD:
  assumes "inv_except busy s"
  shows "shared_ok (io_shared s)" "io_sessions s n = Some ses \<Longrightarrow> n \<notin> busy \<Longrightarrow> conn_inv (ses_connection ses)"
  using assms by (simp_all add: inv_except_def)

lemmas io_invD = inv_exceptD[where busy = "io_hung s" and s = s for s, folded io_inv_def]

lemma inv_except_session:
  assumes "inv_except busy s" "io_sessions s n = Some ses0" "n \<notin> busy \<longrightarrow> conn_inv (ses_connection ses)" "shared_ok st"
  shows "inv_except busy (set_session n ses st s)"
proof -
  have "dom ((io_sessions s)(n \<mapsto> ses)) = dom (io_sessions s)" using assms(2) by auto
  with assms show ?thesis by (auto simp: inv_except_def)
qed

lemma inv_except_accept:
  assumes "inv_except busy s" "\<And>lg. accept_step ((io_acceptor s)\<lparr>ac_log := lg\<rparr>) (f ((io_acceptor s)\<lparr>ac_log := lg\<rparr>))"
    and "\<And>lg. ac_sessions (f ((io_acceptor s)\<lparr>ac_log := lg\<rparr>)) = ac_sessions (io_acceptor s)"
  shows "inv_except busy (with_acceptor f s)"
  using assms accept_step_inv[OF _ assms(2)] by (auto simp: inv_except_def)

lemma inv_except_connect:
  assumes "inv_except busy s" "ac_phase (io_acceptor s) = Accepting" "io_sessions s n = None" "conn_inv (ses_connection ses)"
  shows "inv_except busy (with_acceptor (handle_accept False) (set_session n ses (io_shared s) s))"
proof -
  let ?a = "(io_acceptor s)\<lparr>ac_log := w_log (sv_world (io_shared s))\<rparr>"
  have "accept_step ?a (handle_accept False ?a)" by (rule accept_step.accepted) (simp add: assms(2))
  with accept_step_inv[of ?a] have "accept_inv (handle_accept False ?a)" using assms(1) by (simp add: inv_except_def)
  moreover have "n \<notin> dom (io_sessions s)" using assms(3) by auto
  ultimately show ?thesis using assms(1,4) by (auto simp: inv_except_def)
qed

lemma inv_except_release:
  assumes "inv_except busy s" "ac_phase (io_acceptor s) \<noteq> Stopped" "io_sessions s n = Some ses0" "n \<notin> busy" "shared_ok st"
    and "co_reading (ses_connection ses) \<and> co_open (ses_connection ses) \<longrightarrow>
      co_armed (ses_connection ses) \<or> False \<in> set (co_timeouts (ses_connection ses))"
    and "release n ses st s = (evs, s')"
  shows "inv_except busy s'"
proof (cases "co_reading (ses_connection ses) \<or> co_writes (ses_connection ses) \<noteq> []")
  case True
  with assms have "s' = set_session n ses st s" "conn_inv (ses_connection ses)"
    by (auto simp: release_def Let_def conn_inv_def)
  with inv_except_session[OF assms(1,3)] assms(5) show ?thesis by simp
next
  case False
  let ?a = "(io_acceptor s)\<lparr>ac_log := w_log (sv_world st)\<rparr>"
  have n: "n \<in> dom (io_sessions s)" "finite (dom (io_sessions s))" using assms(1,3) by (auto simp: inv_except_def)
  then have card: "0 < card (dom (io_sessions s))" by (auto simp: card_gt_0_iff)
  have "accept_step ?a (end_session ?a)"
    by (rule accept_step.session_over) (use assms(1,2) card in \<open>auto simp: inv_except_def\<close>)
  with accept_step_inv[of ?a] have "accept_inv (end_session ?a)" using assms(1) by (simp add: inv_except_def)
  moreover have "card (dom (io_sessions s) - {n}) = card (dom (io_sessions s)) - 1" using n by simp
  moreover have "s' = with_acceptor end_session (s\<lparr>io_sessions := (io_sessions s)(n := None),
      io_orphans := io_orphans s @ conn_orphans (ses_connection ses), io_shared := st\<rparr>)"
    using False assms(7) by (simp add: release_def Let_def)
  ultimately show ?thesis using assms(1,4,5) by (auto simp: inv_except_def)
qed

lemma release_hung: "release n ses st s = (evs, s') \<Longrightarrow> io_hung s' = io_hung s"
  by (auto simp: release_def Let_def split: if_splits)

lemma received_req_failed [simp]: "received_req e up peers True data s = Some (Inr s)"
  by (simp add: received_req_def)

lemma loop_step_hung: "loop_step busy s evs p \<Longrightarrow> io_hung (state_of p) = io_hung s"
  by (cases rule: loop_step.cases) (auto dest: release_hung)

lemma loop_step_inv:
  assumes "inv_except busy s" "ac_phase (io_acceptor s) \<noteq> Stopped" "loop_step busy s evs p"
  shows "inv_except busy (state_of p)"
  using assms(3)
proof cases
  case (accepted n)
  with inv_except_connect[OF assms(1)] show ?thesis by (simp add: session_start_def conn_inv_read)
next
  case not_accepted
  then show ?thesis using assms(1) by (auto intro!: inv_except_accept accept_step.accepted)
next
  case backed_off
  then show ?thesis using assms(1) by (auto intro!: inv_except_accept accept_step.timer)
next
  case signalled
  then show ?thesis using assms(1,2) by (auto intro!: inv_except_accept accept_step.signal)
next
  case (network n ses c)
  from conn_inv_net[OF inv_exceptD(2)[OF assms(1) network(3)] network(4)] show ?thesis
    unfolding network(2) state_of.simps
    by (intro inv_except_session[OF assms(1) network(3)] inv_exceptD(1)[OF assms(1)]) simp
next
  case (read_failed n ses e up peers ses' st' s')
  show ?thesis
    unfolding read_failed(1) state_of.simps
    by (rule inv_except_release[OF assms(1,2) read_failed(2,3) _ _ read_failed(6)])
      (use read_failed(5) inv_exceptD(1)[OF assms(1)] in \<open>auto simp: end_read_def\<close>)
next
  case (timed_out n ses ec ecs)
  from conn_inv_timeout[OF inv_exceptD(2)[OF assms(1) timed_out(3,4)] timed_out(5)] show ?thesis
    unfolding timed_out(2) state_of.simps
    by (intro inv_except_session[OF assms(1) timed_out(3)] inv_exceptD(1)[OF assms(1)]) (simp add: with_connection_def)
next
  case (written n ses i s')
  from inv_exceptD(2)[OF assms(1) written(2,3)] show ?thesis
    unfolding written(1) state_of.simps
    by (intro inv_except_release[OF assms(1,2) written(2,3) _ _ written(5)])
      (use inv_exceptD(1)[OF assms(1)] in \<open>auto simp: with_connection_def conn_written_def
        completed_request_def conn_inv_def\<close>)
qed (use assms(1) in \<open>simp_all add: inv_except_def\<close>)

lemma io_inv_received:
  assumes "io_inv s" "io_sessions s n = Some ses" "env_ok e" "net_ok up"
    and "received_req e up peers False data (end_read ses, io_shared s) = Some (Inr (ses', st'))"
  shows "io_inv (set_session n ses' st' s)" "\<exists>bs. list_all framed bs \<and> responses n ses ses' = map (Respond n) bs"
proof -
  have ok: "shared_ok (io_shared s)" by (rule io_invD(1)[OF assms(1)])
  obtain bs where bs: "shared_ok st'" "list_all framed bs"
    "ses_connection ses' = conn_read (async_writes bs (ses_connection (end_read ses)))"
    using received_req_writes[OF assms(3,4) ok assms(5)] by blast
  have "inv_except (io_hung s) (set_session n ses' st' s)"
    by (rule inv_except_session[OF assms(1)[unfolded io_inv_def] assms(2)]) (simp_all add: bs conn_inv_read)
  then show "io_inv (set_session n ses' st' s)" by (simp add: io_inv_def)
  show "\<exists>bs. list_all framed bs \<and> responses n ses ses' = map (Respond n) bs"
    using bs(2,3)
    by (auto simp: responses_def end_read_def async_writes_def conn_read_def expires_from_now_def intro!: exI[of _ bs])
qed

lemma inv_except_hangs:
  assumes "inv_except busy s" "io_sessions s n = Some ses"
  shows "inv_except (insert n busy) (set_session n ses' (io_shared s) (s\<lparr>io_hung := H\<rparr>))"
  by (intro inv_except_session[where ?ses0.0 = ses]) (use assms in \<open>auto simp: inv_except_def\<close>)

lemma io_step_inv:
  assumes "io_inv s" "io_step s evs p"
  shows "process_inv p"
  using assms(2)
proof cases
  case loop
  with loop_step_inv[OF assms(1)[unfolded io_inv_def] _ loop(2)] loop_step_hung[OF loop(2)] show ?thesis
    by (simp add: process_inv_def io_inv_def io_running_def)
next
  case (received n ses data e up peers ses' st')
  then show ?thesis using io_inv_received(1)[OF assms(1)] by simp
next
  case (received_hangs n ses data e up peers)
  with inv_except_hangs[OF assms(1)[unfolded io_inv_def]] show ?thesis by (simp add: io_inv_def)
qed (use assms(1) in simp)

section \<open>The service the server provides\<close>

text \<open>
  The abstract service: the set of connected clients.  At most 101 are connected at a time, only
  connected clients are answered or leave, and what they are sent are complete messages.
\<close>

inductive service_step :: "nat set \<Rightarrow> event \<Rightarrow> nat set \<Rightarrow> bool" where
  connect: "n \<notin> S \<Longrightarrow> card S \<le> 100 \<Longrightarrow> service_step S (Connect n) (insert n S)"
| respond: "n \<in> S \<Longrightarrow> framed bytes \<Longrightarrow> service_step S (Respond n bytes) S"
| disconnect: "n \<in> S \<Longrightarrow> service_step S (Disconnect n) (S - {n})"

definition clients :: "process \<Rightarrow> nat set" where
  "clients p = dom (io_sessions (state_of p))"

lemma clients_simps [simp]:
  "clients (Alive s) = dom (io_sessions s)" "clients (Crashed err s) = dom (io_sessions s)"
  by (simp_all add: clients_def)

lemma service_responses:
  "n \<in> S \<Longrightarrow> list_all framed bs \<Longrightarrow> spec_run service_step S (map (Respond n) bs) S"
proof (induction bs rule: rev_induct)
  case (snoc b bs)
  then have "spec_run service_step S (map (Respond n) bs) S" "service_step S (Respond n b) S"
    by (auto intro: service_step.respond)
  then show ?case using spec_snoc by fastforce
qed (simp add: spec_nil)

lemma release_sim:
  assumes "release n ses st s = (evs, s')" "io_sessions s n = Some ses0"
  shows "spec_run service_step (dom (io_sessions s)) evs (dom (io_sessions s'))"
proof -
  have n: "n \<in> dom (io_sessions s)" using assms(2) by auto
  show ?thesis
  proof (cases "co_reading (ses_connection ses) \<or> co_writes (ses_connection ses) \<noteq> []")
    case True
    with assms(1) have "evs = []" "dom (io_sessions s') = dom (io_sessions s)"
      using n by (auto simp: release_def Let_def split: if_split_asm)
    then show ?thesis by (simp add: spec_nil)
  next
    case False
    with assms(1) have "evs = [Disconnect n]" "dom (io_sessions s') = dom (io_sessions s) - {n}"
      by (auto simp: release_def Let_def split: if_split_asm)
    with spec_one[of service_step, OF service_step.disconnect[OF n]] show ?thesis by simp
  qed
qed

lemma loop_step_sim:
  assumes "inv_except busy s" "loop_step busy s evs p"
  shows "spec_run service_step (dom (io_sessions s)) evs (clients p)"
  using assms(2)
proof cases
  case (accepted n)
  have "card (dom (io_sessions s)) \<le> 100" using assms(1) accepted(3) by (auto simp: inv_except_def accept_inv_def)
  moreover have "n \<notin> dom (io_sessions s)" using accepted(4) by auto
  ultimately have "service_step (dom (io_sessions s)) (Connect n) (insert n (dom (io_sessions s)))"
    by (intro service_step.connect)
  with accepted(1,2) show ?thesis by (simp add: spec_one)
next
  case (read_failed n ses e up peers ses' st' s')
  then show ?thesis using release_sim by simp
next
  case (written n ses i s')
  then show ?thesis using release_sim by simp
qed (auto simp: spec_nil insert_dom)

lemma io_step_sim:
  assumes "io_inv s" "io_step s evs p"
  shows "spec_run service_step (dom (io_sessions s)) evs (clients p)"
  using assms(2)
proof cases
  case loop
  with loop_step_sim[OF assms(1)[unfolded io_inv_def]] show ?thesis by blast
next
  case (received n ses data e up peers ses' st')
  from io_inv_received(2)[OF assms(1) received(4,10-12)] obtain bs where
    bs: "list_all framed bs" "evs = map (Respond n) bs" using received(1) by auto
  have d: "n \<in> dom (io_sessions s)" "clients p = dom (io_sessions s)" using received(2,4) by auto
  from service_responses[OF d(1) bs(1)] show ?thesis by (simp add: d(2) bs(2))
qed (auto simp: spec_nil insert_dom)

interpretation service: forward_simulation process_step service_step clients process_inv
proof unfold_locales
  fix p es p'
  assume inv: "process_inv p" and "process_step p es p'"
  then obtain s where s: "p = Alive s" "io_step s es p'" by (auto elim: process_stepE)
  with inv show "process_inv p'" "spec_run service_step (clients p) es (clients p')"
    by (auto intro: io_step_inv io_step_sim)
qed

section \<open>Runs of the server\<close>

text \<open>A configuration whose locations are read without an error and have sizes that fit an
  \<open>int\<close>, and the runs of the server that start-up makes of it.\<close>

definition config_ok :: "NginxConfig \<Rightarrow> bool" where
  "config_ok conf \<longleftrightarrow> (case get_location_result conf of Inl _ \<Rightarrow> False | Inr rs \<Rightarrow> list_all location_small rs)"

definition server_runs :: "server \<Rightarrow> log \<Rightarrow> event list \<Rightarrow> process \<Rightarrow> bool" where
  "server_runs srv lg evs p \<longleftrightarrow> exec process_step (Alive (io_init srv lg)) evs p"

lemma new_server_acceptor: "new_server port conf lg = Inr srv \<Longrightarrow> \<exists>lg'. srv_acceptor srv = initial_acceptor lg'"
  by (auto simp: new_server_def Let_def)

lemma new_server_shared_ok:
  assumes "new_server port conf lg = Inr srv" "config_ok conf"
  shows "shared_ok (srv_shared srv)"
proof -
  from assms(2) obtain rs where rs: "get_location_result conf = Inr rs" "list_all location_small rs"
    by (auto simp: config_ok_def split: sum.split_asm)
  with assms(1) obtain m where m: "add_handlers rs [] = Inr m" "sv_handlers (srv_shared srv) = m"
    "sv_cache (srv_shared srv) = Map.empty" by (auto simp: new_server_def Let_def)
  have k: "keys_ok []" by (simp add: keys_ok_def)
  have "keys_ok m \<and> handlers_ok m" using add_handlers_ok[OF m(1) rs(2) _ k] by simp
  with m(2,3) show ?thesis by (simp add: shared_ok_def)
qed

lemma io_init_simps [simp]:
  "io_acceptor (io_init srv lg) = srv_acceptor srv" "io_sessions (io_init srv lg) = Map.empty"
  "io_orphans (io_init srv lg) = []" "io_hung (io_init srv lg) = {}"
  "shared_ok (io_shared (io_init srv lg)) = shared_ok (srv_shared srv)"
  by (simp_all add: io_init_def)

lemma io_init_inv:
  assumes "new_server port conf lg = Inr srv" "config_ok conf"
  shows "process_inv (Alive (io_init srv lg'))"
proof -
  obtain lg0 where a: "srv_acceptor srv = initial_acceptor lg0" using new_server_acceptor[OF assms(1)] by blast
  have "accept_inv (initial_acceptor lg0)" by (rule accept_reachable_inv) (rule accept_reachable.init)
  with a new_server_shared_ok[OF assms] show ?thesis by (simp add: io_inv_def inv_except_def) (simp add: accept_defs)
qed

lemma server_runs_inv:
  assumes "new_server port conf lg = Inr srv" "config_ok conf" "server_runs srv lg' evs (Alive s)"
  shows "io_inv s"
  using service.exec_inv[OF assms(3)[unfolded server_runs_def] io_init_inv[OF assms(1,2)]] by simp

lemma exec_io:
  assumes "exec process_step p es (Alive s)" "io_step s fs p'"
  shows "exec process_step p (es @ fs) p'"
  using exec_snoc[OF assms(1) process_step.intros[OF assms(2)]] .

text \<open>The state after a connection was accepted.\<close>

definition connected :: "nat \<Rightarrow> io_state \<Rightarrow> io_state" where
  "connected n s = with_acceptor (handle_accept False)
     (set_session n (session_start (new_session new_connection)) (io_shared s) s)"

lemma connected_simps [simp]:
  "io_sessions (connected n s) = (io_sessions s)(n \<mapsto> session_start (new_session new_connection))"
  "io_hung (connected n s) = io_hung s" "io_orphans (connected n s) = io_orphans s"
  "ac_sessions (io_acceptor (connected n s)) = Suc (ac_sessions (io_acceptor s))"
  "ac_cnt (io_acceptor s) \<le> 100 \<Longrightarrow> ac_phase (io_acceptor (connected n s)) = Accepting"
  "ac_cnt (io_acceptor s) \<le> 100 \<Longrightarrow> ac_cnt (io_acceptor (connected n s)) = ac_cnt (io_acceptor s) + 1"
  "shared_ok (io_shared (connected n s)) = shared_ok (io_shared s)"
  "sv_handlers (io_shared (connected n s)) = sv_handlers (io_shared s)"
  "sv_cache (io_shared (connected n s)) = sv_cache (io_shared s)"
  by (simp_all add: connected_def accept_defs) (simp_all add: with_acceptor_def Let_def)

lemma fresh_session [simp]:
  "ses_connection (session_start (new_session c)) = conn_read c"
  "ses_parser (session_start (new_session c)) = new_parser"
  "ses_request (session_start (new_session c)) = empty_request"
  "co_reading (conn_read c)" "co_open (conn_read c) = co_open c" "co_peer (conn_read c) = co_peer c"
  "co_writes (conn_read c) = co_writes c" "co_wire (conn_read c) = co_wire c" "co_armed (conn_read c)"
  by (simp_all add: session_start_def new_session_def conn_read_def expires_from_now_def)

lemma end_read_simps [simp]:
  "ses_parser (end_read ses) = ses_parser ses" "ses_request (end_read ses) = ses_request ses"
  "ses_connection (end_read ses) = (ses_connection ses)\<lparr>co_reading := False\<rparr>"
  by (simp_all add: end_read_def)

lemma first_connection:
  assumes "new_server port conf lg0 = Inr srv"
  shows "server_runs srv lg [Connect n] (Alive (connected n (io_init srv lg)))"
    and "io_running (connected n (io_init srv lg))"
    and "io_step (io_init srv lg) [Connect n] (Alive (connected n (io_init srv lg)))"
proof -
  obtain lg1 where a: "srv_acceptor srv = initial_acceptor lg1" using new_server_acceptor[OF assms] by blast
  then have p: "ac_phase (srv_acceptor srv) = Accepting" "ac_cnt (srv_acceptor srv) \<le> 100"
    by (simp_all add: accept_defs)
  show "io_step (io_init srv lg) [Connect n] (Alive (connected n (io_init srv lg)))"
    unfolding connected_def
    by (rule io_step_accepted) (simp_all add: io_running_def p(1) thread_count_def)
  from exec_io[OF exec_nil this] show "server_runs srv lg [Connect n] (Alive (connected n (io_init srv lg)))"
    by (simp add: server_runs_def)
  show "io_running (connected n (io_init srv lg))"
    using p(2) by (simp add: io_running_def thread_count_def)
qed

section \<open>Properties\<close>

text \<open>The running server implements the abstract service: whatever callbacks the threads run in
  whatever order, and whatever the clients and the network do, the sequence of connects, responses and
  disconnects is one of the service.  In particular at most 101 clients are connected at any time, a
  client that is not connected is neither answered nor disconnected, and every response whose write
  is started is one complete message.\<close>

theorem server_refines_service:
  assumes "new_server port conf lg0 = Inr srv" "config_ok conf" "server_runs srv lg evs p"
  shows "spec_run service_step {} evs (clients p)"
  using service.exec_refines[OF assms(3)[unfolded server_runs_def] io_init_inv[OF assms(1,2)]] by simp

lemma example_config_ok: "config_ok example_table_config"
  by (simp add: config_ok_def example_table_read example_locations_read_def location_small_def INT_MAX_def
      root_small_def get_value_from_statement_def)

theorem server_refines_service_witness:
  "\<exists>srv p. new_server (port_argument 80) example_table_config [] = Inr srv \<and>
     server_runs srv [] [Connect 7] p \<and> spec_run service_step {} [Connect 7] (clients p)"
proof -
  obtain srv where srv: "new_server (port_argument 80) example_table_config [] = Inr srv" using example_server by blast
  from server_refines_service[OF srv example_config_ok first_connection(1)[OF srv, of "[]" 7]]
    first_connection(1)[OF srv, of "[]" 7] srv show ?thesis by blast
qed

end
