(* ===== verification/Server_Runs.thy ===== *)
theory Server_Runs
  imports Event_Loop
begin

text \<open>
  Properties of the running server under interleaving: silent clients are disconnected, what
  one read of a session leads to, and what single requests, expired timers and overlapping writes can do to the process.
\<close>

section \<open>What one read can do\<close>

lemma receive_throws:
  assumes "io_running s" "io_sessions s n = Some ses" "n \<notin> io_hung s" "co_reading (ses_connection ses)"
    "ses_parser ses = new_parser" "ses_request ses = empty_request"
    and "parse new_parser empty_request data = Inl err" "data \<noteq> []" "length data \<le> max_len"
  shows "io_step s [] (Crashed err s)"
proof (rule io_step.received_throws[OF assms(1-4) _ assms(8,9)])
  show "peers_ok (ses_connection ses) (\<lambda>_ _. None)" by (simp add: peers_ok_def)
  show "env_ok plain_env" "net_ok quiet_upstream" by (rule example_ok)+
  have "receive_loop data [] new_parser empty_request = Some (Inl err)"
    using assms(7) by (subst receive_loop.simps) simp
  then show "received_req plain_env quiet_upstream (\<lambda>_ _. None) False data (end_read ses, io_shared s) = Some (Inl err)"
    using assms(5,6) by (simp add: received_req_def)
qed

lemma receive_hangs:
  assumes "io_running s" "io_sessions s n = Some ses" "n \<notin> io_hung s" "co_reading (ses_connection ses)"
    "ses_parser ses = new_parser" "ses_request ses = empty_request"
    and "receive_loop data [] new_parser empty_request = None" "data \<noteq> []" "length data \<le> max_len"
  shows "io_step s [] (Alive (set_session n (end_read ses) (io_shared s) (s\<lparr>io_hung := insert n (io_hung s)\<rparr>)))"
proof (rule io_step.received_hangs[OF assms(1-4) _ assms(8,9)])
  show "peers_ok (ses_connection ses) (\<lambda>_ _. None)" by (simp add: peers_ok_def)
  show "env_ok plain_env" "net_ok quiet_upstream" by (rule example_ok)+
  show "received_req plain_env quiet_upstream (\<lambda>_ _. None) False data (end_read ses, io_shared s) = None"
    using assms(5-7) by (simp add: received_req_def)
qed

section \<open>Sixteen clients\<close>

lemma hang_clients:
  assumes "new_server port conf lg0 = Inr srv" "receive_loop data [] new_parser empty_request = None"
    "data \<noteq> []" "length data \<le> max_len"
  shows "k \<le> thread_count \<Longrightarrow> \<exists>s. server_runs srv lg (map Connect [0..<k]) (Alive s) \<and>
    io_hung s = {..<k} \<and> dom (io_sessions s) = {..<k} \<and> ac_phase (io_acceptor s) = Accepting \<and>
    ac_cnt (io_acceptor s) = int k + 1"
proof (induction k)
  case 0
  obtain lg1 where "srv_acceptor srv = initial_acceptor lg1" using new_server_acceptor[OF assms(1)] by blast
  then show ?case
    by (intro exI[of _ "io_init srv lg"]) (simp add: server_runs_def exec_nil accept_defs)
next
  case (Suc k)
  then obtain s where s: "server_runs srv lg (map Connect [0..<k]) (Alive s)" "io_hung s = {..<k}"
    "dom (io_sessions s) = {..<k}" "ac_phase (io_acceptor s) = Accepting" "ac_cnt (io_acceptor s) = int k + 1" by auto
  have k: "k < 16" using Suc.prems by (simp add: thread_count_def)
  have run: "io_running s" using s(2,4) k by (simp add: io_running_def thread_count_def)
  have new: "io_sessions s k = None" using s(3) by (metis domIff lessThan_iff less_irrefl)
  have c: "io_step s [Connect k] (Alive (connected k s))"
    unfolding connected_def by (rule io_step_accepted[OF run s(4) new])
  have cnt: "ac_cnt (io_acceptor s) \<le> 100" using s(5) k by simp
  let ?ses = "session_start (new_session new_connection)"
  let ?s' = "set_session k (end_read ?ses) (io_shared (connected k s)) ((connected k s)\<lparr>io_hung := insert k (io_hung s)\<rparr>)"
  have "io_running (connected k s)" using run cnt by (simp add: io_running_def)
  then have h: "io_step (connected k s) [] (Alive ?s')"
    using receive_hangs[of "connected k s" k ?ses data] assms(2-4) s(2) by simp
  have "exec process_step (Alive (io_init srv lg)) (map Connect [0..<Suc k]) (Alive ?s')"
    using exec_io[OF exec_io[OF s(1)[unfolded server_runs_def] c] h] by simp
  moreover have "io_hung ?s' = {..<Suc k}" using s(2) by (simp add: lessThan_Suc)
  moreover have "dom (io_sessions ?s') = {..<Suc k}"
    unfolding set_session_simps using s(3) by (simp add: lessThan_Suc)
  moreover have "ac_phase (io_acceptor ?s') = Accepting" "ac_cnt (io_acceptor ?s') = int (Suc k) + 1"
    using s(5) cnt by simp_all
  ultimately show ?case unfolding server_runs_def by (intro exI[of _ ?s'] conjI)
qed

section \<open>The end of a connection\<close>

text \<open>A session that runs and whose callbacks can run.\<close>

definition session_at :: "io_state \<Rightarrow> nat \<Rightarrow> session \<Rightarrow> bool" where
  "session_at s n ses \<longleftrightarrow> io_running s \<and> io_sessions s n = Some ses \<and> n \<notin> io_hung s"

lemma session_at_set: "session_at s n ses0 \<Longrightarrow> session_at (set_session n ses st s) n ses"
  by (simp add: session_at_def io_running_def)

lemma exec_trans:
  "exec process_step (Alive s) [] (Alive s1) \<Longrightarrow> exec process_step (Alive s1) es p \<Longrightarrow> exec process_step (Alive s) es p"
  using exec_append[of process_step "Alive s1" es p "Alive s" "[]"] by simp

lemma exec_io_one: "io_step s es p \<Longrightarrow> exec process_step (Alive s) es p"
  using exec_io[OF exec_nil] by fastforce

lemma timeouts_close:
  "session_at s n ses \<Longrightarrow> co_timeouts (ses_connection ses) = ecs \<Longrightarrow> False \<in> set ecs \<Longrightarrow>
   \<exists>s' ses'. exec process_step (Alive s) [] (Alive s') \<and> session_at s' n ses' \<and>
     \<not> co_open (ses_connection ses') \<and> co_reading (ses_connection ses') = co_reading (ses_connection ses)"
proof (induction ecs arbitrary: s ses)
  case (Cons ec ecs)
  let ?ses = "with_connection (\<lambda>c. conn_timeout ec (c\<lparr>co_timeouts := ecs\<rparr>)) ses"
  let ?s = "set_session n ?ses (io_shared s) s"
  have step: "exec process_step (Alive s) [] (Alive ?s)"
    using Cons.prems(1,2) by (intro exec_io_one io_step_timed_out) (simp_all add: session_at_def)
  have at: "session_at ?s n ?ses" by (rule session_at_set[OF Cons.prems(1)])
  show ?case
  proof (cases ec)
    case True
    then have c: "ses_connection ?ses = (ses_connection ses)\<lparr>co_timeouts := ecs\<rparr>" "False \<in> set ecs"
      using Cons.prems(3) by (simp_all add: with_connection_def conn_timeout_def)
    with Cons.IH[OF at] exec_trans[OF step] show ?thesis by fastforce
  next
    case False
    then have "\<not> co_open (ses_connection ?ses)" "co_reading (ses_connection ?ses) = co_reading (ses_connection ses)"
      by (simp_all add: with_connection_def conn_timeout_def)
    with step at show ?thesis by blast
  qed
qed simp

lemma writes_fail:
  "session_at s n ses \<Longrightarrow> length (co_writes (ses_connection ses)) = k \<Longrightarrow> \<not> co_open (ses_connection ses) \<Longrightarrow>
   co_reading (ses_connection ses) \<Longrightarrow>
   \<exists>s' ses'. exec process_step (Alive s) [] (Alive s') \<and> session_at s' n ses' \<and>
     co_writes (ses_connection ses') = [] \<and> co_reading (ses_connection ses')"
proof (induction k arbitrary: s ses)
  case 0
  then show ?case using exec_nil by (intro exI[of _ s] exI[of _ ses]) simp
next
  case (Suc k)
  let ?ses = "with_connection (conn_written 0) ses"
  let ?s = "set_session n ?ses (completed_request (io_shared s)) s"
  have c: "length (co_writes (ses_connection ?ses)) = k" "\<not> co_open (ses_connection ?ses)" "co_reading (ses_connection ?ses)"
    using Suc.prems by (simp_all add: with_connection_def conn_written_def)
  have "release n ?ses (completed_request (io_shared s)) s = ([], ?s)"
    using c(3) by (simp add: release_def Let_def)
  then have step: "exec process_step (Alive s) [] (Alive ?s)"
    using Suc.prems by (intro exec_io_one io_step_written[where i = 0 and ses = ses])
      (auto simp: session_at_def write_over_def conn_alive_def)
  from Suc.IH[OF session_at_set[OF Suc.prems(1)] c] exec_trans[OF step] show ?case by blast
qed

lemma closed_released:
  assumes "session_at s n ses" "co_writes (ses_connection ses) = []" "co_reading (ses_connection ses)"
  shows "\<exists>s'. exec process_step (Alive s) [Disconnect n] (Alive s') \<and> io_sessions s' n = None \<and>
    io_orphans s' = io_orphans s @ conn_orphans ((ses_connection ses)\<lparr>co_reading := False\<rparr>)  \<and> io_running s'"
proof -
  obtain s' where s': "release n (end_read ses) (io_shared s) s = ([Disconnect n], s')" "io_sessions s' n = None"
    "io_orphans s' = io_orphans s @ conn_orphans ((ses_connection ses)\<lparr>co_reading := False\<rparr>)" "io_running s'"
    using assms by (auto simp: release_def Let_def session_at_def io_running_def accept_defs)
  have "io_step s [Disconnect n] (Alive s')"
    using assms s'(1) by (intro io_step_read_failed[where ses = ses and ses' = "end_read ses" and st' = "io_shared s"])
      (auto simp: session_at_def)
  with s' exec_io_one show ?thesis by blast
qed

section \<open>Requests and responses\<close>

text \<open>A read in which a session finds one request is answered.\<close>

lemma read_served:
  assumes "io_inv s" "session_at s n ses" "co_reading (ses_connection ses)" "co_open (ses_connection ses)"
    and "receive_loop data [] (ses_parser ses) (ses_request ses) = Some (Inr ([r], p, req))"
    and "data \<noteq> []" "length data \<le> max_len"
    and "env_ok e" "net_ok up" "table_answers e up r (io_shared s)"
    and "peers 0 0 = Some a" "peers 0 1 = Some b" "peers 0 2 = None \<or> peers 0 3 \<noteq> None"
  shows "\<exists>bytes ses' st'.
    received_req e up peers False data (end_read ses, io_shared s) = Some (Inr (ses', st')) \<and>
    io_step s [Respond n bytes] (Alive (set_session n ses' st' s)) \<and> framed bytes \<and>
    session_at (set_session n ses' st' s) n ses' \<and> ses_parser ses' = p \<and> ses_request ses' = req \<and>
    (\<forall>e1 up1 r1. table_answers e1 up1 r1 (io_shared s) \<longrightarrow> table_answers e1 up1 r1 st') \<and>
    ses_connection ses' = conn_read (async_write bytes ((ses_connection ses)\<lparr>co_reading := False\<rparr>))"
proof -
  let ?st = "io_shared s"
  have ok: "shared_ok ?st" by (rule io_invD(1)[OF assms(1)])
  obtain lg where lg: "log_request_info r (peers 0 0) (peers 0 1) (w_log (sv_world ?st)) = Inr lg"
    using assms(11,12) by (cases a; cases b) (simp add: log_request_info_def remote_endpoint_def)
  obtain bd st' where pr: "process_req e up (peers 0) r (?st\<lparr>sv_world := (sv_world ?st)\<lparr>w_log := lg\<rparr>\<rparr>) = Some (Inr (bd, st'))"
    using process_req_total[of e up "?st\<lparr>sv_world := (sv_world ?st)\<lparr>w_log := lg\<rparr>\<rparr>" r "peers 0"] ok assms(8-10,13) by auto
  have loop: "receive_loop data [] (ses_parser (end_read ses)) (ses_request (end_read ses)) =
      Some (Inr ([r], p, req))"
    using assms(5) by simp
  let ?ses = "\<lambda>bytes. wait_for_req ((end_read ses)\<lparr>ses_parser := p, ses_request := req,
      ses_connection := async_write bytes (ses_connection (end_read ses))\<rparr>)"
  obtain bytes where bytes: "received_req e up peers False data (end_read ses, ?st) = Some (Inr (?ses bytes, st'))"
    and fr: "framed bytes"
    using session_serves_read[where peers = peers, OF assms(8,9) ok loop lg pr] unfolding framed_def by blast
  have c: "ses_connection (?ses bytes) = conn_read (async_write bytes ((ses_connection ses)\<lparr>co_reading := False\<rparr>))"
    by (simp add: wait_for_req_def)
  have resp: "responses n ses (?ses bytes) = [Respond n bytes]" unfolding responses_def c by (simp add: async_write_def)
  have at: "io_running s" "io_sessions s n = Some ses" "n \<notin> io_hung s" using assms(2) by (simp_all add: session_at_def)
  have "peers_ok (ses_connection ses) peers" using assms(4) by (simp add: peers_ok_def)
  from io_step.received[OF at assms(3) this assms(6-9) bytes] resp
  have "io_step s [Respond n bytes] (Alive (set_session n (?ses bytes) st' s))" by simp
  moreover have "ses_parser (?ses bytes) = p" "ses_request (?ses bytes) = req" by (simp_all add: wait_for_req_def)
  moreover have "\<forall>e1 up1 r1. table_answers e1 up1 r1 ?st \<longrightarrow> table_answers e1 up1 r1 st'"
    using process_req_table[OF pr] by simp
  ultimately show ?thesis using bytes fr session_at_set[OF assms(2)] c by blast
qed

text \<open>A request that arrives whole on a fresh session.\<close>

lemma request_served:
  assumes "io_inv s" "session_at s n ses" "co_reading (ses_connection ses)" "co_open (ses_connection ses)"
    and "ses_parser ses = new_parser" "ses_request ses = empty_request"
    and "m \<noteq> []" "list_all token_char m" "list_all uri_char u" "version_ok v" "list_all header_ok hs"
    and "last_length 0 hs = Inr (int (length body))" "length (wire m u v hs body) \<le> max_len"
    and "env_ok e" "net_ok up" "table_answers e up (parsed_request m u v hs body) (io_shared s)"
    and "peers 0 0 = Some a" "peers 0 1 = Some b" "peers 0 2 = None \<or> peers 0 3 \<noteq> None"
  shows "\<exists>bytes ses' st'.
    received_req e up peers False (wire m u v hs body) (end_read ses, io_shared s) = Some (Inr (ses', st')) \<and>
    io_step s [Respond n bytes] (Alive (set_session n ses' st' s)) \<and> framed bytes \<and>
    session_at (set_session n ses' st' s) n ses' \<and> ses_parser ses' = new_parser \<and> ses_request ses' = empty_request \<and>
    (\<forall>e1 up1 r1. table_answers e1 up1 r1 (io_shared s) \<longrightarrow> table_answers e1 up1 r1 st') \<and>
    ses_connection ses' = conn_read (async_write bytes ((ses_connection ses)\<lparr>co_reading := False\<rparr>))"
proof (rule read_served[where peers = peers, OF assms(1-4) _ wire_nonempty assms(13-19)])
  show "receive_loop (wire m u v hs body) [] (ses_parser ses) (ses_request ses) =
      Some (Inr ([parsed_request m u v hs body], new_parser, empty_request))"
    unfolding assms(5,6) by (rule receive_wire[OF assms(7-12)])
qed

lemma framed_nonempty: "framed bytes \<Longrightarrow> bytes \<noteq> []"
  by (auto simp: framed_def receive_def dest: spec[of _ "[]"])

text \<open>What the network does to one connection is a run of the server.\<close>

lemma net_steps_run:
  assumes "session_at s n ses" "net_step (ses_connection ses) c"
  shows "exec process_step (Alive s) [] (Alive (set_session n (ses\<lparr>ses_connection := c\<rparr>) (io_shared s) s))"
  using assms by (intro exec_io_one io_step_network) (auto simp: session_at_def)

lemma writes_mix_run:
  assumes "session_at s n ses" "conn_alive (ses_connection ses)" "co_writes (ses_connection ses) = [x # xs, b]"
  shows "\<exists>s' ses'. exec process_step (Alive s) [] (Alive s') \<and> io_sessions s' n = Some ses' \<and>
    co_wire (ses_connection ses') = co_wire (ses_connection ses) @ x # b @ xs"
proof -
  obtain c1 c2 c3 where c: "net_step (ses_connection ses) c1" "net_step c1 c2" "net_step c2 c3"
    "co_wire c3 = co_wire (ses_connection ses) @ x # b @ xs"
    using writes_mix[OF assms(2,3)] by blast
  let ?s1 = "set_session n (ses\<lparr>ses_connection := c1\<rparr>) (io_shared s) s"
  let ?s2 = "set_session n (ses\<lparr>ses_connection := c2\<rparr>) (io_shared ?s1) ?s1"
  let ?s3 = "set_session n (ses\<lparr>ses_connection := c3\<rparr>) (io_shared ?s2) ?s2"
  have at: "session_at ?s1 n (ses\<lparr>ses_connection := c1\<rparr>)" "session_at ?s2 n (ses\<lparr>ses_connection := c2\<rparr>)"
    using session_at_set[OF session_at_set[OF assms(1)]] session_at_set[OF assms(1)] by blast+
  have "exec process_step (Alive s) [] (Alive ?s1)" by (rule net_steps_run[OF assms(1) c(1)])
  moreover have "exec process_step (Alive ?s1) [] (Alive ?s2)" using net_steps_run[OF at(1), of c2] c(2) by simp
  moreover have "exec process_step (Alive ?s2) [] (Alive ?s3)" using net_steps_run[OF at(2), of c3] c(3) by simp
  ultimately have "exec process_step (Alive s) [] (Alive ?s3)" by (metis exec_trans)
  with c(4) show ?thesis by (intro exI[of _ ?s3] exI[of _ "ses\<lparr>ses_connection := c3\<rparr>"]) simp
qed

section \<open>Properties\<close>



text \<open>C27: One request ends the process: a message whose Content-Length \<open>std::stoi\<close> rejects,
  on the first connection, lets an exception out of a worker thread, whatever the configuration.\<close>

theorem bad_length_ends_process:
  assumes "new_server port conf lg0 = Inr srv"
    and "m \<noteq> []" "list_all token_char m" "list_all uri_char u" "version_ok v" "list_all header_ok hs"
    and "last_length 0 hs = Inl err" "length (wire m u v hs body) \<le> max_len"
  shows "\<exists>s. server_runs srv lg [Connect n] (Crashed err s)"
proof -
  have "parse new_parser empty_request (wire m u v hs body) = Inl err"
    using parse_wire_fails[OF assms(2-7), of body "[]"] by simp
  then have "io_step (connected n (io_init srv lg)) [] (Crashed err (connected n (io_init srv lg)))"
    by (intro receive_throws[OF first_connection(2)[OF assms(1)], where data = "wire m u v hs body" and n = n
          and ses = "session_start (new_session new_connection)"])
      (use assms(8) in \<open>simp_all add: wire_nonempty\<close>)
  from exec_io[OF first_connection(1)[OF assms(1), of lg n, unfolded server_runs_def] this] show ?thesis
    by (auto simp: server_runs_def)
qed

theorem bad_length_ends_process_witness:
  "\<exists>srv s. new_server (port_argument 80) example_table_config [] = Inr srv \<and>
     server_runs srv [] [Connect 0] (Crashed Throw_invalid_argument s)"
proof -
  obtain srv where srv: "new_server (port_argument 80) example_table_config [] = Inr srv" using example_server by blast
  have h: "list_all uri_char ''/''" "list_all header_ok [(''Content-Length'', ''abc'')]"
    "last_length 0 [(''Content-Length'', ''abc'')] = Inl Throw_invalid_argument" by code_simp+
  have "length (wire ''GET'' ''/'' ''HTTP/1.1'' [(''Content-Length'', ''abc'')] []) \<le> max_len"
    by (simp add: wire_def print_header_def max_len_def)
  from bad_length_ends_process[OF srv wire_example(1,2) h(1) version_ok_1_1 h(2,3) this, of "[]" 0] srv
  show ?thesis by blast
qed



text \<open>C32: The timer of a connection may fire after the connection is gone: \<open>timeout\<close> is bound to
  the bare pointer of the connection, so a client that connects and leaves just when its timer has
  expired makes the handler close the socket of a destroyed object.\<close>

theorem expired_timer_dangles:
  assumes "new_server port conf lg0 = Inr srv"
  shows "\<exists>s. server_runs srv lg [Connect n, Disconnect n] (Crashed UB_dangling s)"
proof -
  let ?s = "connected n (io_init srv lg)"
  let ?ses = "session_start (new_session new_connection)"
  let ?c = "(ses_connection ?ses)\<lparr>co_armed := False, co_timeouts := co_timeouts (ses_connection ?ses) @ [False]\<rparr>"
  let ?s1 = "set_session n (?ses\<lparr>ses_connection := ?c\<rparr>) (io_shared ?s) ?s"
  have at: "session_at ?s n ?ses" using first_connection(2)[OF assms] by (simp add: session_at_def)
  have run: "exec process_step (Alive ?s) [] (Alive ?s1)"
    using at net_step.expire[of "ses_connection ?ses"]
    by (intro exec_io_one io_step_network) (auto simp: session_at_def)
  obtain s2 where s2: "exec process_step (Alive ?s1) [Disconnect n] (Alive s2)" "io_orphans s2 = [False]" "io_running s2"
    using closed_released[OF session_at_set[OF at, of "?ses\<lparr>ses_connection := ?c\<rparr>"]]
    by (fastforce simp: conn_orphans_def expires_from_now_def conn_read_def)
  have "io_step s2 [] (Crashed UB_dangling s2)" by (rule io_step_orphan_expired[OF s2(3,2)])
  from exec_io[OF exec_trans[OF run s2(1)] this] first_connection(1)[OF assms, of lg n] show ?thesis
    using exec_append[of process_step "Alive ?s" "[Disconnect n]"] unfolding server_runs_def by fastforce
qed

theorem expired_timer_dangles_witness:
  "\<exists>srv s. new_server (port_argument 80) example_table_config [] = Inr srv \<and>
     server_runs srv [] [Connect 0, Disconnect 0] (Crashed UB_dangling s)"
proof -
  obtain srv where srv: "new_server (port_argument 80) example_table_config [] = Inr srv" using example_server by blast
  from expired_timer_dangles[OF srv, of "[]" 0] srv show ?thesis by blast
qed

text \<open>The invariant of the running server, under every interleaving: the shared state is well
  formed (every handler, and every cached response has a status, unique headers free of line breaks
  and a Content-Length that counts its body), the counter of connections is exact while the server
  runs and never exceeds 101, and every session waits for a read or a write unless a thread is caught
  in it.\<close>

theorem server_invariant:
  assumes "new_server port conf lg0 = Inr srv" "config_ok conf" "server_runs srv lg evs (Alive s)"
  shows "shared_ok (io_shared s) \<and> ac_cnt (io_acceptor s) \<le> 101 \<and>
    (ac_phase (io_acceptor s) \<noteq> Stopped \<longrightarrow> ac_cnt (io_acceptor s) =
       int (card (dom (io_sessions s))) + (if ac_phase (io_acceptor s) = Accepting then 1 else 0)) \<and>
    (\<forall>n ses. io_sessions s n = Some ses \<and> n \<notin> io_hung s \<longrightarrow>
       co_reading (ses_connection ses) \<or> co_writes (ses_connection ses) \<noteq> [])"
  using server_runs_inv[OF assms] by (auto simp: io_inv_def inv_except_def accept_inv_def conn_inv_def)

theorem server_invariant_witness:
  "\<exists>srv s. new_server (port_argument 80) example_table_config [] = Inr srv \<and> server_runs srv [] [Connect 3] (Alive s) \<and>
     ac_cnt (io_acceptor s) \<le> 101"
proof -
  obtain srv where srv: "new_server (port_argument 80) example_table_config [] = Inr srv" using example_server by blast
  from server_invariant[OF srv example_config_ok first_connection(1)[OF srv, of "[]" 3]]
    first_connection(1)[OF srv, of "[]" 3] srv show ?thesis by blast
qed

lemma example_answers:
  assumes "new_server (port_argument 80) example_table_config [] = Inr srv"
  shows "table_answers e up req (srv_shared srv)"
proof -
  have "sv_handlers (srv_shared srv) = [(''/echo/'', EchoHandler)]"
    using assms by (auto simp: new_server_def log_all_handlers_def example_table_read example_locations_read_def
      add_request_handler_def known_handlers_def init_handler_def Let_def)
  then show ?thesis by (simp add: table_answers_def)
qed

text \<open>A well-formed message that fits one read.\<close>

definition message_ok :: "string \<Rightarrow> string \<Rightarrow> string \<Rightarrow> headers \<Rightarrow> string \<Rightarrow> bool" where
  "message_ok m u v hs body \<longleftrightarrow> m \<noteq> [] \<and> list_all token_char m \<and> list_all uri_char u \<and> version_ok v \<and>
     list_all header_ok hs \<and> last_length 0 hs = Inr (int (length body)) \<and> length (wire m u v hs body) \<le> max_len"

text \<open>C33: A client that sends its next request before the last response has left can get mixed bytes:
  the session starts the second write while the first is outstanding, so of two responses to two ordinary
  requests the second may reach the client inside the first.\<close>

theorem responses_may_mix:
  assumes "new_server port conf lg0 = Inr srv" "config_ok conf" "server_runs srv lg evs (Alive s)"
    and "session_at s n ses" "co_reading (ses_connection ses)" "conn_alive (ses_connection ses)"
    and "ses_parser ses = new_parser" "ses_request ses = empty_request" "co_writes (ses_connection ses) = []"
    and "message_ok m1 u1 v1 hs1 body1" "message_ok m2 u2 v2 hs2 body2" "env_ok e" "net_ok up"
    and "table_answers e up (parsed_request m1 u1 v1 hs1 body1) (io_shared s)"
    and "table_answers e up (parsed_request m2 u2 v2 hs2 body2) (io_shared s)"
  shows "\<exists>b1 b2 s' ses'. server_runs srv lg (evs @ [Respond n b1, Respond n b2]) (Alive s') \<and>
    io_sessions s' n = Some ses' \<and> b1 \<noteq> [] \<and> b2 \<noteq> [] \<and>
    co_wire (ses_connection ses') = co_wire (ses_connection ses) @ hd b1 # b2 @ tl b1"
proof -
  let ?peers = "\<lambda>(_ :: nat) (_ :: nat). Some (''::1'', 80) :: endpoint"
  have m1: "m1 \<noteq> []" "list_all token_char m1" "list_all uri_char u1" "version_ok v1" "list_all header_ok hs1"
    "last_length 0 hs1 = Inr (int (length body1))" "length (wire m1 u1 v1 hs1 body1) \<le> max_len"
    using assms(10) by (simp_all add: message_ok_def)
  have m2: "m2 \<noteq> []" "list_all token_char m2" "list_all uri_char u2" "version_ok v2" "list_all header_ok hs2"
    "last_length 0 hs2 = Inr (int (length body2))" "length (wire m2 u2 v2 hs2 body2) \<le> max_len"
    using assms(11) by (simp_all add: message_ok_def)
  have op: "co_open (ses_connection ses)" using assms(6) by (simp add: conn_alive_def)
  note inv = server_runs_inv[OF assms(1-3)]
  obtain b1 ses1 st1 where r1: "io_step s [Respond n b1] (Alive (set_session n ses1 st1 s))" "framed b1"
    "session_at (set_session n ses1 st1 s) n ses1" "ses_parser ses1 = new_parser" "ses_request ses1 = empty_request"
    "table_answers e up (parsed_request m2 u2 v2 hs2 body2) st1"
    "ses_connection ses1 = conn_read (async_write b1 ((ses_connection ses)\<lparr>co_reading := False\<rparr>))"
    using request_served[where peers = ?peers, OF inv assms(4,5) op assms(7,8) m1 assms(12-14)] assms(15) by auto
  let ?s1 = "set_session n ses1 st1 s"
  have inv1: "io_inv ?s1" using io_step_inv[OF inv r1(1)] by simp
  have c1: "co_reading (ses_connection ses1)" "co_open (ses_connection ses1)" using op by (simp_all add: r1(7) async_write_def)
  have t1: "table_answers e up (parsed_request m2 u2 v2 hs2 body2) (io_shared ?s1)" using r1(6) by simp
  obtain b2 ses2 st2 where r2: "io_step ?s1 [Respond n b2] (Alive (set_session n ses2 st2 ?s1))" "framed b2"
    "session_at (set_session n ses2 st2 ?s1) n ses2"
    "ses_connection ses2 = conn_read (async_write b2 ((ses_connection ses1)\<lparr>co_reading := False\<rparr>))"
    using request_served[where peers = ?peers, OF inv1 r1(3) c1 r1(4,5) m2 assms(12,13) t1] by auto
  have ne: "b1 \<noteq> []" "b2 \<noteq> []" using framed_nonempty r1(2) r2(2) by blast+
  have c2: "conn_alive (ses_connection ses2)" "co_writes (ses_connection ses2) = [hd b1 # tl b1, b2]"
    "co_wire (ses_connection ses2) = co_wire (ses_connection ses)"
    using assms(6,9) ne(1) by (simp_all add: r1(7) r2(4) async_write_def conn_alive_def)
  obtain s3 ses3 where s3: "exec process_step (Alive (set_session n ses2 st2 ?s1)) [] (Alive s3)" "io_sessions s3 n = Some ses3"
    "co_wire (ses_connection ses3) = co_wire (ses_connection ses) @ hd b1 # b2 @ tl b1"
    using writes_mix_run[OF r2(3) c2(1,2)] c2(3) by auto
  from exec_append[OF s3(1) exec_io[OF exec_io[OF assms(3)[unfolded server_runs_def] r1(1)] r2(1)]]
  have "server_runs srv lg (evs @ [Respond n b1, Respond n b2]) (Alive s3)" by (simp add: server_runs_def)
  with s3(2,3) ne show ?thesis by blast
qed

theorem responses_may_mix_witness:
  "\<exists>srv b1 b2 s' ses'. new_server (port_argument 80) example_table_config [] = Inr srv \<and>
     server_runs srv [] ([Connect 0] @ [Respond 0 b1, Respond 0 b2]) (Alive s') \<and> io_sessions s' 0 = Some ses' \<and>
     b1 \<noteq> [] \<and> b2 \<noteq> [] \<and> co_wire (ses_connection ses') = [] @ hd b1 # b2 @ tl b1"
proof -
  obtain srv where srv: "new_server (port_argument 80) example_table_config [] = Inr srv" using example_server by blast
  let ?s = "connected 0 (io_init srv [])" and ?ses = "session_start (new_session new_connection)"
  have at: "session_at ?s 0 ?ses" using first_connection(2)[OF srv, of 0 "[]"] by (simp add: session_at_def)
  have t: "table_answers plain_env quiet_upstream r (io_shared ?s)" for r
    using example_answers[OF srv] by (simp add: table_answers_def) (simp add: io_init_def)
  have m: "message_ok ''GET'' ''/echo/x'' ''HTTP/1.1'' [(''Host'', ''h'')] []"
    using wire_example version_ok_1_1 by (simp add: message_ok_def) (simp add: wire_def print_header_def max_len_def)
  from responses_may_mix[OF srv example_config_ok first_connection(1)[OF srv, of "[]" 0] at _ _ _ _ _ m m example_ok(1,2) t t]
  show ?thesis using srv by (auto simp: conn_alive_def)
qed

text \<open>C31: A client that goes away at the wrong moment ends the process: when a well-formed request has
  arrived and the socket no longer knows its peer (the client reset the connection, or the timer closed the
  socket just before), \<open>log_request_info\<close> asks for the remote endpoint and its exception leaves the
  worker thread.  This holds for every session between two requests, in every reachable state.\<close>

theorem lost_peer_ends_process:
  assumes "server_runs srv lg evs (Alive s)" "session_at s n ses" "co_reading (ses_connection ses)"
    and "ses_parser ses = new_parser" "ses_request ses = empty_request" "message_ok m u v hs body"
  shows "server_runs srv lg evs (Crashed Throw_system_error s)"
proof -
  have msg: "m \<noteq> []" "list_all token_char m" "list_all uri_char u" "version_ok v" "list_all header_ok hs"
    "last_length 0 hs = Inr (int (length body))" "length (wire m u v hs body) \<le> max_len"
    using assms(6) by (simp_all add: message_ok_def)
  have loop: "receive_loop (wire m u v hs body) [] new_parser empty_request =
      Some (Inr ([parsed_request m u v hs body], new_parser, empty_request))"
    by (rule receive_wire[OF msg(1-6)])
  have "received_req plain_env quiet_upstream (\<lambda>_ _. None) False (wire m u v hs body) (end_read ses, io_shared s) =
      Some (Inl Throw_system_error)"
    using loop assms(4,5) by (simp add: received_req_def log_request_info_def remote_endpoint_def)
  then have "io_step s [] (Crashed Throw_system_error s)"
    using assms(2,3) msg(7) example_ok(1,2) wire_nonempty
    by (intro io_step.received_throws[where peers = "\<lambda>_ _. None" and ses = ses]) (auto simp: session_at_def peers_ok_def)
  from exec_io[OF assms(1)[unfolded server_runs_def] this] show ?thesis by (simp add: server_runs_def)
qed

theorem lost_peer_ends_process_witness:
  "\<exists>srv s. new_server (port_argument 80) example_table_config [] = Inr srv \<and>
     server_runs srv [] [Connect 0] (Crashed Throw_system_error s)"
proof -
  obtain srv where srv: "new_server (port_argument 80) example_table_config [] = Inr srv" using example_server by blast
  have at: "session_at (connected 0 (io_init srv [])) 0 (session_start (new_session new_connection))"
    using first_connection(2)[OF srv, of 0 "[]"] by (simp add: session_at_def)
  have m: "message_ok ''GET'' ''/echo/x'' ''HTTP/1.1'' [(''Host'', ''h'')] []"
    using wire_example version_ok_1_1 by (simp add: message_ok_def) (simp add: wire_def print_header_def max_len_def)
  from lost_peer_ends_process[OF first_connection(1)[OF srv, of "[]" 0] at _ _ _ m] srv show ?thesis by auto
qed

end
