(* ===== verification/Conversation.thy ===== *)
theory Conversation
  imports Server_Runs
begin

text \<open>
  Whole conversations with a client: requests that the network cuts into reads in any way are
  reassembled by the session, answered one after the other, and their responses reach the client
  complete and in order.
\<close>

section \<open>Messages and how they are cut\<close>

text \<open>The messages a client sends.\<close>

record message =
  msg_method :: string
  msg_uri :: string
  msg_version :: string
  msg_headers :: headers
  msg_body :: string

definition msg_wire :: "message \<Rightarrow> string" where
  "msg_wire g = wire (msg_method g) (msg_uri g) (msg_version g) (msg_headers g) (msg_body g)"

definition msg_request :: "message \<Rightarrow> request" where
  "msg_request g = parsed_request (msg_method g) (msg_uri g) (msg_version g) (msg_headers g) (msg_body g)"

definition msg_ok :: "message \<Rightarrow> bool" where
  "msg_ok g \<longleftrightarrow> msg_method g \<noteq> [] \<and> list_all token_char (msg_method g) \<and> list_all uri_char (msg_uri g) \<and>
     version_ok (msg_version g) \<and> list_all header_ok (msg_headers g) \<and>
     last_length 0 (msg_headers g) = Inr (int (length (msg_body g))) \<and> list_all length_ok (msg_headers g)"

lemma msg_okD:
  assumes "msg_ok g"
  shows "msg_method g \<noteq> []" "list_all token_char (msg_method g)" "list_all uri_char (msg_uri g)"
    "version_ok (msg_version g)" "list_all header_ok (msg_headers g)"
    "last_length 0 (msg_headers g) = Inr (int (length (msg_body g)))" "list_all length_ok (msg_headers g)"
  using assms by (simp_all add: msg_ok_def)

text \<open>How the network cuts a stream of messages, the first of which has already been read up to \<open>xs\<close>:
  a read lies inside a message, or it completes one and goes on into the next.  No read holds the ends
  of two messages.\<close>

inductive arrives :: "string list \<Rightarrow> string \<Rightarrow> string list \<Rightarrow> bool" where
  over: "arrives [] [] []"
| inside: "d \<noteq> [] \<Longrightarrow> strict_prefix (xs @ d) w \<Longrightarrow> arrives (w # ws) (xs @ d) ds \<Longrightarrow> arrives (w # ws) xs (d # ds)"
| last: "d \<noteq> [] \<Longrightarrow> xs @ d = w \<Longrightarrow> arrives [w] xs [d]"
| follow: "d \<noteq> [] \<Longrightarrow> xs @ d = w \<Longrightarrow> strict_prefix ys w' \<Longrightarrow> arrives (w' # ws) ys ds \<Longrightarrow>
    arrives (w # w' # ws) xs ((d @ ys) # ds)"

lemma prefix_fed:
  assumes "msg_ok g" "strict_prefix xs (msg_wire g)"
  shows "\<exists>p r. feed new_parser empty_request xs = Some (p, r) \<and> 0 \<le> body_length p"
  using wire_prefix[OF msg_okD[OF assms(1)], of xs] assms(2) by (simp add: msg_wire_def strict_prefix_def)

lemma last_read:
  assumes "msg_ok g" "feed new_parser empty_request xs = Some (p, r)" "xs @ d = msg_wire g"
    and "feed new_parser empty_request ys = Some (p', r')" "0 \<le> body_length p'"
  shows "receive_loop (d @ ys) [] p r = Some (Inr ([msg_request g], p', r'))"
  using wire_last_read[OF msg_okD(1-6)[OF assms(1)] assms(2) _ assms(4,5), of d] assms(3)
  by (simp add: msg_wire_def msg_request_def)

lemma inner_read:
  assumes "msg_ok g" "feed new_parser empty_request xs = Some (p, r)" "strict_prefix (xs @ d) (msg_wire g)"
  obtains p' r' where "feed new_parser empty_request (xs @ d) = Some (p', r')" "receive_loop d [] p r = Some (Inr ([], p', r'))"
proof -
  obtain p' r' where f: "feed new_parser empty_request (xs @ d) = Some (p', r')" and len: "0 \<le> body_length p'"
    using prefix_fed[OF assms(1,3)] by blast
  have "feed p r d = Some (p', r')" using assms(2) f by (simp add: feed_append)
  from that[OF f receive_none[OF this len]] show thesis .
qed

section \<open>Reading and answering\<close>

lemma set_session_twice [simp]: "set_session n ses' st' (set_session n ses st s) = set_session n ses' st' s"
  by (simp add: set_session_def)

text \<open>A connection on which the beginning \<open>xs\<close> of a message has been read, with nothing to send.\<close>

definition reading :: "io_state \<Rightarrow> nat \<Rightarrow> session \<Rightarrow> string \<Rightarrow> bool" where
  "reading s n ses xs \<longleftrightarrow> io_inv s \<and> session_at s n ses \<and> co_reading (ses_connection ses) \<and>
     conn_alive (ses_connection ses) \<and> co_writes (ses_connection ses) = [] \<and>
     feed new_parser empty_request xs = Some (ses_parser ses, ses_request ses)"

lemma response_delivered:
  assumes "io_inv s" "session_at s n ses" "conn_alive (ses_connection ses)" "co_reading (ses_connection ses)"
    and "co_writes (ses_connection ses) = [bytes]"
    and "feed new_parser empty_request xs = Some (ses_parser ses, ses_request ses)"
  shows "\<exists>s' ses'. exec process_step (Alive s) [] (Alive s') \<and> reading s' n ses' xs \<and>
    co_wire (ses_connection ses') = co_wire (ses_connection ses) @ bytes \<and>
    (\<forall>e up r. table_answers e up r (io_shared s) \<longrightarrow> table_answers e up r (io_shared s'))"
proof -
  let ?c = "conn_sent 0 (length bytes) (ses_connection ses)"
  let ?s1 = "set_session n (ses\<lparr>ses_connection := ?c\<rparr>) (io_shared s) s"
  let ?ses2 = "with_connection (conn_written 0) (ses\<lparr>ses_connection := ?c\<rparr>)"
  let ?s2 = "set_session n ?ses2 (completed_request (io_shared s)) ?s1"
  have n1: "net_step (ses_connection ses) ?c" by (rule net_step.sent) (use assms in simp_all)
  have c: "co_writes ?c = [[]]" "co_wire ?c = co_wire (ses_connection ses) @ bytes" "co_reading ?c" "conn_alive ?c"
    using assms(3-5) by (simp_all add: conn_sent_def conn_alive_def)
  have at: "io_running s" "io_sessions s n = Some ses" "n \<notin> io_hung s" using assms(2) by (simp_all add: session_at_def)
  have st1: "io_step s [] (Alive ?s1)" by (rule io_step_network[OF at(1,2) n1])
  have at1: "session_at ?s1 n (ses\<lparr>ses_connection := ?c\<rparr>)" by (rule session_at_set[OF assms(2)])
  have c2: "co_writes (ses_connection ?ses2) = []" "co_wire (ses_connection ?ses2) = co_wire (ses_connection ses) @ bytes"
    "co_reading (ses_connection ?ses2)" "conn_alive (ses_connection ?ses2)"
    using c by (simp_all add: with_connection_def conn_written_def conn_alive_def)
  have "release n ?ses2 (completed_request (io_shared s)) ?s1 = ([], ?s2)"
    using c2(3) by (simp add: release_def Let_def)
  then have st2: "io_step ?s1 [] (Alive ?s2)"
    using at1 c(1) by (intro io_step_written[where i = 0 and ses = "ses\<lparr>ses_connection := ?c\<rparr>"])
      (simp_all add: session_at_def write_over_def)
  have inv2: "io_inv ?s2" using io_step_inv[OF _ st2] io_step_inv[OF assms(1) st1] by simp
  have "reading ?s2 n ?ses2 xs"
    unfolding reading_def using inv2 session_at_set[OF at1] c2 assms(6) by (simp add: with_connection_def)
  moreover have "exec process_step (Alive s) [] (Alive ?s2)" using exec_trans exec_io_one[OF st1] exec_io_one[OF st2] by blast
  moreover have "\<forall>e up r. table_answers e up r (io_shared s) \<longrightarrow> table_answers e up r (io_shared ?s2)"
    by (simp add: completed_request_def)
  ultimately show ?thesis using c2(2) by blast
qed

text \<open>A read inside a message.\<close>

lemma reads_on:
  assumes "reading s n ses xs" "msg_ok g" "strict_prefix (xs @ d) (msg_wire g)" "d \<noteq> []" "length d \<le> max_len"
  shows "\<exists>s' ses'. exec process_step (Alive s) [] (Alive s') \<and> reading s' n ses' (xs @ d) \<and>
    co_wire (ses_connection ses') = co_wire (ses_connection ses) \<and> io_shared s' = io_shared s"
proof -
  have a: "io_inv s" "session_at s n ses" "co_reading (ses_connection ses)" "conn_alive (ses_connection ses)"
    "co_writes (ses_connection ses) = []" "feed new_parser empty_request xs = Some (ses_parser ses, ses_request ses)"
    using assms(1) by (simp_all add: reading_def)
  obtain p r where f: "feed new_parser empty_request (xs @ d) = Some (p, r)"
    and l: "receive_loop d [] (ses_parser ses) (ses_request ses) = Some (Inr ([], p, r))"
    using inner_read[OF assms(2) a(6) assms(3)] by blast
  let ?ses = "wait_for_req ((end_read ses)\<lparr>ses_parser := p, ses_request := r\<rparr>)"
  let ?s' = "set_session n ?ses (io_shared s) s"
  have rec: "received_req plain_env quiet_upstream (\<lambda>_ _. None) False d (end_read ses, io_shared s) = Some (Inr (?ses, io_shared s))"
    using l by (simp add: received_req_def)
  have c: "ses_connection ?ses = conn_read ((ses_connection ses)\<lparr>co_reading := False\<rparr>)" by (simp add: wait_for_req_def)
  have "responses n ses ?ses = []" unfolding responses_def c by simp
  moreover have "peers_ok (ses_connection ses) (\<lambda>_ _. None)" by (simp add: peers_ok_def)
  ultimately have st: "io_step s [] (Alive ?s')"
    using io_step.received[where n = n, OF _ _ _ a(3) _ assms(4,5) example_ok(1,2) rec] a(2) by (simp add: session_at_def)
  have "io_inv ?s'" using io_step_inv[OF a(1) st] by simp
  then have "reading ?s' n ?ses (xs @ d)"
    unfolding reading_def c using session_at_set[OF a(2)] a(4,5) f by (simp add: wait_for_req_def conn_alive_def)
  moreover have "co_wire (ses_connection ?ses) = co_wire (ses_connection ses)" unfolding c by simp
  moreover have "io_shared ?s' = io_shared s" by simp
  ultimately show ?thesis using exec_io_one[OF st] by blast
qed

text \<open>A read that completes a message.\<close>

lemma answers_next:
  assumes "reading s n ses xs" "msg_ok g" "xs @ d = msg_wire g" "d \<noteq> []" "length (d @ ys) \<le> max_len"
    and "feed new_parser empty_request ys = Some (p, r)" "0 \<le> body_length p"
    and "env_ok e" "net_ok up" "table_answers e up (msg_request g) (io_shared s)"
  shows "\<exists>b s' ses'. exec process_step (Alive s) [Respond n b] (Alive s') \<and> framed b \<and> reading s' n ses' ys \<and>
    co_wire (ses_connection ses') = co_wire (ses_connection ses) @ b \<and>
    (\<forall>e1 up1 r1. table_answers e1 up1 r1 (io_shared s) \<longrightarrow> table_answers e1 up1 r1 (io_shared s'))"
proof -
  let ?peers = "\<lambda>(_ :: nat) (_ :: nat). Some (''::1'', 80) :: endpoint"
  have a: "io_inv s" "session_at s n ses" "co_reading (ses_connection ses)" "conn_alive (ses_connection ses)"
    "co_writes (ses_connection ses) = []" "feed new_parser empty_request xs = Some (ses_parser ses, ses_request ses)"
    using assms(1) by (simp_all add: reading_def)
  have op: "co_open (ses_connection ses)" using a(4) by (simp add: conn_alive_def)
  note loop = last_read[OF assms(2) a(6) assms(3,6,7)]
  have ne: "d @ ys \<noteq> []" using assms(4) by simp
  obtain b ses1 st1 where r: "io_step s [Respond n b] (Alive (set_session n ses1 st1 s))" "framed b"
    "session_at (set_session n ses1 st1 s) n ses1" "ses_parser ses1 = p" "ses_request ses1 = r"
    "\<forall>e1 up1 r1. table_answers e1 up1 r1 (io_shared s) \<longrightarrow> table_answers e1 up1 r1 st1"
    "ses_connection ses1 = conn_read (async_write b ((ses_connection ses)\<lparr>co_reading := False\<rparr>))"
    using read_served[where peers = ?peers, OF a(1-3) op loop ne assms(5,8-10)] by auto
  have inv: "io_inv (set_session n ses1 st1 s)" using io_step_inv[OF a(1) r(1)] by simp
  have c: "conn_alive (ses_connection ses1)" "co_reading (ses_connection ses1)" "co_writes (ses_connection ses1) = [b]"
    "co_wire (ses_connection ses1) = co_wire (ses_connection ses)"
    using a(4,5) by (simp_all add: r(7) async_write_def conn_alive_def)
  have f: "feed new_parser empty_request ys = Some (ses_parser ses1, ses_request ses1)" using assms(6) r(4,5) by simp
  obtain s2 ses2 where s2: "exec process_step (Alive (set_session n ses1 st1 s)) [] (Alive s2)" "reading s2 n ses2 ys"
    "co_wire (ses_connection ses2) = co_wire (ses_connection ses) @ b"
    "\<forall>e up r. table_answers e up r st1 \<longrightarrow> table_answers e up r (io_shared s2)"
    using response_delivered[OF inv r(3) c(1-3) f] c(4) by auto
  have "exec process_step (Alive s) [Respond n b] (Alive s2)"
    using exec_append[OF s2(1) exec_io_one[OF r(1)]] by simp
  with r(2,6) s2(2-4) show ?thesis by blast
qed

section \<open>Conversations\<close>

abbreviation answerable :: "env \<Rightarrow> upstream \<Rightarrow> io_state \<Rightarrow> message list \<Rightarrow> bool" where
  "answerable e up s gs \<equiv> list_all (\<lambda>g. msg_ok g \<and> table_answers e up (msg_request g) (io_shared s)) gs"

lemma conversation_run:
  assumes e: "env_ok e" "net_ok up"
  shows "arrives ws xs ds \<Longrightarrow> ws = map msg_wire gs \<Longrightarrow> reading s n ses xs \<Longrightarrow> answerable e up s gs \<Longrightarrow>
    list_all (\<lambda>d. length d \<le> max_len) ds \<Longrightarrow>
    \<exists>bs s' ses'. exec process_step (Alive s) (map (Respond n) bs) (Alive s') \<and> length bs = length gs \<and>
      list_all framed bs \<and> reading s' n ses' [] \<and>
      co_wire (ses_connection ses') = co_wire (ses_connection ses) @ concat bs"
proof (induction arbitrary: gs s ses rule: arrives.induct)
  case over
  then show ?case using exec_nil by (intro exI[of _ "[]"] exI[of _ s] exI[of _ ses]) simp
next
  case (inside d xs w ws ds)
  then obtain g gs' where gs: "gs = g # gs'" "w = msg_wire g" "msg_ok g" by auto
  obtain s1 ses1 where s1: "exec process_step (Alive s) [] (Alive s1)" "reading s1 n ses1 (xs @ d)"
    "co_wire (ses_connection ses1) = co_wire (ses_connection ses)" "io_shared s1 = io_shared s"
    using reads_on[OF inside.prems(2) gs(3) _ inside.hyps(1)] inside.hyps(2) inside.prems(4) gs(2) by auto
  from inside.IH[OF inside.prems(1) s1(2)] inside.prems(3,4) s1(3,4) exec_trans[OF s1(1)] show ?case by fastforce
next
  case (last d xs w)
  then obtain g where gs: "gs = [g]" "w = msg_wire g" "msg_ok g" by auto
  have "feed new_parser empty_request [] = Some (new_parser, empty_request)" "0 \<le> body_length new_parser"
    by (simp_all add: new_parser_def)
  from answers_next[OF last.prems(2) gs(3) _ last.hyps(1) _ this e] last gs obtain b s1 ses1 where
    "exec process_step (Alive s) [Respond n b] (Alive s1)" "framed b" "reading s1 n ses1 []"
    "co_wire (ses_connection ses1) = co_wire (ses_connection ses) @ b" by auto
  then show ?case using gs(1) by (intro exI[of _ "[b]"] exI[of _ s1] exI[of _ ses1]) simp
next
  case (follow d xs w ys w' ws ds)
  then obtain g g' gs' where gs: "gs = g # g' # gs'" "w = msg_wire g" "w' = msg_wire g'" "msg_ok g" "msg_ok g'" by auto
  have "strict_prefix ys (msg_wire g')" using follow.hyps(3) gs(3) by simp
  from prefix_fed[OF gs(5) this] obtain p r where
    f: "feed new_parser empty_request ys = Some (p, r)" "0 \<le> body_length p" by blast
  have t: "table_answers e up (msg_request g) (io_shared s)" "length (d @ ys) \<le> max_len" "xs @ d = msg_wire g"
    using follow.prems(3,4) follow.hyps(2) gs(1,2) by simp_all
  from answers_next[OF follow.prems(2) gs(4) t(3) follow.hyps(1) t(2) f e t(1)] obtain b s1 ses1 where
    s1: "exec process_step (Alive s) [Respond n b] (Alive s1)" "framed b" "reading s1 n ses1 ys"
    "co_wire (ses_connection ses1) = co_wire (ses_connection ses) @ b"
    "\<forall>e1 up1 r1. table_answers e1 up1 r1 (io_shared s) \<longrightarrow> table_answers e1 up1 r1 (io_shared s1)" by blast
  have rest: "w' # ws = map msg_wire (g' # gs')" "answerable e up s1 (g' # gs')" "list_all (\<lambda>d. length d \<le> max_len) ds"
    using follow.prems(1,3,4) gs(1) s1(5) by (auto simp: list_all_iff)
  from follow.IH[OF rest(1) s1(3) rest(2,3)] obtain bs s2 ses2 where
    s2: "exec process_step (Alive s1) (map (Respond n) bs) (Alive s2)"
    "length bs = length (g' # gs')" "list_all framed bs" "reading s2 n ses2 []"
    "co_wire (ses_connection ses2) = co_wire (ses_connection ses1) @ concat bs" by blast
  have "exec process_step (Alive s) (map (Respond n) (b # bs)) (Alive s2)"
    using exec_append[OF s2(1) s1(1)] by simp
  with s1(2,4) s2(2-5) gs(1) show ?case by (intro exI[of _ "b # bs"] exI[of _ s2] exI[of _ ses2]) simp
qed

lemma framed_receive_all:
  "list_all framed bs \<Longrightarrow> \<exists>msgs. receive_all (length bs) (concat bs) = Some msgs \<and> length msgs = length bs"
proof (induction bs)
  case (Cons b bs)
  then obtain status hs body where "\<forall>rest. receive (b @ rest) = Some (status, hs, body, rest)" by (auto simp: framed_def)
  with Cons show ?case by auto
qed simp

text \<open>A connection between two requests.\<close>

definition waiting :: "io_state \<Rightarrow> nat \<Rightarrow> session \<Rightarrow> bool" where
  "waiting s n ses \<longleftrightarrow> session_at s n ses \<and> co_reading (ses_connection ses) \<and> conn_alive (ses_connection ses) \<and>
     ses_parser ses = new_parser \<and> ses_request ses = empty_request \<and> co_writes (ses_connection ses) = []"

lemma reading_waiting: "reading s n ses [] \<longleftrightarrow> io_inv s \<and> waiting s n ses"
  by (auto simp: reading_def waiting_def)


definition example_message :: message where
  "example_message = \<lparr>msg_method = ''GET'', msg_uri = ''/echo/x'', msg_version = ''HTTP/1.1'',
     msg_headers = [(''Host'', ''h'')], msg_body = []\<rparr>"

lemma example_wire: "msg_wire example_message = ''GET /echo/x HTTP/1.1'' @ CRLF @ ''Host: h'' @ CRLF @ CRLF"
  by code_simp

lemma example_cut:
  "arrives (map msg_wire [example_message, example_message]) []
     [''GET /ec'', ''ho/x HTTP/1.1'' @ CRLF @ ''Host: h'' @ CRLF @ CRLF @ ''GET'', '' /echo/x HTTP/1.1'' @ CRLF @ ''Host: h'' @ CRLF @ CRLF]"
proof -
  let ?w = "msg_wire example_message"
  let ?d1 = "''ho/x HTTP/1.1'' @ CRLF @ ''Host: h'' @ CRLF @ CRLF" and ?d2 = "'' /echo/x HTTP/1.1'' @ CRLF @ ''Host: h'' @ CRLF @ CRLF"
  have "arrives [?w] ''GET'' [?d2]" by (rule arrives.last) (simp_all add: example_wire)
  from arrives.follow[OF _ _ _ this, of ?d1 "''GET /ec''" ?w]
  have "arrives [?w, ?w] ([] @ ''GET /ec'') [?d1 @ ''GET'', ?d2]" by (simp add: example_wire)
  from arrives.inside[OF _ _ this] have "arrives [?w, ?w] [] [''GET /ec'', ?d1 @ ''GET'', ?d2]" by (simp add: example_wire)
  then show ?thesis by simp
qed


end
