(* ===== verification/Response_Order.thy ===== *)
theory Response_Order
  imports Server_Runs
begin

text \<open>
  The bytes a client receives in every run of the server, under every interleaving with other
  clients: as long as no response is started for it before the last one is sent, its stream is
  an initial piece of its responses one after the other.
\<close>

section \<open>Responses since the last connection\<close>

text \<open>Session numbers are used again after a session has ended.\<close>

fun answered :: "nat \<Rightarrow> string list \<Rightarrow> event list \<Rightarrow> string list" where
  "answered n bs [] = bs"
| "answered n bs (Connect k # evs) = answered n (if k = n then [] else bs) evs"
| "answered n bs (Respond k b # evs) = answered n (if k = n then bs @ [b] else bs) evs"
| "answered n bs (Disconnect k # evs) = answered n bs evs"

lemma answered_append: "answered n bs (evs @ fs) = answered n (answered n bs evs) fs"
  by (induction n bs evs rule: answered.induct) simp_all

lemma answered_responds: "answered n bs (map (Respond k) ws) = (if k = n then bs @ ws else bs)"
  by (induction ws arbitrary: bs) simp_all

text \<open>A step that starts at most one response to client \<open>n\<close>, and only when all bytes of
  earlier ones are sent.\<close>

definition starts_alone :: "nat \<Rightarrow> io_state \<Rightarrow> event list \<Rightarrow> bool" where
  "starts_alone n s evs \<longleftrightarrow> length (answered n [] evs) \<le> 1 \<and>
     (answered n [] evs \<noteq> [] \<longrightarrow> (\<forall>ses. io_sessions s n = Some ses \<longrightarrow> concat (co_writes (ses_connection ses)) = []))"

inductive patient_run :: "server \<Rightarrow> log \<Rightarrow> nat \<Rightarrow> event list \<Rightarrow> io_state \<Rightarrow> bool" for srv lg n where
  init: "patient_run srv lg n [] (io_init srv lg)"
| step: "patient_run srv lg n evs s \<Longrightarrow> io_step s fs (Alive s') \<Longrightarrow> starts_alone n s fs \<Longrightarrow>
    patient_run srv lg n (evs @ fs) s'"

lemma patient_run_runs: "patient_run srv lg n evs s \<Longrightarrow> server_runs srv lg evs (Alive s)"
  by (induction rule: patient_run.induct) (auto simp: server_runs_def intro: exec_nil exec_io)

section \<open>One step\<close>

definition stream_ok :: "nat \<Rightarrow> string list \<Rightarrow> io_state \<Rightarrow> bool" where
  "stream_ok n bs s \<longleftrightarrow> (\<forall>ses. io_sessions s n = Some ses \<longrightarrow> in_order (ses_connection ses) bs)"

lemma stream_ok_other:
  "stream_ok n bs s \<Longrightarrow> k \<noteq> n \<Longrightarrow> stream_ok n bs (set_session k ses st s)"
  by (simp add: stream_ok_def)

lemma stream_ok_same: "in_order (ses_connection ses) bs \<Longrightarrow> stream_ok n bs (set_session n ses st s)"
  by (simp add: stream_ok_def)

lemma stream_ok_session:
  "stream_ok n bs s \<Longrightarrow> (k = n \<Longrightarrow> in_order (ses_connection ses) bs) \<Longrightarrow> stream_ok n bs (set_session k ses st s)"
  by (cases "k = n") (simp_all add: stream_ok_other stream_ok_same)

lemma stream_ok_release:
  assumes "stream_ok n bs s" "k = n \<Longrightarrow> in_order (ses_connection ses) bs" "release k ses st s = (evs, s')"
  shows "stream_ok n (answered n bs evs) s'"
proof (cases "co_reading (ses_connection ses) \<or> co_writes (ses_connection ses) \<noteq> []")
  case True
  with assms stream_ok_session[OF assms(1,2)] show ?thesis by (auto simp: release_def Let_def)
next
  case False
  with assms(1,3) show ?thesis by (auto simp: release_def Let_def stream_ok_def split: if_splits)
qed

lemma in_order_received:
  assumes "in_order c bs" "length ws \<le> 1" "ws \<noteq> [] \<longrightarrow> concat (co_writes c) = []"
  shows "in_order (conn_read (async_writes ws (c\<lparr>co_reading := False\<rparr>))) (bs @ ws)"
  using assms by (cases ws) (auto simp: in_order_def conn_defs async_writes_def butlast_append)

lemma in_order_new: "in_order (ses_connection (session_start (new_session new_connection))) []"
  by (simp add: in_order_def session_start_def new_session_def conn_read_def expires_from_now_def)

lemma stream_ok_loop:
  assumes "stream_ok n bs s" "loop_step busy s evs (Alive s')"
  shows "stream_ok n (answered n bs evs) s'"
  using assms(2)
proof cases
  case (accepted k)
  then show ?thesis using assms(1) in_order_new by (auto simp: stream_ok_def)
next
  case (network k ses c)
  then show ?thesis using assms(1) in_order_net[of "ses_connection ses" bs c]
    by (auto intro!: stream_ok_session simp: stream_ok_def)
next
  case (read_failed k ses e up peers ses' st')
  then have "k = n \<Longrightarrow> in_order (ses_connection ses') bs"
    using assms(1) by (auto simp: stream_ok_def end_read_def in_order_def conn_alive_def)
  with stream_ok_release[OF assms(1) _ read_failed(5)] show ?thesis by blast
next
  case (timed_out k ses ec ecs)
  then show ?thesis
    using assms(1) in_order_timeout[of "ses_connection ses" bs ec ecs]
    by (auto intro!: stream_ok_session simp: stream_ok_def with_connection_def)
next
  case (written k ses i)
  then have "k = n \<Longrightarrow> in_order (ses_connection (with_connection (conn_written i) ses)) bs"
    using assms(1) in_order_written[of "ses_connection ses" bs i]
    by (auto simp: stream_ok_def with_connection_def)
  with stream_ok_release[OF assms(1) _ written(4)] show ?thesis by blast
qed (use assms(1) in \<open>auto simp: stream_ok_def\<close>)

lemma stream_ok_step:
  assumes "io_inv s" "stream_ok n bs s" "io_step s evs (Alive s')" "starts_alone n s evs"
  shows "stream_ok n (answered n bs evs) s'"
  using assms(3)
proof cases
  case loop
  with stream_ok_loop[OF assms(2)] show ?thesis by blast
next
  case (received k ses peers data e up ses' st')
  obtain ws where ws: "ses_connection ses' = conn_read (async_writes ws (ses_connection (end_read ses)))"
    using received_req_writes[OF received(10,11) io_invD(1)[OF assms(1)] received(12)] by blast
  then have evs: "evs = map (Respond k) ws"
    unfolding received(1) by (simp add: responses_def end_read_def async_writes_def conn_read_def expires_from_now_def)
  have "in_order (ses_connection ses') (bs @ ws)" if "k = n"
    unfolding ws using in_order_received[of "ses_connection ses" bs ws] assms(2,4) received(4) that
    by (simp add: evs answered_responds starts_alone_def stream_ok_def end_read_def)
  then show ?thesis
    using assms(2) unfolding evs answered_responds received(2) by (cases "k = n") (auto intro!: stream_ok_session simp: stream_ok_def)
next
  case (received_hangs k ses peers data e up)
  then show ?thesis using assms(2) by (auto simp: stream_ok_def end_read_def in_order_def conn_alive_def)
qed

lemma patient_stream:
  assumes "new_server port conf lg0 = Inr srv" "config_ok conf"
  shows "patient_run srv lg n evs s \<Longrightarrow> stream_ok n (answered n [] evs) s"
proof (induction rule: patient_run.induct)
  case init
  show ?case by (simp add: stream_ok_def io_init_def)
next
  case (step evs s fs s')
  have "io_inv s" by (rule server_runs_inv[OF assms patient_run_runs[OF step.hyps(1)]])
  from stream_ok_step[OF this step.IH step.hyps(2,3)] show ?case by (simp add: answered_append)
qed

section \<open>Properties\<close>

text \<open>Responses arrive in order, in every run and under every interleaving with other clients: if the
  server never starts a response to a client before all bytes of the last one are sent (the client waits for
  each response before it sends the next request), the bytes that client has received are at every moment an
  initial piece of its responses since it connected, one after the other, and all of them when nothing is
  outstanding on a connection that is still up.\<close>

theorem responses_in_order:
  assumes "new_server port conf lg0 = Inr srv" "config_ok conf" "patient_run srv lg n evs s"
    and "io_sessions s n = Some ses"
  shows "server_runs srv lg evs (Alive s) \<and>
    prefix (co_wire (ses_connection ses)) (concat (answered n [] evs)) \<and>
    (conn_alive (ses_connection ses) \<and> co_writes (ses_connection ses) = [] \<longrightarrow>
       co_wire (ses_connection ses) = concat (answered n [] evs))"
  using patient_stream[OF assms(1-3)] patient_run_runs[OF assms(3)] assms(4)
  by (auto simp: stream_ok_def in_order_def)

theorem responses_in_order_witness:
  "\<exists>srv s ses b. new_server (port_argument 80) example_table_config [] = Inr srv \<and> b \<noteq> [] \<and>
     patient_run srv [] 0 [Connect 0, Respond 0 b] s \<and> io_sessions s 0 = Some ses \<and>
     prefix (co_wire (ses_connection ses)) (concat (answered 0 [] [Connect 0, Respond 0 b]))"
proof -
  obtain srv where srv: "new_server (port_argument 80) example_table_config [] = Inr srv" using example_server by blast
  let ?s = "connected 0 (io_init srv [])" and ?ses = "session_start (new_session new_connection)"
  have run0: "patient_run srv [] 0 ([] @ [Connect 0]) ?s"
    by (rule patient_run.step[OF patient_run.init first_connection(3)[OF srv]]) (simp add: starts_alone_def)
  have at: "session_at ?s 0 ?ses" using first_connection(2)[OF srv, of 0 "[]"] by (simp add: session_at_def)
  have inv: "io_inv ?s" by (rule server_runs_inv[OF srv example_config_ok patient_run_runs[OF run0]])
  have t: "table_answers plain_env quiet_upstream (parsed_request ''GET'' ''/echo/x'' ''HTTP/1.1'' [(''Host'', ''h'')] []) (io_shared ?s)"
    using example_answers[OF srv] by (simp add: table_answers_def) (simp add: io_init_def)
  have len: "length (wire ''GET'' ''/echo/x'' ''HTTP/1.1'' [(''Host'', ''h'')] []) \<le> max_len"
    by (simp add: wire_def print_header_def max_len_def)
  obtain b ses' st' where r: "io_step ?s [Respond 0 b] (Alive (set_session 0 ses' st' ?s))" "framed b"
    using request_served[where peers = "\<lambda>_ _. Some (''::1'', 80)", OF inv at _ _ _ _ wire_example(1-3)
      version_ok_1_1 wire_example(4,5) len example_ok(1,2) t] by auto
  have "starts_alone 0 ?s [Respond 0 b]" by (simp add: starts_alone_def)
  from patient_run.step[OF run0 r(1) this]
  have run: "patient_run srv [] 0 [Connect 0, Respond 0 b] (set_session 0 ses' st' ?s)" by simp
  have "io_sessions (set_session 0 ses' st' ?s) 0 = Some ses'" by simp
  with responses_in_order[OF srv example_config_ok run this] run srv framed_nonempty[OF r(2)] show ?thesis by blast
qed

end
