(* ===== verification/Response_Cache.thy ===== *)
theory Response_Cache
  imports Session_Correct
begin

text \<open>
  The response cache of the dispatcher (\<open>session.cc\<close>, \<open>process_req\<close>).  A handler whose pages
  depend on the URI only, and which keeps no state, is the contract under which the cache may be
  used; the dispatcher on such handlers is an instance, and for it the cache is transparent: the
  answers are those of a dispatcher that forgets the cache before every request.
\<close>

section \<open>Handlers of pages\<close>

locale page_handler = total_handler +
  assumes handle_state: "inv s \<Longrightarrow> handle e s req = Some (Inr (res, s')) \<Longrightarrow> s' = s"
    and handle_uri: "inv s \<Longrightarrow> rq_uri r = rq_uri r' \<Longrightarrow> rq_method r \<noteq> INVALID \<Longrightarrow> rq_method r' \<noteq> INVALID \<Longrightarrow>
      handle e s r = handle e s r'"
begin

text \<open>Every request of a sequence gets what it would get alone, from any request for its URI.\<close>

lemma run_pages:
  "inv s \<Longrightarrow> run_handler (handle e) s reqs = Some (Inr (ress, s')) \<Longrightarrow> list_all (\<lambda>r. rq_method r \<noteq> INVALID) reqs \<Longrightarrow>
   s' = s \<and> list_all2 (\<lambda>r res. \<forall>r'. rq_uri r' = rq_uri r \<and> rq_method r' \<noteq> INVALID \<longrightarrow>
     handle e s r' = Some (Inr (res, s))) reqs ress"
proof (induction reqs arbitrary: ress)
  case (Cons r rs)
  from run_handler_Cons_Some[OF Cons.prems(2)] obtain res s1 ress1 where h: "handle e s r = Some (Inr (res, s1))"
    and r: "run_handler (handle e) s1 rs = Some (Inr (ress1, s'))" and ress: "ress = res # ress1" by blast
  have s1: "s1 = s" using handle_state[OF Cons.prems(1) h] .
  have here: "\<forall>r'. rq_uri r' = rq_uri r \<and> rq_method r' \<noteq> INVALID \<longrightarrow> handle e s r' = Some (Inr (res, s))"
  proof (intro allI impI)
    fix r' :: request
    assume "rq_uri r' = rq_uri r \<and> rq_method r' \<noteq> INVALID"
    then have "handle e s r' = handle e s r" using handle_uri[OF Cons.prems(1), of r' r e] Cons.prems(3) by simp
    then show "handle e s r' = Some (Inr (res, s))" unfolding h s1 .
  qed
  have "list_all (\<lambda>r. rq_method r \<noteq> INVALID) rs" using Cons.prems(3) by simp
  from Cons.IH[OF Cons.prems(1) r[unfolded s1] this] here show ?case unfolding ress list_all2_Cons by blast
qed simp

end

fun uri_only :: "request_handler \<Rightarrow> bool" where
  "uri_only HealthHandler = True"
| "uri_only NotFoundHandler = True"
| "uri_only (StaticHandler _) = True"
| "uri_only _ = False"

lemma static_state: "static_handle_request e s r = Inr (res, s') \<Longrightarrow> s' = s"
  by (auto simp: static_handle_request_def Let_def split: if_splits)

lemma uri_only_handle:
  assumes "uri_only h"
  shows "handle_request e (up, h, w) r = Some (Inr (res, s')) \<Longrightarrow> s' = (up, h, w)"
    and "rq_uri r = rq_uri r' \<Longrightarrow> rq_method r \<noteq> INVALID \<Longrightarrow> rq_method r' \<noteq> INVALID \<Longrightarrow>
      handle_request e (up, h, w) r = handle_request e (up, h, w) r'"
    and "handle_request e (up, h, w) r = Some (Inr (res, s')) \<Longrightarrow>
      handle_request e (up, h, w') r = Some (Inr (res, (up, h, w')))"
proof -
  show st: "s' = (up, h, w)" if "handle_request e (up, h, w) r = Some (Inr (res, s'))"
    using assms that static_state by (cases h) auto
  show "handle_request e (up, h, w) r = handle_request e (up, h, w) r'"
    if "rq_uri r = rq_uri r'" "rq_method r \<noteq> INVALID" "rq_method r' \<noteq> INVALID"
    using assms that
    by (cases h) (simp_all add: static_handle_request_def health_handle_request_def not_found_handle_request_def)
  show "handle_request e (up, h, w') r = Some (Inr (res, (up, h, w')))"
    if "handle_request e (up, h, w) r = Some (Inr (res, s'))"
    using assms that static_state by (cases h) auto
qed

interpretation pages: page_handler handle_request "\<lambda>(up, h, w). net_ok up \<and> handler_ok h \<and> uri_only h"
  "\<lambda>e s req. can_answer e (fst s) req (fst (snd s))"
proof unfold_locales
  fix e and s s' :: handler_state and req res
  assume e: "env_ok e" and s: "case s of (up, h, w) \<Rightarrow> net_ok up \<and> handler_ok h \<and> uri_only h"
    and r: "handle_request e s req = Some (Inr (res, s'))"
  obtain up h w where sc: "s = (up, h, w)" by (cases s)
  have "s' = s" using uri_only_handle(1)[of h e up w req res s'] r s unfolding sc by simp
  with handle_request_wf[OF e _ _ r[unfolded sc]] s
  show "wf_response res \<and> (case s' of (up, h, w) \<Rightarrow> net_ok up \<and> handler_ok h \<and> uri_only h)" unfolding sc by simp
next
  fix e and s s' :: handler_state and req res
  assume "case s of (up, h, w) \<Rightarrow> net_ok up \<and> handler_ok h \<and> uri_only h" "handle_request e s req = Some (Inr (res, s'))"
  moreover obtain up h w where "s = (up, h, w)" by (cases s)
  ultimately show "s' = s" using uri_only_handle(1)[of h e up w req res s'] by simp
next
  fix e and s :: handler_state and r r' :: request
  assume "case s of (up, h, w) \<Rightarrow> net_ok up \<and> handler_ok h \<and> uri_only h"
    and eq: "rq_uri r = rq_uri r'" "rq_method r \<noteq> INVALID" "rq_method r' \<noteq> INVALID"
  moreover obtain up h w where "s = (up, h, w)" by (cases s)
  ultimately show "handle_request e s r = handle_request e s r'" using uri_only_handle(2)[OF _ eq] by simp
next
  fix e and s :: handler_state and req
  assume "env_ok e" "case s of (up, h, w) \<Rightarrow> net_ok up \<and> handler_ok h \<and> uri_only h"
    "can_answer e (fst s) req (fst (snd s))"
  moreover obtain up h w where "s = (up, h, w)" by (cases s)
  ultimately show "\<exists>res s'. handle_request e s req = Some (Inr (res, s'))"
    using handle_request_total[of e up h req w] by simp
qed

section \<open>Coherence of the cache\<close>

text \<open>The page of a URI: what the handler at its longest location answers.\<close>

definition page :: "env \<Rightarrow> upstream \<Rightarrow> world \<Rightarrow> (string, request_handler) entries \<Rightarrow> string \<Rightarrow> response option" where
  "page e up w tbl u =
     (case match_loop u (map fst tbl) (False, 0, []) of
        Inr (True, _, key) \<Rightarrow>
          (case map_find tbl key of
             Some h \<Rightarrow> (case handle_request e (up, h, w) (empty_request\<lparr>rq_uri := u\<rparr>) of
                         Some (Inr (res, _)) \<Rightarrow> Some res
                       | _ \<Rightarrow> None)
           | None \<Rightarrow> None)
      | _ \<Rightarrow> None)"

definition answer_of :: "response option \<Rightarrow> response" where
  "answer_of pg = (case pg of Some res \<Rightarrow> res | None \<Rightarrow> get_response (make_400_error new_builder))"

definition coherent :: "env \<Rightarrow> upstream \<Rightarrow> world \<Rightarrow> (string, request_handler) entries \<Rightarrow> shared \<Rightarrow> bool" where
  "coherent e up w tbl st \<longleftrightarrow> sv_handlers st = tbl \<and> map_ok tbl \<and> list_all (\<lambda>(k, h). uri_only h) tbl \<and>
     (\<forall>u res. sv_cache st u = Some res \<longrightarrow> page e up w tbl u = Some res)"

lemma replace_handler_same:
  assumes "map_ok m" "map_find m key = Some h"
  shows "replace_handler key h m = m"
proof -
  have "distinct (map fst m)" using assms(1) by (simp add: map_ok_def strict_sorted_iff)
  then have "x = h" if "(key, x) \<in> set m" for x
    using that assms(2) by (auto simp: map_find_def)
  then show ?thesis by (auto simp: replace_handler_def intro!: map_idI)
qed

text \<open>The handler at the selected location answers with the page, and the page may be stored.\<close>

lemma coherent_handled:
  assumes "coherent e up w tbl st" "rq_method req \<noteq> INVALID"
    and "match_loop (rq_uri req) (map fst tbl) (False, 0, []) = Inr (True, n, key)"
    and "handle_selected e up key req st = Some (Inr (res, st'))"
  shows "page e up w tbl (rq_uri req) = Some res \<and> coherent e up w tbl st'"
proof -
  have tbl: "sv_handlers st = tbl" "map_ok tbl" "list_all (\<lambda>(k, h). uri_only h) tbl"
    using assms(1) by (simp_all add: coherent_def)
  from assms(4) obtain h up' h' w1 where h: "map_find tbl key = Some h"
    and r: "handle_request e (up, h, sv_world st) req = Some (Inr (res, (up', h', w1)))"
    and st': "st' = st\<lparr>sv_handlers := replace_handler key h' tbl, sv_world := w1\<rparr>"
    by (auto simp: handle_selected_def tbl(1) split: option.split_asm)
  have u: "uri_only h" using tbl(3) h by (auto simp: list_all_iff map_find_def dest!: map_of_SomeD)
  have "h' = h" using uri_only_handle(1)[OF u r] by simp
  have "handle_request e (up, h, w) (empty_request\<lparr>rq_uri := rq_uri req\<rparr>) = Some (Inr (res, (up, h, w)))"
    using uri_only_handle(2)[OF u, of "empty_request\<lparr>rq_uri := rq_uri req\<rparr>" req] uri_only_handle(3)[OF u r] assms(2)
    by (simp add: empty_request_def)
  with assms(3) h have "page e up w tbl (rq_uri req) = Some res" by (simp add: page_def)
  with assms(1) replace_handler_same[OF tbl(2) h] st' \<open>h' = h\<close> show ?thesis by (simp add: coherent_def)
qed

lemma coherent_stored:
  assumes "coherent e up w tbl st" "page e up w tbl (rq_uri req) = Some res"
    and "store_response peer key req res st = Inr (b, st')"
  shows "get_response b = res \<and> coherent e up w tbl st'"
  using assms by (auto simp: store_response_def coherent_def split: option.split_asm if_split_asm)

lemma coherent_page:
  assumes "coherent e up w tbl st" "rq_method req \<noteq> INVALID"
    and "match_loop (rq_uri req) (map fst tbl) (False, 0, []) = Inr (True, n, key)"
    and "run_selected e up peer key req st = Some (Inr (b, st'))"
  shows "page e up w tbl (rq_uri req) = Some (get_response b) \<and> coherent e up w tbl st'"
proof -
  from assms(4) obtain res st1 where h: "handle_selected e up key req st = Some (Inr (res, st1))"
    and s: "store_response peer key req res st1 = Inr (b, st')"
    by (rule run_selected_parts)
  from coherent_handled[OF assms(1-3) h] coherent_stored[OF _ _ s] show ?thesis by blast
qed

lemma coherent_answer:
  assumes "coherent e up w tbl st" "rq_method req \<noteq> INVALID" "process_req e up peer req st = Some (Inr (b, st'))"
  shows "get_response b = answer_of (page e up w tbl (rq_uri req)) \<and> coherent e up w tbl st'"
proof (cases "if rq_uri req \<noteq> ''/status'' then sv_cache st (rq_uri req) else None")
  case (Some res)
  then have "sv_cache st (rq_uri req) = Some res" by (auto split: if_splits)
  with Some assms(1,3) show ?thesis by (auto simp: process_req_eq coherent_def answer_of_def)
next
  case None
  have tbl: "sv_handlers st = tbl" using assms(1) by (simp add: coherent_def)
  from None assms(2,3) obtain m n key where l: "match_loop (rq_uri req) (map fst tbl) (False, 0, []) = Inr (m, n, key)"
    and r: "(if m then run_selected e up peer key req st else Some (Inr (make_400_error new_builder, st))) = Some (Inr (b, st'))"
    by (auto simp: process_req_eq tbl split: sum.splits)
  show ?thesis
  proof (cases m)
    case True
    with coherent_page[OF assms(1,2), of n key] l r show ?thesis by (auto simp: answer_of_def)
  next
    case False
    with l r assms(1) show ?thesis by (auto simp: page_def answer_of_def)
  qed
qed

section \<open>Sequences of requests\<close>

text \<open>The dispatcher as a handler of a sequence of requests; \<open>prep\<close> is what is done to the
  shared state before each of them.\<close>

definition answer_req ::
  "(shared \<Rightarrow> shared) \<Rightarrow> upstream \<Rightarrow> (nat \<Rightarrow> peer) \<Rightarrow> env \<Rightarrow> nat \<times> shared \<Rightarrow> request \<Rightarrow>
   (response \<times> nat \<times> shared) result option" where
  "answer_req prep up peers e s req =
     map_option (\<lambda>x. and_then x (\<lambda>(b, st'). Inr (get_response b, Suc (fst s), st')))
       (process_req e up (peers (fst s)) req (prep (snd s)))"

definition forget :: "shared \<Rightarrow> shared" where
  "forget st = st\<lparr>sv_cache := Map.empty\<rparr>"

definition servable :: "request \<Rightarrow> bool" where
  "servable r \<longleftrightarrow> rq_method r \<noteq> INVALID \<and> int (length (rq_uri r)) \<le> INT_MAX"

lemma coherent_table_answers:
  "coherent e up w tbl st \<Longrightarrow> servable r \<Longrightarrow> table_answers e up r st"
  unfolding table_answers_def coherent_def list_all_iff
  by (auto simp: servable_def elim!: uri_only.elims dest!: bspec)

lemma run_answers:
  assumes "env_ok e" "net_ok up" "\<forall>n. peers n 2 = None \<or> peers n 3 \<noteq> None"
    and prep: "\<And>st. coherent e up w tbl st \<Longrightarrow> shared_ok st \<Longrightarrow> coherent e up w tbl (prep st) \<and> shared_ok (prep st)"
  shows "coherent e up w tbl st \<Longrightarrow> shared_ok st \<Longrightarrow> list_all servable reqs \<Longrightarrow>
   \<exists>s'. run_handler (answer_req prep up peers e) (n, st) reqs =
     Some (Inr (map (\<lambda>r. answer_of (page e up w tbl (rq_uri r))) reqs, s'))"
proof (induction reqs arbitrary: n st)
  case (Cons r rs)
  have c: "coherent e up w tbl (prep st)" "shared_ok (prep st)" using prep Cons.prems by auto
  have s: "servable r" using Cons.prems by simp
  obtain b st' where p: "process_req e up (peers n) r (prep st) = Some (Inr (b, st'))"
    using process_req_total[OF assms(1,2) c(2) coherent_table_answers[OF c(1) s] spec[OF assms(3), of n]] by blast
  from coherent_answer[OF c(1) _ p] s process_req_safe_lemma[OF assms(1,2) c(2) p] Cons.IH[of st' "Suc n"] Cons.prems p
  show ?case by (auto simp: answer_req_def servable_def)
qed simp


definition page_shared :: shared where
  "page_shared = \<lparr>sv_handlers = [(''/health/'', HealthHandler),
     (''/static/'', StaticHandler \<lparr>sh_root = ''/files/'', sh_prefix = ''/static/''\<rparr>)],
     sv_cache = Map.empty, sv_world = \<lparr>w_log = [], w_sent = 0\<rparr>\<rparr>"

lemma page_shared_ok: "shared_ok page_shared"
proof -
  have "keys_ok (sv_handlers page_shared)" by code_simp
  then show ?thesis
    by (simp add: shared_ok_def) (simp add: page_shared_def static_inv_def suffix_def)
qed


end
