(* ===== verification/Session_Threads.thy ===== *)
theory Session_Threads
  imports Response_Cache
begin

text \<open>
  \<open>process_req\<close> run by several threads at once (\<open>server_main.cc\<close> starts 16, and the strand of a
  connection only keeps its own callbacks apart).  The calls interleave between their accesses to
  the shared state: the look-up in the cache, the call of the handler and the update of the cache are
  single steps, the steps of one call are those of \<open>process_req\<close>, and any other call may run in
  between.  The containers themselves are taken to be safe to use from several threads, which the code
  does not ensure.
\<close>

section \<open>A call in turns\<close>

text \<open>Where a call of \<open>process_req\<close> is, and its next access to the shared state.\<close>

datatype task =
    Arrived request
  | Missed request
  | Handled string request response
  | is_answered: Answered request response_builder

fun process_turn :: "env \<Rightarrow> upstream \<Rightarrow> peer \<Rightarrow> task \<Rightarrow> shared \<Rightarrow> (task \<times> shared) result option" where
  "process_turn e up peer (Arrived r) st =
     Some (Inr (case lookup_req r st of Some res_build \<Rightarrow> Answered r res_build | None \<Rightarrow> Missed r, st))"
| "process_turn e up peer (Missed r) st =
     (case select_location r st of
        Inl err \<Rightarrow> Some (Inl err)
      | Inr (matched, _, max_matched_key) \<Rightarrow>
          if matched then
            map_option (\<lambda>x. and_then x (\<lambda>(res, st'). Inr (Handled max_matched_key r res, st')))
              (handle_selected e up max_matched_key r st)
          else Some (Inr (Answered r (make_400_error new_builder), st)))"
| "process_turn e up peer (Handled key r res) st =
     Some (and_then (store_response peer key r res st) (\<lambda>(res_build, st'). Inr (Answered r res_build, st')))"
| "process_turn e up peer (Answered r res_build) st = Some (Inr (Answered r res_build, st))"

definition next_turn ::
  "env \<Rightarrow> upstream \<Rightarrow> peer \<Rightarrow> (task \<times> shared) result option \<Rightarrow> (task \<times> shared) result option" where
  "next_turn e up peer x = Option.bind x (\<lambda>y. case y of Inl err \<Rightarrow> Some (Inl err) | Inr (t, st) \<Rightarrow> process_turn e up peer t st)"

lemma next_turn_simps [simp]:
  "next_turn e up peer None = None" "next_turn e up peer (Some (Inl err)) = Some (Inl err)"
  "next_turn e up peer (Some (Inr (t, st))) = process_turn e up peer t st"
  by (simp_all add: next_turn_def)

text \<open>Three turns are the whole call, whether it answers, throws or does not return.\<close>

lemma process_req_turns:
  "next_turn e up peer (next_turn e up peer (process_turn e up peer (Arrived r) st)) =
     map_option (\<lambda>x. and_then x (\<lambda>(res_build, st'). Inr (Answered r res_build, st'))) (process_req e up peer r st)"
proof (cases "lookup_req r st")
  case None
  show ?thesis
  proof (cases "select_location r st")
    case (Inr sel)
    obtain m n key where "sel = (m, n, key)" by (cases sel)
    with None Inr show ?thesis
      by (cases "handle_selected e up key r st")
        (auto simp: process_req_def run_selected_def and_then_def split: sum.splits)
  qed (simp add: process_req_def None)
qed (simp add: process_req_def)

text \<open>The turns of one call as a relation, and the three outcomes of a call in it.\<close>

definition task_step :: "env \<Rightarrow> upstream \<Rightarrow> peer \<Rightarrow> task \<times> shared \<Rightarrow> task \<times> shared \<Rightarrow> bool" where
  "task_step e up peer s s' \<longleftrightarrow> \<not> is_answered (fst s) \<and> process_turn e up peer (fst s) (snd s) = Some (Inr s')"

lemma turn_steps: "process_turn e up peer t st = Some (Inr s') \<Longrightarrow> (task_step e up peer)\<^sup>*\<^sup>* (t, st) s'"
  by (cases t) (auto simp: task_step_def)

lemma next_turn_reaches:
  assumes "next_turn e up peer x = Some (Inr s')"
  obtains t st where "x = Some (Inr (t, st))" "(task_step e up peer)\<^sup>*\<^sup>* (t, st) s'"
proof (cases x)
  case (Some y)
  with assms obtain t st where "y = Inr (t, st)" by (cases y) auto
  with Some assms turn_steps that show ?thesis by simp
qed (use assms in simp)

lemma process_req_answers:
  assumes "process_req e up peer r st = Some (Inr (b, st'))"
  shows "(task_step e up peer)\<^sup>*\<^sup>* (Arrived r, st) (Answered r b, st')"
proof -
  have "next_turn e up peer (next_turn e up peer (process_turn e up peer (Arrived r) st)) = Some (Inr (Answered r b, st'))"
    unfolding process_req_turns assms by simp
  then obtain t2 st2 where 2: "next_turn e up peer (process_turn e up peer (Arrived r) st) = Some (Inr (t2, st2))"
    "(task_step e up peer)\<^sup>*\<^sup>* (t2, st2) (Answered r b, st')" by (rule next_turn_reaches)
  from 2(1) obtain t1 st1 where 1: "process_turn e up peer (Arrived r) st = Some (Inr (t1, st1))"
    "(task_step e up peer)\<^sup>*\<^sup>* (t1, st1) (t2, st2)" by (rule next_turn_reaches)
  from turn_steps[OF 1(1)] 1(2) 2(2) show ?thesis by simp
qed

lemma process_req_stops:
  assumes "process_req e up peer r st = x" "x = None \<or> x = Some (Inl err)"
  shows "\<exists>t st1. (task_step e up peer)\<^sup>*\<^sup>* (Arrived r, st) (t, st1) \<and> \<not> is_answered t \<and>
    process_turn e up peer t st1 = map_option (\<lambda>_. Inl err) x"
proof -
  let ?next = "next_turn e up peer" and ?t1 = "process_turn e up peer (Arrived r) st"
  obtain t1 st1 where t1: "?t1 = Some (Inr (t1, st1))" by simp
  have all: "?next (?next ?t1) = map_option (\<lambda>_. Inl err) x"
    unfolding process_req_turns assms(1) using assms(2) by auto
  then have two: "?next (process_turn e up peer t1 st1) = map_option (\<lambda>_. Inl err) x"
    unfolding t1 next_turn_simps .
  note r1 = turn_steps[OF t1]
  have stop: "\<not> is_answered t" if "process_turn e up peer t st' = map_option (\<lambda>_. Inl err) x" for t st'
    using that assms(2) by (cases t) auto
  show ?thesis
  proof (cases "\<exists>t2 st2. process_turn e up peer t1 st1 = Some (Inr (t2, st2))")
    case True
    then obtain t2 st2 where t2: "process_turn e up peer t1 st1 = Some (Inr (t2, st2))" by blast
    then have "process_turn e up peer t2 st2 = map_option (\<lambda>_. Inl err) x" using two by simp
    with stop rtranclp_trans[OF r1 turn_steps[OF t2]] show ?thesis by blast
  next
    case False
    then have "?next (process_turn e up peer t1 st1) = process_turn e up peer t1 st1"
      by (cases "process_turn e up peer t1 st1") (auto simp: next_turn_def split: sum.splits)
    then have "process_turn e up peer t1 st1 = map_option (\<lambda>_. Inl err) x" using two by simp
    with stop r1 show ?thesis by blast
  qed
qed

section \<open>What a turn keeps\<close>

fun task_wf :: "string list \<Rightarrow> task \<Rightarrow> bool" where
  "task_wf keys (Handled key r res) \<longleftrightarrow> key \<in> set keys \<and> wf_response res"
| "task_wf keys (Answered r b) \<longleftrightarrow> wf_response (get_response b)"
| "task_wf keys _ \<longleftrightarrow> True"

fun task_request :: "task \<Rightarrow> request" where
  "task_request (Arrived r) = r"
| "task_request (Missed r) = r"
| "task_request (Handled key r res) = r"
| "task_request (Answered r b) = r"

lemma turn_safe:
  assumes "env_ok e" "net_ok up" "shared_ok st" "task_wf (table_keys st) t"
    and "process_turn e up peer t st = Some (Inr (t', st'))"
  shows "shared_ok st' \<and> task_wf (table_keys st') t' \<and> table_keys st' = table_keys st \<and> task_request t' = task_request t \<and>
    (\<forall>e1 up1 r1. table_answers e1 up1 r1 st \<longrightarrow> table_answers e1 up1 r1 st')"
proof (cases t)
  case (Arrived r)
  with assms(3,5) show ?thesis
    by (auto simp: lookup_req_def shared_ok_def split: option.splits if_splits)
next
  case (Missed r)
  with assms(5) obtain m n key where
    "(if m then map_option (\<lambda>x. and_then x (\<lambda>(res, st'). Inr (Handled key r res, st'))) (handle_selected e up key r st)
      else Some (Inr (Answered r (make_400_error new_builder), st))) = Some (Inr (t', st'))"
    by (auto split: sum.splits)
  then consider "t' = Answered r (make_400_error new_builder)" "st' = st"
    | res where "handle_selected e up key r st = Some (Inr (res, st'))" "t' = Handled key r res"
    by (cases m) auto
  then show ?thesis
  proof cases
    case 2
    from handle_selected_table(1,2,4)[OF 2(1)] have "key \<in> set (table_keys st')" by metis
    with 2 handle_selected_table(2,4)[OF 2(1)] handle_selected_safe[OF assms(1-3) 2(1)] Missed show ?thesis by simp
  qed (use Missed assms(3) wf_400_plain in simp)
next
  case (Handled key r res)
  with assms(4,5) obtain b where "store_response peer key r res st = Inr (b, st')" "t' = Answered r b" by auto
  with store_response_safe[OF assms(3)] Handled assms(4) show ?thesis by (auto simp: table_answers_def)
qed (use assms in auto)

lemma turns_safe:
  assumes "(task_step e up peer)\<^sup>*\<^sup>* (t, st) (t', st')" "env_ok e" "net_ok up" "shared_ok st" "task_wf (table_keys st) t"
  shows "shared_ok st' \<and> task_wf (table_keys st') t' \<and> table_keys st' = table_keys st \<and> task_request t' = task_request t \<and>
    (\<forall>e1 up1 r1. table_answers e1 up1 r1 st \<longrightarrow> table_answers e1 up1 r1 st')"
  using assms(1)
proof (induction "(t', st')" arbitrary: t' st' rule: rtranclp_induct)
  case (step y)
  obtain t1 st1 where y: "y = (t1, st1)" by (cases y)
  with step.hyps(2) turn_safe[OF assms(2,3), of st1 t1 peer t' st'] step.hyps(3)[OF y] show ?case
    by (auto simp: task_step_def)
qed (use assms in simp)

text \<open>Every turn can be made when the handlers of the table answer, and after at most three of them
  the request is answered.\<close>

lemma turn_total:
  assumes "env_ok e" "net_ok up" "shared_ok st" "task_wf (table_keys st) t" "table_answers e up (task_request t) st"
    and "peer 2 = None \<or> peer 3 \<noteq> None"
  shows "\<exists>t' st'. process_turn e up peer t st = Some (Inr (t', st'))"
proof (cases t)
  case (Missed r)
  show ?thesis
  proof (cases "rq_method r = INVALID")
    case False
    have k: "keys_ok (sv_handlers st)" using assms(3) by (simp add: shared_ok_def)
    obtain matched key where l: "match_loop (rq_uri r) (table_keys st) (False, 0, []) = Inr (matched, int (length key), key)"
      and m: "matched \<longrightarrow> key \<in> set (table_keys st)"
      using match_loop_total[OF k, of "rq_uri r"] by (metis set_map)
    have "select_location r st = Inr (matched, int (length key), key)" using l False by (simp add: select_location_def)
    with m Missed handle_selected_total[OF assms(1-3), of r key] assms(5) show ?thesis by (cases matched) auto
  qed (simp add: Missed select_location_def)
next
  case (Handled key r res)
  with store_response_total[of key st res peer r] assms(4,6) show ?thesis by auto
qed auto

fun turns_left :: "task \<Rightarrow> nat" where
  "turns_left (Arrived r) = 3"
| "turns_left (Missed r) = 2"
| "turns_left (Handled key r res) = 1"
| "turns_left (Answered r b) = 0"

lemma turn_decreases:
  "process_turn e up peer t st = Some (Inr (t', st')) \<Longrightarrow> \<not> is_answered t \<Longrightarrow> turns_left t' < turns_left t"
  by (cases t) (auto split: option.splits sum.splits if_splits)

lemma turns_total:
  assumes "env_ok e" "net_ok up" "shared_ok st" "task_wf (table_keys st) t" "table_answers e up (task_request t) st"
    and "peer 2 = None \<or> peer 3 \<noteq> None"
  shows "\<exists>b st'. (task_step e up peer)\<^sup>*\<^sup>* (t, st) (Answered (task_request t) b, st')"
  using assms(3-5)
proof (induction "turns_left t" arbitrary: t st rule: less_induct)
  case less
  show ?case
  proof (cases "is_answered t")
    case True
    then show ?thesis by (cases t) auto
  next
    case False
    obtain t' st' where s: "process_turn e up peer t st = Some (Inr (t', st'))"
      using turn_total[OF assms(1,2) less.prems assms(6)] by blast
    have safe: "shared_ok st'" "task_wf (table_keys st') t'" "task_request t' = task_request t"
      "table_answers e up (task_request t') st'"
      using turn_safe[OF assms(1,2) less.prems(1,2) s] less.prems(3) by auto
    from less.hyps[OF turn_decreases[OF s False] safe(1,2,4)] safe(3) obtain b st2 where
      "(task_step e up peer)\<^sup>*\<^sup>* (t', st') (Answered (task_request t) b, st2)" by auto
    with rtranclp_trans[OF turn_steps[OF s]] show ?thesis by blast
  qed
qed

section \<open>Interleaved calls\<close>

type_synonym tasks = "nat \<rightharpoonup> task"

inductive thread_step :: "env \<Rightarrow> upstream \<Rightarrow> (nat \<Rightarrow> peer) \<Rightarrow> tasks \<times> shared \<Rightarrow> tasks \<times> shared \<Rightarrow> bool"
  for e up peers where
  arrive: "ts i = None \<Longrightarrow> thread_step e up peers (ts, st) (ts(i \<mapsto> Arrived r), st)"
| turn: "ts i = Some t \<Longrightarrow> task_step e up (peers i) (t, st) (t', st') \<Longrightarrow>
    thread_step e up peers (ts, st) (ts(i \<mapsto> t'), st')"

inductive_cases thread_stepE: "thread_step e up peers s s'"

text \<open>A call that is not interrupted is a call of \<open>process_req\<close>.\<close>

lemma thread_turns:
  assumes "(task_step e up (peers i))\<^sup>*\<^sup>* (t, st) (t', st')" "ts i = Some t"
  shows "(thread_step e up peers)\<^sup>*\<^sup>* (ts, st) (ts(i \<mapsto> t'), st')"
  using assms(1)
proof (induction "(t', st')" arbitrary: t' st' rule: rtranclp_induct)
  case base
  from assms(2) have "ts(i \<mapsto> t) = ts" by auto
  then show ?case by simp
next
  case (step y)
  obtain t1 st1 where y: "y = (t1, st1)" by (cases y)
  have "thread_step e up peers (ts(i \<mapsto> t1), st1) ((ts(i \<mapsto> t1))(i \<mapsto> t'), st')"
    by (rule thread_step.turn[where ts = "ts(i \<mapsto> t1)" and i = i]) (use step.hyps(2) y in simp_all)
  then show ?case using step.hyps(3)[OF y] by simp
qed

lemma thread_alone:
  assumes "ts i = Some (Arrived r)" "process_req e up (peers i) r st = Some (Inr (b, st'))"
  shows "(thread_step e up peers)\<^sup>*\<^sup>* (ts, st) (ts(i \<mapsto> Answered r b), st')"
  using thread_turns[where ts = ts and i = i and peers = peers, OF process_req_answers[OF assms(2)] assms(1)] .

section \<open>Coherence under interleaving\<close>

fun task_ok :: "env \<Rightarrow> upstream \<Rightarrow> world \<Rightarrow> (string, request_handler) entries \<Rightarrow> task \<Rightarrow> bool" where
  "task_ok e up w tbl (Handled key r res) \<longleftrightarrow> page e up w tbl (rq_uri r) = Some res"
| "task_ok e up w tbl (Answered r b) \<longleftrightarrow>
     (rq_method r \<noteq> INVALID \<longrightarrow> get_response b = answer_of (page e up w tbl (rq_uri r)))"
| "task_ok e up w tbl _ \<longleftrightarrow> True"

definition tasks_ok :: "env \<Rightarrow> upstream \<Rightarrow> world \<Rightarrow> (string, request_handler) entries \<Rightarrow> tasks \<times> shared \<Rightarrow> bool" where
  "tasks_ok e up w tbl s \<longleftrightarrow> coherent e up w tbl (snd s) \<and> (\<forall>i t. fst s i = Some t \<longrightarrow> task_ok e up w tbl t)"

lemma tasks_okD: "tasks_ok e up w tbl (ts, st) \<Longrightarrow> ts i = Some t \<Longrightarrow> task_ok e up w tbl t"
  unfolding tasks_ok_def by fastforce

lemma task_ok_turn:
  assumes "coherent e up w tbl st" "task_ok e up w tbl t" "process_turn e up peer t st = Some (Inr (t', st'))"
  shows "coherent e up w tbl st' \<and> task_ok e up w tbl t'"
proof (cases t)
  case (Arrived r)
  with assms show ?thesis
    by (auto simp: lookup_req_def coherent_def answer_of_def split: option.splits if_splits)
next
  case (Missed r)
  have tbl: "sv_handlers st = tbl" using assms(1) by (simp add: coherent_def)
  from assms(3) Missed obtain m n key where sel: "select_location r st = Inr (m, n, key)"
    and res: "(if m then map_option (\<lambda>x. and_then x (\<lambda>(res, st'). Inr (Handled key r res, st'))) (handle_selected e up key r st)
      else Some (Inr (Answered r (make_400_error new_builder), st))) = Some (Inr (t', st'))"
    by (auto split: sum.splits)
  show ?thesis
  proof (cases m)
    case True
    then have "rq_method r \<noteq> INVALID" "match_loop (rq_uri r) (map fst tbl) (False, 0, []) = Inr (True, n, key)"
      using sel by (auto simp: select_location_def tbl split: if_splits)
    with True res coherent_handled[OF assms(1)] show ?thesis by auto
  next
    case False
    with sel have "rq_method r \<noteq> INVALID \<longrightarrow> page e up w tbl (rq_uri r) = None"
      by (auto simp: select_location_def page_def tbl)
    with False res assms(1) show ?thesis by (auto simp: answer_of_def)
  qed
next
  case (Handled key r res)
  with assms(2,3) coherent_stored[OF assms(1), of r res peer key] show ?thesis by (auto simp: answer_of_def)
qed (use assms in auto)

lemma tasks_ok_step:
  assumes "tasks_ok e up w tbl s" "thread_step e up peers s s'"
  shows "tasks_ok e up w tbl s'"
  using assms(2)
proof cases
  case (arrive ts i st r)
  with assms(1) show ?thesis by (auto simp: tasks_ok_def)
next
  case (turn ts i t st t' st')
  have "coherent e up w tbl st" "task_ok e up w tbl t"
    using tasks_okD[where ts = ts and i = i, OF _ turn(3)] assms(1) turn(1) by (auto simp: tasks_ok_def)
  with task_ok_turn[of e up w tbl st t "peers i" t' st'] turn assms(1) show ?thesis
    by (auto simp: tasks_ok_def task_step_def)
qed

lemma tasks_ok_reachable:
  "(thread_step e up peers)\<^sup>*\<^sup>* s s' \<Longrightarrow> tasks_ok e up w tbl s \<Longrightarrow> tasks_ok e up w tbl s'"
  by (induction rule: rtranclp_induct) (auto intro: tasks_ok_step)

section \<open>Properties\<close>


text \<open>Two calls for the same page: the second runs to its end after the first has missed the cache.\<close>

definition health_req :: request where
  "health_req = empty_request\<lparr>rq_uri := ''/health''\<rparr>"


section \<open>Races\<close>

lemma echo_turns:
  assumes "map_ok (sv_handlers st)" "map_find (sv_handlers st) key = Some EchoHandler"
    and "match_loop (rq_uri r) (table_keys st) (False, 0, []) = Inr (True, n, key)" "rq_method r \<noteq> INVALID"
    and "env_ok e" "echo_handle_request e () r = Inr (res, ())" "peer 2 = None \<or> peer 3 \<noteq> None"
  shows "process_turn e up peer (Missed r) st = Some (Inr (Handled key r res, st))"
    and "\<exists>w. process_turn e up peer (Handled key r res) st = Some (Inr (Answered r (set_response res new_builder),
      st\<lparr>sv_cache := (sv_cache st)(rq_uri r \<mapsto> res), sv_world := w\<rparr>))"
proof -
  have "handle_selected e up key r st = Some (Inr (res, st))"
    using assms(2,6) replace_handler_same[OF assms(1,2)] by (simp add: handle_selected_def local_result_def)
  then show "process_turn e up peer (Missed r) st = Some (Inr (Handled key r res, st))"
    using assms(3,4) by (simp add: select_location_def)
  have "wf_response res" using echo.handle_wf[OF assms(5), of "()" r res "()"] assms(6) by simp
  from log_metrics_defined[OF this assms(7), of r "get_handler_name EchoHandler" "w_log (sv_world st)"] assms(2)
  show "\<exists>w. process_turn e up peer (Handled key r res) st = Some (Inr (Answered r (set_response res new_builder),
      st\<lparr>sv_cache := (sv_cache st)(rq_uri r \<mapsto> res), sv_world := w\<rparr>))"
    by (auto simp: store_response_def simp del: get_handler_name.simps)
qed

lemma thread_turn:
  assumes "(thread_step e up peers)\<^sup>*\<^sup>* s (ts, st)" "ts i = Some t" "\<not> is_answered t"
    and "process_turn e up (peers i) t st = Some (Inr (t', st'))"
  shows "(thread_step e up peers)\<^sup>*\<^sup>* s (ts(i \<mapsto> t'), st')"
proof -
  have "thread_step e up peers (ts, st) (ts(i \<mapsto> t'), st')"
    by (rule thread_step.turn[where ts = ts and i = i, OF assms(2)]) (simp add: task_step_def assms(3,4))
  with assms(1) show ?thesis by (rule rtranclp.rtrancl_into_rtrancl)
qed

text \<open>Two requests for one URI below an echo location that is not in the cache yet.\<close>

definition echo_pair ::
  "env \<Rightarrow> (nat \<Rightarrow> peer) \<Rightarrow> string \<Rightarrow> shared \<Rightarrow> request \<times> response \<Rightarrow> request \<times> response \<Rightarrow> bool" where
  "echo_pair e peers key st x y \<longleftrightarrow> env_ok e \<and> map_ok (sv_handlers st) \<and> map_find (sv_handlers st) key = Some EchoHandler \<and>
     rq_uri (fst y) = rq_uri (fst x) \<and> sv_cache st (rq_uri (fst x)) = None \<and> rq_uri (fst x) \<noteq> ''/status'' \<and>
     (\<exists>n. match_loop (rq_uri (fst x)) (table_keys st) (False, 0, []) = Inr (True, n, key)) \<and>
     rq_method (fst x) \<noteq> INVALID \<and> echo_handle_request e () (fst x) = Inr (snd x, ()) \<and>
     rq_method (fst y) \<noteq> INVALID \<and> echo_handle_request e () (fst y) = Inr (snd y, ()) \<and>
     (\<forall>i. peers i 2 = None \<or> peers i 3 \<noteq> None)"

lemma echo_pair_turns:
  assumes "echo_pair e peers key st (r1, res1) (r2, res2)"
  shows "process_turn e up (peers i) (Arrived r1) st = Some (Inr (Missed r1, st))"
    and "process_turn e up (peers i) (Missed r1) st = Some (Inr (Handled key r1 res1, st))"
    and "\<exists>w. process_turn e up (peers i) (Handled key r1 res1) (st\<lparr>sv_cache := c, sv_world := w0\<rparr>) =
      Some (Inr (Answered r1 (set_response res1 new_builder), st\<lparr>sv_cache := c(rq_uri r1 \<mapsto> res1), sv_world := w\<rparr>))"
proof -
  note pair = assms[unfolded echo_pair_def, simplified]
  then obtain n where n: "match_loop (rq_uri r1) (table_keys st) (False, 0, []) = Inr (True, n, key)" by blast
  from pair show "process_turn e up (peers i) (Arrived r1) st = Some (Inr (Missed r1, st))"
    by (simp add: lookup_req_def)
  show "process_turn e up (peers i) (Missed r1) st = Some (Inr (Handled key r1 res1, st))"
    by (rule echo_turns(1)[where n = n]) (use pair n in simp_all)
  show "\<exists>w. process_turn e up (peers i) (Handled key r1 res1) (st\<lparr>sv_cache := c, sv_world := w0\<rparr>) =
      Some (Inr (Answered r1 (set_response res1 new_builder), st\<lparr>sv_cache := c(rq_uri r1 \<mapsto> res1), sv_world := w\<rparr>))"
    using echo_turns(2)[where st = "st\<lparr>sv_cache := c, sv_world := w0\<rparr>" and r = r1 and n = n and key = key and e = e
        and res = res1 and peer = "peers i" and up = up] pair n by auto
qed

lemma echo_pair_sym: "echo_pair e peers key st x y \<Longrightarrow> echo_pair e peers key st y x"
  unfolding echo_pair_def by auto

lemma echo_sequential:
  assumes "echo_pair e peers key st (r1, res1) (r2, res2)"
  shows "\<exists>st1. process_req e up (peers 0) r1 st = Some (Inr (set_response res1 new_builder, st1)) \<and>
      process_req e up (peers 1) r2 st1 = Some (Inr (set_response res1 new_builder, st1))"
proof -
  note turns = echo_pair_turns[OF assms, where i = 0 and up = up]
  obtain w where h: "process_turn e up (peers 0) (Handled key r1 res1) st =
      Some (Inr (Answered r1 (set_response res1 new_builder), st\<lparr>sv_cache := (sv_cache st)(rq_uri r1 \<mapsto> res1), sv_world := w\<rparr>))"
    using turns(3)[where c = "sv_cache st" and ?w0.0 = "sv_world st"] by auto
  let ?st1 = "st\<lparr>sv_cache := (sv_cache st)(rq_uri r1 \<mapsto> res1), sv_world := w\<rparr>"
  have "process_req e up (peers 0) r1 st = Some (Inr (set_response res1 new_builder, ?st1))"
    using process_req_turns[of e up "peers 0" r1 st] unfolding turns(1,2) next_turn_simps h
    by (cases "process_req e up (peers 0) r1 st") (auto simp: and_then_def split: sum.splits)
  moreover have "process_req e up (peers 1) r2 ?st1 = Some (Inr (set_response res1 new_builder, ?st1))"
    using assms by (simp add: process_req_def lookup_req_def echo_pair_def)
  ultimately show ?thesis by blast
qed

lemma echo_interleaved:
  assumes "echo_pair e peers key st (r1, res1) (r2, res2)"
  shows "\<exists>ts st'. (thread_step e up peers)\<^sup>*\<^sup>* (Map.empty, st) (ts, st') \<and>
      ts 0 = Some (Answered r1 (set_response res1 new_builder)) \<and> ts 1 = Some (Answered r2 (set_response res2 new_builder))"
proof -
  note turns1 = echo_pair_turns[OF assms, where i = 0 and up = up]
  note turns2 = echo_pair_turns[OF echo_pair_sym[OF assms], where i = 1 and up = up]
  obtain w1 where h1: "process_turn e up (peers 0) (Handled key r1 res1) st =
      Some (Inr (Answered r1 (set_response res1 new_builder), st\<lparr>sv_cache := (sv_cache st)(rq_uri r1 \<mapsto> res1), sv_world := w1\<rparr>))"
    using turns1(3)[where c = "sv_cache st" and ?w0.0 = "sv_world st"] by auto
  obtain st2 where h2: "process_turn e up (peers 1) (Handled key r2 res2)
      (st\<lparr>sv_cache := (sv_cache st)(rq_uri r1 \<mapsto> res1), sv_world := w1\<rparr>) =
      Some (Inr (Answered r2 (set_response res2 new_builder), st2))"
    using turns2(3) by blast
  let ?run = "(thread_step e up peers)\<^sup>*\<^sup>* (Map.empty, st)"
  have "?run ([0 \<mapsto> Arrived r1], st)" by (rule r_into_rtranclp, rule thread_step.arrive) simp
  then have "?run ([0 \<mapsto> Arrived r1, 1 \<mapsto> Arrived r2], st)"
    by (rule rtranclp.rtrancl_into_rtrancl) (rule thread_step.arrive, simp)
  from thread_turn[where i = 0, OF this _ _ turns1(1)] have "?run ([0 \<mapsto> Missed r1, 1 \<mapsto> Arrived r2], st)"
    by (simp add: fun_upd_twist)
  from thread_turn[where i = 1, OF this _ _ turns2(1)] have "?run ([0 \<mapsto> Missed r1, 1 \<mapsto> Missed r2], st)" by simp
  from thread_turn[where i = 0, OF this _ _ turns1(2)] have "?run ([0 \<mapsto> Handled key r1 res1, 1 \<mapsto> Missed r2], st)"
    by (simp add: fun_upd_twist)
  from thread_turn[where i = 1, OF this _ _ turns2(2)] have "?run ([0 \<mapsto> Handled key r1 res1, 1 \<mapsto> Handled key r2 res2], st)" by simp
  from thread_turn[where i = 1, OF thread_turn[where i = 0, OF this _ _ h1] _ _ h2] show ?thesis by fastforce
qed

text \<open>C35: What a client is told depends on a race: of two requests for the same URI below an echo location,
  the second gets the echo of the first when their calls run one after the other, but when both threads
  look into the cache before either has stored its response, each gets the echo of its own request.\<close>

theorem race_decides_answer:
  assumes "echo_pair e peers key st (r1, res1) (r2, res2)"
  shows "(\<exists>st1. process_req e up (peers 0) r1 st = Some (Inr (set_response res1 new_builder, st1)) \<and>
      process_req e up (peers 1) r2 st1 = Some (Inr (set_response res1 new_builder, st1))) \<and>
    (\<exists>ts st'. (thread_step e up peers)\<^sup>*\<^sup>* (Map.empty, st) (ts, st') \<and>
      ts 0 = Some (Answered r1 (set_response res1 new_builder)) \<and> ts 1 = Some (Answered r2 (set_response res2 new_builder)))"
  using echo_sequential[OF assms] echo_interleaved[OF assms] by blast

theorem race_decides_answer_witness:
  "\<exists>res1 res2. echo_handle_request plain_env () (empty_request\<lparr>rq_uri := ''/echo/x'', rq_body := ''a''\<rparr>) = Inr (res1, ()) \<and>
     echo_handle_request plain_env () (empty_request\<lparr>rq_uri := ''/echo/x'', rq_body := ''b''\<rparr>) = Inr (res2, ()) \<and> res1 \<noteq> res2 \<and>
     (\<exists>st1. process_req plain_env quiet_upstream (\<lambda>_. None) (empty_request\<lparr>rq_uri := ''/echo/x'', rq_body := ''b''\<rparr>) st1 =
        Some (Inr (set_response res1 new_builder, st1))) \<and>
     (\<exists>ts st'. (thread_step plain_env quiet_upstream (\<lambda>_ _. None))\<^sup>*\<^sup>* (Map.empty, example_shared) (ts, st') \<and>
        ts 1 = Some (Answered (empty_request\<lparr>rq_uri := ''/echo/x'', rq_body := ''b''\<rparr>) (set_response res2 new_builder)))"
proof -
  let ?r = "\<lambda>body. empty_request\<lparr>rq_uri := ''/echo/x'', rq_body := body\<rparr>"
  obtain res1 res2 where res: "echo_handle_request plain_env () (?r ''a'') = Inr (res1, ())"
    "echo_handle_request plain_env () (?r ''b'') = Inr (res2, ())"
    by (auto simp: echo_handle_request_def)
  have "rs_body res = echo_body r" if "echo_handle_request plain_env () r = Inr (res, ())" "rq_method r = GET" for r res
    using that by (auto simp: echo_handle_request_def Let_def get_response_def add_body_def make_date_servername_headers_def add_header_def)
  from this[OF res(1)] this[OF res(2)] have diff: "res1 \<noteq> res2" by (auto simp: echo_body_def empty_request_def)
  have ok: "map_ok (sv_handlers example_shared)" "map_find (sv_handlers example_shared) ''/echo/'' = Some EchoHandler"
    "sv_cache example_shared ''/echo/x'' = None"
    "match_loop ''/echo/x'' (table_keys example_shared) (False, 0, []) = Inr (True, 6, ''/echo/'')"
    using example_lookup by (simp_all add: example_shared_def) (simp_all add: example_locations_def map_ok_def less_char_def)
  have "echo_pair plain_env (\<lambda>_ _. None) ''/echo/'' example_shared (?r ''a'', res1) (?r ''b'', res2)"
    using ok res example_ok(1) by (simp add: echo_pair_def empty_request_def)
  from race_decides_answer[OF this, of quiet_upstream]
  show ?thesis using res diff by blast
qed

end
