(* ===== verification/Thread_Pool.thy ===== *)
theory Thread_Pool
  imports Response_Order Session_Threads
begin

text \<open>
  The server with its threads (\<open>server_main.cc\<close>: 16 threads run the callbacks).  Where
  \<open>Event_Loop\<close> takes the callback of a completed read as one step, here it runs in turns, and
  other threads run theirs in between: the bytes are parsed, each request is logged, goes through
  the turns of \<open>process_req\<close> on the shared state and has its response written, and at last the next
  read is started.  What a callback does to its own session is safe from others by the strand of the
  connection; single accesses to the shared state are taken to be atomic.  The theory shows that this
  finer system still implements the abstract service, keeps the order of responses, can always
  finish its callbacks, and has all runs of the coarser one in which no thread is caught.
\<close>

section \<open>Callbacks in progress\<close>

text \<open>\<open>received_req\<close> in its loop over the requests: those that are still to be served, and the
  call of \<open>process_req\<close> for the current one.\<close>

record callback =
  cb_requests :: "request list"
  cb_task :: "task option"

record pool =
  po_io :: io_state
  po_calls :: "nat \<rightharpoonup> callback"

datatype pool_process = Serving pool | Ended cxx_error pool

fun pool_of :: "pool_process \<Rightarrow> pool" where
  "pool_of (Serving p) = p"
| "pool_of (Ended err p) = p"

abbreviation po_shared :: "pool \<Rightarrow> shared" where
  "po_shared p \<equiv> io_shared (po_io p)"

text \<open>The sessions with a running callback; each of them takes a thread.\<close>

definition po_busy :: "pool \<Rightarrow> nat set" where
  "po_busy p = io_hung (po_io p) \<union> dom (po_calls p)"

definition thread_free :: "pool \<Rightarrow> bool" where
  "thread_free p \<longleftrightarrow> ac_phase (io_acceptor (po_io p)) \<noteq> Stopped \<and> card (po_busy p) < thread_count"

definition set_call :: "nat \<Rightarrow> callback option \<Rightarrow> session \<Rightarrow> shared \<Rightarrow> pool \<Rightarrow> pool" where
  "set_call n c ses st p = p\<lparr>po_io := set_session n ses st (po_io p), po_calls := (po_calls p)(n := c)\<rparr>"

text \<open>A thread that is caught in the callback of session \<open>n\<close>.\<close>

definition catch_thread :: "nat \<Rightarrow> session \<Rightarrow> pool \<Rightarrow> pool" where
  "catch_thread n ses p =
     (let s = po_io p in
      p\<lparr>po_io := set_session n ses (io_shared s) (s\<lparr>io_hung := insert n (io_hung s)\<rparr>), po_calls := (po_calls p)(n := None)\<rparr>)"

text \<open>A stop of the \<open>io_service\<close> starts no further callback; those that run go on.\<close>

inductive pool_step :: "pool \<Rightarrow> event list \<Rightarrow> pool_process \<Rightarrow> bool" where
  loop: "thread_free p \<Longrightarrow> loop_step (po_busy p) (po_io p) evs (Alive s) \<Longrightarrow>
    pool_step p evs (Serving (p\<lparr>po_io := s\<rparr>))"
| loop_ends: "thread_free p \<Longrightarrow> loop_step (po_busy p) (po_io p) evs (Crashed err s) \<Longrightarrow>
    pool_step p evs (Ended err (p\<lparr>po_io := s\<rparr>))"
| read_begins: "thread_free p \<Longrightarrow> io_sessions (po_io p) n = Some ses \<Longrightarrow> n \<notin> po_busy p \<Longrightarrow>
    co_reading (ses_connection ses) \<Longrightarrow> data \<noteq> [] \<Longrightarrow> length data \<le> max_len \<Longrightarrow>
    receive_loop data [] (ses_parser ses) (ses_request ses) = Some (Inr (requests, q, req)) \<Longrightarrow>
    pool_step p [] (Serving (set_call n (Some \<lparr>cb_requests = requests, cb_task = None\<rparr>)
      ((end_read ses)\<lparr>ses_parser := q, ses_request := req\<rparr>) (po_shared p) p))"
| read_throws: "thread_free p \<Longrightarrow> io_sessions (po_io p) n = Some ses \<Longrightarrow> n \<notin> po_busy p \<Longrightarrow>
    co_reading (ses_connection ses) \<Longrightarrow> data \<noteq> [] \<Longrightarrow> length data \<le> max_len \<Longrightarrow>
    receive_loop data [] (ses_parser ses) (ses_request ses) = Some (Inl err) \<Longrightarrow>
    pool_step p [] (Ended err p)"
| read_hangs: "thread_free p \<Longrightarrow> io_sessions (po_io p) n = Some ses \<Longrightarrow> n \<notin> po_busy p \<Longrightarrow>
    co_reading (ses_connection ses) \<Longrightarrow> data \<noteq> [] \<Longrightarrow> length data \<le> max_len \<Longrightarrow>
    receive_loop data [] (ses_parser ses) (ses_request ses) = None \<Longrightarrow>
    pool_step p [] (Serving (catch_thread n (end_read ses) p))"
| request_logged: "po_calls p n = Some \<lparr>cb_requests = r # rs, cb_task = None\<rparr> \<Longrightarrow>
    io_sessions (po_io p) n = Some ses \<Longrightarrow> peers_ok (ses_connection ses) (\<lambda>_. peer) \<Longrightarrow>
    log_request_info r (peer 0) (peer 1) (w_log (sv_world (po_shared p))) = Inr lg \<Longrightarrow>
    pool_step p [] (Serving (set_call n (Some \<lparr>cb_requests = rs, cb_task = Some (Arrived r)\<rparr>) ses
      ((po_shared p)\<lparr>sv_world := (sv_world (po_shared p))\<lparr>w_log := lg\<rparr>\<rparr>) p))"
| log_throws: "po_calls p n = Some \<lparr>cb_requests = r # rs, cb_task = None\<rparr> \<Longrightarrow>
    io_sessions (po_io p) n = Some ses \<Longrightarrow> peers_ok (ses_connection ses) (\<lambda>_. peer) \<Longrightarrow>
    log_request_info r (peer 0) (peer 1) (w_log (sv_world (po_shared p))) = Inl err \<Longrightarrow>
    pool_step p [] (Ended err p)"
| turn: "po_calls p n = Some \<lparr>cb_requests = rs, cb_task = Some t\<rparr> \<Longrightarrow>
    io_sessions (po_io p) n = Some ses \<Longrightarrow> peers_ok (ses_connection ses) (\<lambda>_. peer) \<Longrightarrow> env_ok e \<Longrightarrow> net_ok up \<Longrightarrow>
    task_step e up peer (t, po_shared p) (t', st') \<Longrightarrow>
    pool_step p [] (Serving (set_call n (Some \<lparr>cb_requests = rs, cb_task = Some t'\<rparr>) ses st' p))"
| turn_throws: "po_calls p n = Some \<lparr>cb_requests = rs, cb_task = Some t\<rparr> \<Longrightarrow> \<not> is_answered t \<Longrightarrow>
    io_sessions (po_io p) n = Some ses \<Longrightarrow> peers_ok (ses_connection ses) (\<lambda>_. peer) \<Longrightarrow> env_ok e \<Longrightarrow> net_ok up \<Longrightarrow>
    process_turn e up peer t (po_shared p) = Some (Inl err) \<Longrightarrow> pool_step p [] (Ended err p)"
| turn_hangs: "po_calls p n = Some \<lparr>cb_requests = rs, cb_task = Some t\<rparr> \<Longrightarrow> \<not> is_answered t \<Longrightarrow>
    io_sessions (po_io p) n = Some ses \<Longrightarrow> peers_ok (ses_connection ses) (\<lambda>_. peer) \<Longrightarrow> env_ok e \<Longrightarrow> net_ok up \<Longrightarrow>
    process_turn e up peer t (po_shared p) = None \<Longrightarrow> pool_step p [] (Serving (catch_thread n ses p))"
| response_written: "po_calls p n = Some \<lparr>cb_requests = rs, cb_task = Some (Answered r res_build)\<rparr> \<Longrightarrow>
    io_sessions (po_io p) n = Some ses \<Longrightarrow> conn_write res_build (ses_connection ses) = Inr c \<Longrightarrow>
    pool_step p (responses n ses (ses\<lparr>ses_connection := c\<rparr>))
      (Serving (set_call n (Some \<lparr>cb_requests = rs, cb_task = None\<rparr>) (ses\<lparr>ses_connection := c\<rparr>) (po_shared p) p))"
| write_throws: "po_calls p n = Some \<lparr>cb_requests = rs, cb_task = Some (Answered r res_build)\<rparr> \<Longrightarrow>
    io_sessions (po_io p) n = Some ses \<Longrightarrow> conn_write res_build (ses_connection ses) = Inl err \<Longrightarrow>
    pool_step p [] (Ended err p)"
| read_over: "po_calls p n = Some \<lparr>cb_requests = [], cb_task = None\<rparr> \<Longrightarrow> io_sessions (po_io p) n = Some ses \<Longrightarrow>
    pool_step p [] (Serving (set_call n None (wait_for_req ses) (po_shared p) p))"

inductive_cases pool_stepE: "pool_step p evs q"

inductive pool_process_step :: "pool_process \<Rightarrow> event list \<Rightarrow> pool_process \<Rightarrow> bool" where
  "pool_step p evs q \<Longrightarrow> pool_process_step (Serving p) evs q"

inductive_cases pool_process_stepE: "pool_process_step q evs q'"

definition pool_init :: "server \<Rightarrow> log \<Rightarrow> pool" where
  "pool_init srv lg = \<lparr>po_io = io_init srv lg, po_calls = Map.empty\<rparr>"

definition pool_runs :: "server \<Rightarrow> log \<Rightarrow> event list \<Rightarrow> pool_process \<Rightarrow> bool" where
  "pool_runs srv lg evs q \<longleftrightarrow> exec pool_process_step (Serving (pool_init srv lg)) evs q"

section \<open>The invariant\<close>

definition call_ok :: "shared \<Rightarrow> callback \<Rightarrow> bool" where
  "call_ok st c \<longleftrightarrow> (case cb_task c of None \<Rightarrow> True | Some t \<Rightarrow> task_wf (table_keys st) t)"

definition pool_inv :: "pool \<Rightarrow> bool" where
  "pool_inv p \<longleftrightarrow> inv_except (po_busy p) (po_io p) \<and> io_hung (po_io p) \<inter> dom (po_calls p) = {} \<and>
     card (po_busy p) \<le> thread_count \<and> (\<forall>n c. po_calls p n = Some c \<longrightarrow> call_ok (po_shared p) c)"

lemma pool_invD:
  assumes "pool_inv p"
  shows "inv_except (po_busy p) (po_io p)" "shared_ok (po_shared p)" "finite (po_busy p)"
    and "po_calls p n = Some c \<Longrightarrow> call_ok (po_shared p) c"
  using assms finite_subset[of "po_busy p" "dom (io_sessions (po_io p))"] by (simp_all add: pool_inv_def inv_except_def)

lemma call_ok_simps [simp]:
  "call_ok st \<lparr>cb_requests = rs, cb_task = None\<rparr>"
  "call_ok st \<lparr>cb_requests = rs, cb_task = Some t\<rparr> \<longleftrightarrow> task_wf (table_keys st) t"
  by (simp_all add: call_ok_def)

lemma call_ok_keys: "table_keys st = table_keys st' \<Longrightarrow> call_ok st c \<longleftrightarrow> call_ok st' c"
  by (cases "cb_task c") (simp_all add: call_ok_def)

lemma set_call_simps [simp]:
  "po_io (set_call n c ses st p) = set_session n ses st (po_io p)"
  "po_calls (set_call n c ses st p) = (po_calls p)(n := c)"
  by (simp_all add: set_call_def)

lemma po_busy_call [simp]:
  "po_busy (set_call n (Some c) ses st p) = insert n (po_busy p)"
  "n \<notin> io_hung (po_io p) \<Longrightarrow> po_busy (set_call n None ses st p) = po_busy p - {n}"
  by (auto simp: po_busy_def)

lemma po_busy_caught [simp]: "po_busy (catch_thread n ses p) = insert n (po_busy p)"
  by (auto simp: po_busy_def catch_thread_def Let_def)

text \<open>A step of the callback of session \<open>n\<close>: it may start, go on or be at its end.\<close>

lemma pool_inv_call:
  assumes "pool_inv p" "io_sessions (po_io p) n = Some ses0" "n \<notin> io_hung (po_io p)"
    and "n \<in> po_busy p \<or> card (po_busy p) < thread_count" "shared_ok st" "table_keys st = table_keys (po_shared p)"
    and "call_ok st c"
  shows "pool_inv (set_call n (Some c) ses st p)"
proof -
  have fin: "finite (po_busy p)" by (rule pool_invD(3)[OF assms(1)])
  have "inv_except (insert n (po_busy p)) (po_io p)"
    using pool_invD(1)[OF assms(1)] assms(2) by (auto simp: inv_except_def)
  from inv_except_session[OF this assms(2) _ assms(5)]
  have "inv_except (insert n (po_busy p)) (set_session n ses st (po_io p))" by simp
  moreover have "card (insert n (po_busy p)) \<le> thread_count"
    using assms(1,4) fin by (auto simp: pool_inv_def card_insert_if insert_absorb)
  ultimately show ?thesis
    using assms(1,3,7) call_ok_keys[OF assms(6)] by (auto simp: pool_inv_def)
qed

lemma inv_except_free:
  "inv_except B s \<Longrightarrow> io_sessions s n = Some ses \<Longrightarrow> conn_inv (ses_connection ses) \<Longrightarrow> inv_except (B - {n}) s"
  by (auto simp: inv_except_def)

lemma pool_inv_over:
  assumes "pool_inv p" "io_sessions (po_io p) n = Some ses0" "n \<notin> io_hung (po_io p)" "conn_inv (ses_connection ses)"
  shows "pool_inv (set_call n None ses (po_shared p) p)"
proof -
  have "inv_except (po_busy p) (set_session n ses (po_shared p) (po_io p))"
    by (rule inv_except_session[OF pool_invD(1)[OF assms(1)] assms(2) _ pool_invD(2)[OF assms(1)]]) (simp add: assms(4))
  then have "inv_except (po_busy p - {n}) (set_session n ses (po_shared p) (po_io p))"
    by (rule inv_except_free[where ses = ses]) (simp_all add: assms(4))
  moreover have "card (po_busy p - {n}) \<le> thread_count"
    using card_mono[OF pool_invD(3)[OF assms(1)], of "po_busy p - {n}"] assms(1) by (auto simp: pool_inv_def)
  ultimately show ?thesis using assms(1,3) by (auto simp: pool_inv_def)
qed

lemma pool_inv_caught:
  assumes "pool_inv p" "io_sessions (po_io p) n = Some ses0" "n \<in> po_busy p \<or> card (po_busy p) < thread_count"
  shows "pool_inv (catch_thread n ses p)"
proof -
  have "inv_except (insert n (po_busy p)) (set_session n ses (po_shared p) ((po_io p)\<lparr>io_hung := insert n (io_hung (po_io p))\<rparr>))"
    by (rule inv_except_hangs[OF pool_invD(1)[OF assms(1)] assms(2)])
  moreover have "card (insert n (po_busy p)) \<le> thread_count"
    using assms(1,3) pool_invD(3)[OF assms(1)] by (auto simp: pool_inv_def card_insert_if insert_absorb)
  ultimately show ?thesis using assms(1) unfolding pool_inv_def po_busy_caught by (auto simp: catch_thread_def Let_def)
qed

text \<open>Only callbacks of reads change the table, and sessions that are busy stay.\<close>

lemma release_table: "release n ses st s = (evs, s') \<Longrightarrow> sv_handlers (io_shared s') = sv_handlers st"
  by (auto simp: release_def Let_def with_acceptor_def split: if_splits)

lemma loop_step_table:
  "loop_step B s evs p \<Longrightarrow> sv_handlers (io_shared (state_of p)) = sv_handlers (io_shared s)"
  by (cases rule: loop_step.cases)
    (auto dest: release_table simp: completed_request_def with_acceptor_def Let_def)

lemma pool_inv_loop:
  assumes "pool_inv p" "thread_free p" "loop_step (po_busy p) (po_io p) evs q"
  shows "pool_inv (p\<lparr>po_io := state_of q\<rparr>)"
proof -
  have hung: "io_hung (state_of q) = io_hung (po_io p)" by (rule loop_step_hung[OF assms(3)])
  then have busy: "po_busy (p\<lparr>po_io := state_of q\<rparr>) = po_busy p" by (simp add: po_busy_def)
  have "inv_except (po_busy p) (state_of q)"
    using loop_step_inv[OF pool_invD(1)[OF assms(1)] _ assms(3)] assms(2) by (simp add: thread_free_def)
  moreover have "call_ok (io_shared (state_of q)) c \<longleftrightarrow> call_ok (po_shared p) c" for c
    by (rule call_ok_keys) (simp add: loop_step_table[OF assms(3)])
  ultimately show ?thesis using assms(1) unfolding pool_inv_def busy by (simp add: hung)
qed

lemma callback_at:
  assumes "pool_inv p" "po_calls p n = Some c"
  shows "n \<in> po_busy p" "n \<notin> io_hung (po_io p)" "call_ok (po_shared p) c"
  using assms by (auto simp: pool_inv_def po_busy_def)

lemma pool_step_inv:
  assumes "pool_inv p" "pool_step p evs q"
  shows "pool_inv (pool_of q)"
  using assms(2)
proof cases
  case (loop s)
  with pool_inv_loop[OF assms(1) loop(2,3)] show ?thesis by simp
next
  case (loop_ends err s)
  with pool_inv_loop[OF assms(1) loop_ends(2,3)] show ?thesis by simp
next
  case (read_begins n ses data requests q' req)
  with pool_inv_call[OF assms(1) read_begins(4)] pool_invD(2)[OF assms(1)] show ?thesis
    by (simp add: thread_free_def po_busy_def)
next
  case (read_hangs n ses data)
  with pool_inv_caught[OF assms(1) read_hangs(4)] show ?thesis by (simp add: thread_free_def)
next
  case (request_logged n r rs ses peer lg)
  with pool_inv_call[OF assms(1) request_logged(4)] callback_at[OF assms(1) request_logged(3)] pool_invD(2)[OF assms(1)]
  show ?thesis by simp
next
  case (turn n rs t ses peer e up t' st')
  note at = callback_at[OF assms(1) turn(3)]
  have "process_turn e up peer t (po_shared p) = Some (Inr (t', st'))" "task_wf (table_keys (po_shared p)) t"
    using turn(8) at(3) by (simp_all add: task_step_def)
  note safe = turn_safe[OF turn(6,7) pool_invD(2)[OF assms(1)] this(2,1)]
  have "call_ok st' \<lparr>cb_requests = rs, cb_task = Some t'\<rparr>" unfolding call_ok_simps using safe by blast
  from pool_inv_call[OF assms(1) turn(4) at(2) disjI1[OF at(1)] _ _ this] safe turn(2) show ?thesis by simp
next
  case (turn_hangs n rs t ses peer e up)
  with pool_inv_caught[OF assms(1) turn_hangs(5)] callback_at[OF assms(1) turn_hangs(3)] show ?thesis by simp
next
  case (response_written n rs r res_build ses c)
  with pool_inv_call[OF assms(1) response_written(4)] callback_at[OF assms(1) response_written(3)] pool_invD(2)[OF assms(1)]
  show ?thesis by simp
next
  case (read_over n ses)
  with pool_inv_over[OF assms(1) read_over(4)] callback_at[OF assms(1) read_over(3)] conn_inv_read
  show ?thesis by (simp add: wait_for_req_def)
qed (use assms(1) in simp_all)

section \<open>The service\<close>

lemma response_written_framed:
  assumes "pool_inv p" "po_calls p n = Some \<lparr>cb_requests = rs, cb_task = Some (Answered r b)\<rparr>"
    and "conn_write b (ses_connection ses) = Inr c"
  shows "\<exists>bytes. framed bytes \<and> c = async_writes [bytes] (ses_connection ses) \<and>
    responses n ses (ses\<lparr>ses_connection := c\<rparr>) = [Respond n bytes]"
proof -
  have "wf_response (get_response b)" using callback_at(3)[OF assms(1,2)] by simp
  with conn_write_framed[OF this, of "ses_connection ses"] assms(3) show ?thesis
    by (auto simp: responses_def async_writes_def)
qed

definition pool_clients :: "pool_process \<Rightarrow> nat set" where
  "pool_clients q = dom (io_sessions (po_io (pool_of q)))"

lemma pool_step_sim:
  assumes "pool_inv p" "pool_step p evs q"
  shows "spec_run service_step (dom (io_sessions (po_io p))) evs (pool_clients q)"
  using assms(2)
proof cases
  case (loop s)
  with loop_step_sim[OF pool_invD(1)[OF assms(1)] loop(3)] show ?thesis by (simp add: pool_clients_def)
next
  case (loop_ends err s)
  with loop_step_sim[OF pool_invD(1)[OF assms(1)] loop_ends(3)] show ?thesis by (simp add: pool_clients_def)
next
  case (response_written n rs r res_build ses c)
  obtain bytes where b: "framed bytes" "evs = [Respond n bytes]"
    using response_written_framed[OF assms(1) response_written(3,5)] response_written(1) by auto
  have "n \<in> dom (io_sessions (po_io p))" using response_written(4) by auto
  with service_responses[of n _ "[bytes]"] b response_written(2) show ?thesis
    by (simp add: pool_clients_def insert_absorb)
qed (auto simp: pool_clients_def catch_thread_def Let_def spec_nil insert_dom)

interpretation pool_service: forward_simulation pool_process_step service_step pool_clients "\<lambda>q. pool_inv (pool_of q)"
proof unfold_locales
  fix q es q'
  assume inv: "pool_inv (pool_of q)" and "pool_process_step q es q'"
  then obtain p where p: "q = Serving p" "pool_step p es q'" by (auto elim: pool_process_stepE)
  with inv show "pool_inv (pool_of q')" by (simp add: pool_step_inv)
  from p inv show "spec_run service_step (pool_clients q) es (pool_clients q')"
    using pool_step_sim[of p es q'] by (simp add: pool_clients_def)
qed

lemma pool_init_inv:
  assumes "new_server port conf lg0 = Inr srv" "config_ok conf"
  shows "pool_inv (pool_init srv lg)"
  using io_init_inv[OF assms, of lg]
  by (simp add: pool_inv_def pool_init_def po_busy_def io_inv_def)

lemma pool_runs_inv:
  assumes "new_server port conf lg0 = Inr srv" "config_ok conf" "pool_runs srv lg evs q"
  shows "pool_inv (pool_of q)"
  using pool_service.exec_inv[OF assms(3)[unfolded pool_runs_def]] pool_init_inv[OF assms(1,2)] by simp

section \<open>Callbacks can finish\<close>

lemma exec_pool: "exec pool_process_step q es (Serving p) \<Longrightarrow> pool_step p fs q' \<Longrightarrow> exec pool_process_step q (es @ fs) q'"
  using exec_snoc[of pool_process_step q es "Serving p" fs q'] pool_process_step.intros by blast

lemma exec_pool_one: "pool_step p es q \<Longrightarrow> exec pool_process_step (Serving p) es q"
  using exec_pool[OF exec_nil] by fastforce

lemma exec_pool_inv: "exec pool_process_step (Serving p) es (Serving p') \<Longrightarrow> pool_inv p \<Longrightarrow> pool_inv p'"
  using pool_service.exec_inv[of "Serving p" es "Serving p'"] by simp

lemma set_call_again [simp]: "set_call n c ses st (set_call n c' ses' st' p) = set_call n c ses st p"
  by (cases p) (simp add: set_call_def set_session_def)

lemma set_call_same:
  assumes "po_calls p n = c" "io_sessions (po_io p) n = Some ses"
  shows "set_call n c ses (po_shared p) p = p"
  using assms by (cases p; cases "po_io p") (auto simp: set_call_def set_session_def)

lemma pool_turns:
  assumes "(task_step e up peer)\<^sup>*\<^sup>* (t, po_shared p) (t', st')"
    and "po_calls p n = Some \<lparr>cb_requests = rs, cb_task = Some t\<rparr>" "io_sessions (po_io p) n = Some ses"
    and "peers_ok (ses_connection ses) (\<lambda>_. peer)" "env_ok e" "net_ok up"
  shows "exec pool_process_step (Serving p) []
    (Serving (set_call n (Some \<lparr>cb_requests = rs, cb_task = Some t'\<rparr>) ses st' p))"
  using assms(1)
proof (induction "(t', st')" arbitrary: t' st' rule: rtranclp_induct)
  case base
  then show ?case using set_call_same[OF assms(2,3)] exec_nil by simp
next
  case (step y)
  obtain t1 st1 where y: "y = (t1, st1)" by (cases y)
  let ?p = "set_call n (Some \<lparr>cb_requests = rs, cb_task = Some t1\<rparr>) ses st1 p"
  have "pool_step ?p [] (Serving (set_call n (Some \<lparr>cb_requests = rs, cb_task = Some t'\<rparr>) ses st' ?p))"
    by (rule pool_step.turn[where t = t1, OF _ _ assms(4-6)]) (use step.hyps(2) y in simp_all)
  from exec_pool[OF step.hyps(3)[OF y] this] show ?case by simp
qed

text \<open>A request whose call has started is answered; one that is still to be served is logged first.\<close>

lemma task_answers:
  assumes "pool_inv p" "po_calls p n = Some \<lparr>cb_requests = rs, cb_task = Some t\<rparr>" "io_sessions (po_io p) n = Some ses"
    and "co_open (ses_connection ses)" "env_ok e" "net_ok up" "table_answers e up (task_request t) (po_shared p)"
  shows "\<exists>b st'. exec pool_process_step (Serving p) []
      (Serving (set_call n (Some \<lparr>cb_requests = rs, cb_task = Some (Answered (task_request t) b)\<rparr>) ses st' p)) \<and>
    wf_response (get_response b) \<and> (\<forall>e1 up1 r1. table_answers e1 up1 r1 (po_shared p) \<longrightarrow> table_answers e1 up1 r1 st')"
proof -
  let ?peer = "\<lambda>_. Some (''::1'', 80)"
  have wf: "task_wf (table_keys (po_shared p)) t" using callback_at(3)[OF assms(1,2)] by simp
  have peer: "peers_ok (ses_connection ses) (\<lambda>_. ?peer)" using assms(4) by (simp add: peers_ok_def)
  obtain b st' where run: "(task_step e up ?peer)\<^sup>*\<^sup>* (t, po_shared p) (Answered (task_request t) b, st')"
    using turns_total[OF assms(5,6) pool_invD(2)[OF assms(1)] wf assms(7), of ?peer] by auto
  from pool_turns[OF run assms(2,3) peer assms(5,6)] turns_safe[OF run assms(5,6) pool_invD(2)[OF assms(1)] wf]
  show ?thesis by auto
qed

lemma answer_written:
  assumes "po_calls p n = Some \<lparr>cb_requests = rs, cb_task = Some (Answered r b)\<rparr>" "io_sessions (po_io p) n = Some ses"
    and "wf_response (get_response b)"
  shows "\<exists>bytes. pool_step p [Respond n bytes] (Serving (set_call n (Some \<lparr>cb_requests = rs, cb_task = None\<rparr>)
      (ses\<lparr>ses_connection := async_writes [bytes] (ses_connection ses)\<rparr>) (po_shared p) p)) \<and> framed bytes"
proof -
  obtain bytes where c: "conn_write b (ses_connection ses) = Inr (async_writes [bytes] (ses_connection ses))" "framed bytes"
    using conn_write_framed[OF assms(3)] by blast
  from pool_step.response_written[OF assms(1,2) c(1)] c(2) show ?thesis by (auto simp: responses_def async_writes_def)
qed

lemma request_starts:
  assumes "po_calls p n = Some \<lparr>cb_requests = r # rs, cb_task = None\<rparr>" "io_sessions (po_io p) n = Some ses"
    and "co_open (ses_connection ses)"
  shows "\<exists>lg. pool_step p [] (Serving (set_call n (Some \<lparr>cb_requests = rs, cb_task = Some (Arrived r)\<rparr>) ses
    ((po_shared p)\<lparr>sv_world := (sv_world (po_shared p))\<lparr>w_log := lg\<rparr>\<rparr>) p))"
proof -
  let ?peer = "\<lambda>_. Some (''::1'', 80)"
  obtain lg where lg: "log_request_info r (?peer 0) (?peer 1) (w_log (sv_world (po_shared p))) = Inr lg"
    by (simp add: log_request_info_def remote_endpoint_def)
  have "peers_ok (ses_connection ses) (\<lambda>_. ?peer)" using assms(3) by (simp add: peers_ok_def)
  from pool_step.request_logged[where peer = ?peer, OF assms(1,2) this lg] show ?thesis by blast
qed

lemma task_finishes:
  assumes "pool_inv p" "po_calls p n = Some \<lparr>cb_requests = rs, cb_task = Some t\<rparr>" "io_sessions (po_io p) n = Some ses"
    and "co_open (ses_connection ses)" "env_ok e" "net_ok up" "table_answers e up (task_request t) (po_shared p)"
  shows "\<exists>bytes st'. exec pool_process_step (Serving p) [Respond n bytes]
      (Serving (set_call n (Some \<lparr>cb_requests = rs, cb_task = None\<rparr>)
        (ses\<lparr>ses_connection := async_writes [bytes] (ses_connection ses)\<rparr>) st' p)) \<and> framed bytes \<and>
    (\<forall>e1 up1 r1. table_answers e1 up1 r1 (po_shared p) \<longrightarrow> table_answers e1 up1 r1 st')"
proof -
  obtain b st' where a: "exec pool_process_step (Serving p) []
      (Serving (set_call n (Some \<lparr>cb_requests = rs, cb_task = Some (Answered (task_request t) b)\<rparr>) ses st' p))"
    "wf_response (get_response b)" "\<forall>e1 up1 r1. table_answers e1 up1 r1 (po_shared p) \<longrightarrow> table_answers e1 up1 r1 st'"
    using task_answers[OF assms] by blast
  from answer_written[OF _ _ a(2), of "set_call n (Some \<lparr>cb_requests = rs, cb_task = Some (Answered (task_request t) b)\<rparr>) ses st' p"
      n rs "task_request t" ses] exec_pool[OF a(1)] a(3)
  show ?thesis by auto
qed

lemma request_finishes:
  assumes "pool_inv p" "po_calls p n = Some \<lparr>cb_requests = r # rs, cb_task = None\<rparr>" "io_sessions (po_io p) n = Some ses"
    and "co_open (ses_connection ses)" "env_ok e" "net_ok up" "table_answers e up r (po_shared p)"
  shows "\<exists>bytes st'. exec pool_process_step (Serving p) [Respond n bytes]
      (Serving (set_call n (Some \<lparr>cb_requests = rs, cb_task = None\<rparr>)
        (ses\<lparr>ses_connection := async_writes [bytes] (ses_connection ses)\<rparr>) st' p)) \<and> framed bytes \<and>
    (\<forall>e1 up1 r1. table_answers e1 up1 r1 (po_shared p) \<longrightarrow> table_answers e1 up1 r1 st')"
proof -
  obtain lg where step: "pool_step p [] (Serving (set_call n (Some \<lparr>cb_requests = rs, cb_task = Some (Arrived r)\<rparr>) ses
      ((po_shared p)\<lparr>sv_world := (sv_world (po_shared p))\<lparr>w_log := lg\<rparr>\<rparr>) p))"
    using request_starts[OF assms(2-4)] by blast
  let ?st1 = "(po_shared p)\<lparr>sv_world := (sv_world (po_shared p))\<lparr>w_log := lg\<rparr>\<rparr>"
  let ?p = "set_call n (Some \<lparr>cb_requests = rs, cb_task = Some (Arrived r)\<rparr>) ses ?st1 p"
  have inv: "pool_inv ?p" using pool_step_inv[OF assms(1) step] by simp
  obtain bytes st' where "exec pool_process_step (Serving ?p) [Respond n bytes]
      (Serving (set_call n (Some \<lparr>cb_requests = rs, cb_task = None\<rparr>)
        (ses\<lparr>ses_connection := async_writes [bytes] (ses_connection ses)\<rparr>) st' ?p))" "framed bytes"
    "\<forall>e1 up1 r1. table_answers e1 up1 r1 ?st1 \<longrightarrow> table_answers e1 up1 r1 st'"
    using task_finishes[OF inv, of n rs "Arrived r" ses e up] assms(4-7) by auto
  with exec_append[OF _ exec_pool_one[OF step]] show ?thesis by fastforce
qed

lemma requests_finish:
  assumes "env_ok e" "net_ok up"
  shows "pool_inv p \<Longrightarrow> po_calls p n = Some \<lparr>cb_requests = rs, cb_task = None\<rparr> \<Longrightarrow> io_sessions (po_io p) n = Some ses \<Longrightarrow>
    co_open (ses_connection ses) \<Longrightarrow> list_all (\<lambda>r. table_answers e up r (po_shared p)) rs \<Longrightarrow>
    \<exists>bs st'. exec pool_process_step (Serving p) (map (Respond n) bs)
      (Serving (set_call n None (wait_for_req (ses\<lparr>ses_connection := async_writes bs (ses_connection ses)\<rparr>)) st' p)) \<and>
      length bs = length rs \<and> list_all framed bs"
proof (induction rs arbitrary: p ses)
  case Nil
  have "ses\<lparr>ses_connection := async_writes [] (ses_connection ses)\<rparr> = ses" by (simp add: async_writes_def)
  with exec_pool_one[OF pool_step.read_over[OF Nil.prems(2,3)]] show ?case by (intro exI[of _ "[]"]) auto
next
  case (Cons r rs)
  let ?ses = "\<lambda>bytes. ses\<lparr>ses_connection := async_writes [bytes] (ses_connection ses)\<rparr>"
  obtain b st1 where one: "exec pool_process_step (Serving p) [Respond n b]
      (Serving (set_call n (Some \<lparr>cb_requests = rs, cb_task = None\<rparr>) (?ses b) st1 p))" "framed b"
    "\<forall>e1 up1 r1. table_answers e1 up1 r1 (po_shared p) \<longrightarrow> table_answers e1 up1 r1 st1"
    using request_finishes[OF Cons.prems(1-4) assms] Cons.prems(5) by auto
  let ?p = "set_call n (Some \<lparr>cb_requests = rs, cb_task = None\<rparr>) (?ses b) st1 p"
  have answers: "list_all (\<lambda>r. table_answers e up r (po_shared ?p)) rs"
    using Cons.prems(5) one(3) by (auto simp: list_all_iff)
  obtain bs st' where rest: "exec pool_process_step (Serving ?p) (map (Respond n) bs)
      (Serving (set_call n None (wait_for_req ((?ses b)\<lparr>ses_connection := async_writes bs (ses_connection (?ses b))\<rparr>)) st' ?p))"
    "length bs = length rs" "list_all framed bs"
    using Cons.IH[of ?p "?ses b", OF exec_pool_inv[OF one(1) Cons.prems(1)] _ _ _ answers] Cons.prems(4)
    by (auto simp: async_writes_def)
  have "async_writes bs (async_writes [b] c) = async_writes (b # bs) c" for c by (simp add: async_writes_def)
  with exec_append[OF rest(1) one(1)] rest(2,3) one(2) show ?case by (intro exI[of _ "b # bs"] exI[of _ st']) simp
qed

section \<open>Callbacks that are not interrupted\<close>

text \<open>A callback of \<open>Event_Loop\<close>, which is one step there, is a run of its turns here.\<close>

lemma conn_write_async: "conn_write b c = Inr c' \<Longrightarrow> \<exists>bytes. c' = async_writes [bytes] c"
  by (auto simp: conn_write_def async_write_def async_writes_def)

lemma work_all_run:
  assumes "env_ok e" "net_ok up"
  shows "work_all e up peers i rs (ses, st) = Some (Inr (ses', st')) \<Longrightarrow> peers_ok (ses_connection ses) peers \<Longrightarrow>
    \<exists>bs. ses' = ses\<lparr>ses_connection := async_writes bs (ses_connection ses)\<rparr> \<and>
      exec pool_process_step (Serving (set_call n (Some \<lparr>cb_requests = rs, cb_task = None\<rparr>) ses st p)) (map (Respond n) bs)
        (Serving (set_call n (Some \<lparr>cb_requests = [], cb_task = None\<rparr>) ses' st' p))"
proof (induction rs arbitrary: i ses st)
  case Nil
  then show ?case using exec_nil by (intro exI[of _ "[]"]) (auto simp: async_writes_def)
next
  case (Cons r rs)
  let ?at = "\<lambda>rs t ses st. set_call n (Some \<lparr>cb_requests = rs, cb_task = t\<rparr>) ses st p"
  from Cons.prems(1) obtain lg ses1 st1 where lg: "log_request_info r (peers i 0) (peers i 1) (w_log (sv_world st)) = Inr lg"
    and t: "thread_work e up (peers i) r (ses, st\<lparr>sv_world := (sv_world st)\<lparr>w_log := lg\<rparr>\<rparr>) = Some (Inr (ses1, st1))"
    and w1: "work_all e up peers (Suc i) rs (ses1, st1) = Some (Inr (ses', st'))" by (rule work_all_parts)
  from t obtain b c where
    pr: "process_req e up (peers i) r (st\<lparr>sv_world := (sv_world st)\<lparr>w_log := lg\<rparr>\<rparr>) = Some (Inr (b, st1))"
    and c: "conn_write b (ses_connection ses) = Inr c" and ses1: "ses1 = ses\<lparr>ses_connection := c\<rparr>"
    by (rule thread_work_parts)
  note w = w1[unfolded ses1]
  let ?st = "st\<lparr>sv_world := (sv_world st)\<lparr>w_log := lg\<rparr>\<rparr>" and ?ses = "ses\<lparr>ses_connection := c\<rparr>"
  obtain bytes where ceq: "c = async_writes [bytes] (ses_connection ses)" using conn_write_async[OF c] by blast
  have peer: "peers_ok (ses_connection ses) (\<lambda>_. peers i)" "peers_ok (ses_connection ?ses) peers"
    using Cons.prems(2) by (auto simp: peers_ok_def ceq async_writes_def)
  let ?p0 = "?at (r # rs) None ses st" and ?p1 = "?at rs (Some (Arrived r)) ses ?st" and ?p2 = "?at rs (Some (Answered r b)) ses st1"
  have "pool_step ?p0 [] (Serving (set_call n (Some \<lparr>cb_requests = rs, cb_task = Some (Arrived r)\<rparr>) ses
      ((po_shared ?p0)\<lparr>sv_world := (sv_world (po_shared ?p0))\<lparr>w_log := lg\<rparr>\<rparr>) ?p0))"
    by (rule pool_step.request_logged[where peer = "peers i", OF _ _ peer(1)]) (use lg in simp_all)
  then have s0: "pool_step ?p0 [] (Serving ?p1)" by simp
  have "exec pool_process_step (Serving ?p1) [] (Serving (set_call n (Some \<lparr>cb_requests = rs, cb_task = Some (Answered r b)\<rparr>) ses st1 ?p1))"
    by (rule pool_turns[where peer = "peers i" and t = "Arrived r", OF _ _ _ peer(1) assms]) (simp_all add: process_req_answers[OF pr])
  then have s1: "exec pool_process_step (Serving ?p1) [] (Serving ?p2)" by simp
  have "pool_step ?p2 (responses n ses ?ses) (Serving (set_call n (Some \<lparr>cb_requests = rs, cb_task = None\<rparr>) ?ses (po_shared ?p2) ?p2))"
    by (rule pool_step.response_written[where r = r and res_build = b]) (simp_all add: c)
  moreover have "responses n ses ?ses = [Respond n bytes]" by (simp add: ceq responses_def async_writes_def)
  ultimately have s2: "pool_step ?p2 [Respond n bytes] (Serving (?at rs None ?ses st1))" by simp
  have one: "exec pool_process_step (Serving ?p0) [Respond n bytes] (Serving (?at rs None ?ses st1))"
    using exec_pool[OF exec_append[OF s1 exec_pool_one[OF s0]] s2] by simp
  obtain bs where bs: "ses' = ?ses\<lparr>ses_connection := async_writes bs (ses_connection ?ses)\<rparr>"
    "exec pool_process_step (Serving (?at rs None ?ses st1)) (map (Respond n) bs) (Serving (?at [] None ses' st'))"
    using Cons.IH[OF w peer(2)] by blast
  have "exec pool_process_step (Serving (?at (r # rs) None ses st)) (map (Respond n) (bytes # bs)) (Serving (?at [] None ses' st'))"
    using exec_append[OF bs(2) one] by simp
  with bs(1) show ?case by (intro exI[of _ "bytes # bs"]) (simp add: ceq async_writes_def)
qed

lemma received_run:
  assumes "thread_free p" "io_sessions (po_io p) n = Some ses" "n \<notin> po_busy p" "co_reading (ses_connection ses)"
    and "peers_ok (ses_connection ses) peers" "data \<noteq> []" "length data \<le> max_len" "env_ok e" "net_ok up"
    and "received_req e up peers False data (end_read ses, po_shared p) = Some (Inr (ses', st'))"
  shows "exec pool_process_step (Serving p) (responses n ses ses') (Serving (p\<lparr>po_io := set_session n ses' st' (po_io p)\<rparr>))"
proof -
  from assms(10) obtain rs q req ses1 where
    "receive_loop data [] (ses_parser (end_read ses)) (ses_request (end_read ses)) = Some (Inr (rs, q, req))"
    and work: "work_all e up peers 0 rs ((end_read ses)\<lparr>ses_parser := q, ses_request := req\<rparr>, po_shared p) = Some (Inr (ses1, st'))"
    and ses': "ses' = wait_for_req ses1" by (rule received_req_parts)
  then have loop: "receive_loop data [] (ses_parser ses) (ses_request ses) = Some (Inr (rs, q, req))" by simp
  let ?ses = "(end_read ses)\<lparr>ses_parser := q, ses_request := req\<rparr>"
  let ?p = "set_call n (Some \<lparr>cb_requests = rs, cb_task = None\<rparr>) ?ses (po_shared p) p"
  let ?p1 = "set_call n (Some \<lparr>cb_requests = [], cb_task = None\<rparr>) ses1 st' p"
  have "peers_ok (ses_connection ?ses) peers" using assms(5) by (simp add: peers_ok_def)
  from work_all_run[OF assms(8,9) work this, of n p] obtain bs where
    ses1: "ses1 = ?ses\<lparr>ses_connection := async_writes bs (ses_connection ?ses)\<rparr>"
    and run: "exec pool_process_step (Serving ?p) (map (Respond n) bs) (Serving ?p1)" by blast
  have start: "pool_step p [] (Serving ?p)" by (rule pool_step.read_begins[OF assms(1-4,6,7) loop])
  have "pool_step ?p1 [] (Serving (set_call n None (wait_for_req ses1) (po_shared ?p1) ?p1))"
    by (rule pool_step.read_over) simp_all
  then have over: "pool_step ?p1 [] (Serving (set_call n None ses' st' p))" by (simp add: ses')
  have same: "set_call n None ses' st' p = p\<lparr>po_io := set_session n ses' st' (po_io p)\<rparr>"
    using assms(3) by (cases p) (auto simp: set_call_def po_busy_def)
  have "responses n ses ses' = map (Respond n) bs"
    by (simp add: ses' ses1 responses_def wait_for_req_def conn_read_def expires_from_now_def async_writes_def)
  with exec_pool[OF exec_append[OF run exec_pool_one[OF start]] over] show ?thesis unfolding same by simp
qed

lemma io_step_hung: "io_step s evs (Alive s') \<Longrightarrow> io_hung s \<subseteq> io_hung s'"
  by (cases rule: io_step.cases) (auto dest: loop_step_hung)

lemma atomic_exec:
  assumes "exec process_step q evs q'"
  shows "q = Alive s \<Longrightarrow> q' = Alive s' \<Longrightarrow> io_hung s' = {} \<Longrightarrow>
    exec pool_process_step (Serving \<lparr>po_io = s, po_calls = Map.empty\<rparr>) evs (Serving \<lparr>po_io = s', po_calls = Map.empty\<rparr>)"
  using assms
proof (induction arbitrary: s' rule: exec.induct)
  case (exec_nil q)
  then show ?case using exec.exec_nil by simp
next
  case (exec_snoc q es d fs q')
  from exec_snoc.hyps(2) exec_snoc.prems obtain s1 where d: "d = Alive s1" and step: "io_step s1 fs (Alive s')"
    by (auto elim: process_stepE)
  have hung: "io_hung s1 = {}" using io_step_hung[OF step] exec_snoc.prems(3) by simp
  let ?p = "\<lparr>po_io = s1, po_calls = Map.empty\<rparr>"
  have busy: "po_busy ?p = {}" by (simp add: po_busy_def hung)
  have run: "exec pool_process_step (Serving \<lparr>po_io = s, po_calls = Map.empty\<rparr>) es (Serving ?p)"
    by (rule exec_snoc.IH[OF exec_snoc.prems(1) d hung])
  have "exec pool_process_step (Serving ?p) fs (Serving \<lparr>po_io = s', po_calls = Map.empty\<rparr>)"
    using step
  proof cases
    case loop
    then have "thread_free ?p" by (simp add: thread_free_def busy io_running_def thread_count_def)
    from exec_pool_one[OF pool_step.loop[OF this]] loop busy show ?thesis by (simp add: hung)
  next
    case (received n ses peers data e up ses' st')
    then have "thread_free ?p" by (simp add: thread_free_def busy io_running_def thread_count_def)
    from received_run[OF this _ _ received(6-11)] received busy show ?thesis by simp
  qed (use exec_snoc.prems(3) in simp_all)
  from exec_append[OF this run] show ?case .
qed

section \<open>The order of responses\<close>

inductive patient_pool :: "server \<Rightarrow> log \<Rightarrow> nat \<Rightarrow> event list \<Rightarrow> pool \<Rightarrow> bool" for srv lg n where
  init: "patient_pool srv lg n [] (pool_init srv lg)"
| step: "patient_pool srv lg n evs p \<Longrightarrow> pool_step p fs (Serving p') \<Longrightarrow> starts_alone n (po_io p) fs \<Longrightarrow>
    patient_pool srv lg n (evs @ fs) p'"

lemma patient_pool_runs: "patient_pool srv lg n evs p \<Longrightarrow> pool_runs srv lg evs (Serving p)"
  by (induction rule: patient_pool.induct) (auto simp: pool_runs_def intro: exec_nil exec_pool)

lemma in_order_same:
  assumes "in_order c bs" "co_writes c' = co_writes c" "co_wire c' = co_wire c" "conn_alive c' = conn_alive c"
  shows "in_order c' bs"
  using assms by (simp add: in_order_def)

lemma in_order_write:
  "in_order c bs \<Longrightarrow> concat (co_writes c) = [] \<Longrightarrow> in_order (async_writes [b] c) (bs @ [b])"
  by (rule in_order_same[OF in_order_received[of c bs "[b]"]]) (simp_all add: conn_defs async_writes_def)

lemma stream_ok_keeps:
  assumes "stream_ok n bs s" "io_sessions s k = Some ses"
    and "co_writes (ses_connection ses') = co_writes (ses_connection ses)"
    and "co_wire (ses_connection ses') = co_wire (ses_connection ses)"
    and "conn_alive (ses_connection ses') = conn_alive (ses_connection ses)"
  shows "stream_ok n bs (set_session k ses' st s)"
  by (rule stream_ok_session[OF assms(1)]) (use assms in \<open>auto simp: stream_ok_def intro: in_order_same\<close>)

lemma stream_ok_hung: "stream_ok n bs (s\<lparr>io_hung := H\<rparr>) = stream_ok n bs s"
  by (simp add: stream_ok_def)

lemma pool_stream_step:
  assumes "pool_inv p" "stream_ok n bs (po_io p)" "pool_step p evs (Serving p')" "starts_alone n (po_io p) evs"
  shows "stream_ok n (answered n bs evs) (po_io p')"
  using assms(3)
proof cases
  case (loop s)
  with stream_ok_loop[OF assms(2) loop(3)] show ?thesis by simp
next
  case (response_written k rs r res_build ses c)
  obtain b where b: "c = async_writes [b] (ses_connection ses)" "evs = [Respond k b]"
    using response_written_framed[OF assms(1) response_written(3,5)] response_written(1) by auto
  have "in_order c (bs @ [b])" if "k = n"
    unfolding b(1) by (rule in_order_write) (use assms(2,4) response_written(4) that in \<open>simp_all add: b(2) starts_alone_def stream_ok_def\<close>)
  then show ?thesis
    using assms(2) b(2) response_written(2) by (cases "k = n") (auto intro!: stream_ok_session simp: stream_ok_def)
qed (use assms(2) in \<open>auto intro!: stream_ok_keeps
  simp: catch_thread_def Let_def stream_ok_hung end_read_def conn_defs wait_for_req_def\<close>)

lemma patient_pool_stream:
  assumes "new_server port conf lg0 = Inr srv" "config_ok conf"
  shows "patient_pool srv lg n evs p \<Longrightarrow> stream_ok n (answered n [] evs) (po_io p)"
proof (induction rule: patient_pool.induct)
  case init
  show ?case by (simp add: stream_ok_def pool_init_def io_init_def)
next
  case (step evs p fs p')
  have "pool_inv p" using pool_runs_inv[OF assms patient_pool_runs[OF step.hyps(1)]] by simp
  from pool_stream_step[OF this step.IH step.hyps(2,3)] show ?case by (simp add: answered_append)
qed

section \<open>An example\<close>

text \<open>The example server with one client, in whose first read a thread has just found a request.\<close>

definition example_call :: callback where
  "example_call = \<lparr>cb_requests = [parsed_request ''GET'' ''/echo/x'' ''HTTP/1.1'' [(''Host'', ''h'')] []], cb_task = None\<rparr>"

lemma example_read:
  assumes "new_server (port_argument 80) example_table_config [] = Inr srv"
  shows "\<exists>p ses. patient_pool srv [] 0 [Connect 0] p \<and> po_calls p = [0 \<mapsto> example_call] \<and>
    io_sessions (po_io p) = [0 \<mapsto> ses] \<and> co_open (ses_connection ses) \<and> co_writes (ses_connection ses) = [] \<and>
    (\<forall>e up req. table_answers e up req (po_shared p))"
proof -
  let ?s = "connected 0 (io_init srv [])" and ?ses = "session_start (new_session new_connection)"
  let ?p = "\<lparr>po_io = ?s, po_calls = Map.empty\<rparr>"
  let ?r = "parsed_request ''GET'' ''/echo/x'' ''HTTP/1.1'' [(''Host'', ''h'')] []"
  have running: "io_running (io_init srv [])" "io_running ?s"
    using first_connection(2)[OF assms, of 0 "[]"] first_connection(3)[OF assms, of "[]" 0] by (auto elim: io_step.cases)
  have phase: "ac_phase (io_acceptor (io_init srv [])) = Accepting"
    using new_server_acceptor[OF assms] by (auto simp: accept_defs)
  have free: "thread_free (pool_init srv [])" "thread_free ?p" "po_busy ?p = {}" "po_busy (pool_init srv []) = {}"
    using running by (simp_all add: thread_free_def pool_init_def po_busy_def io_running_def thread_count_def)
  have "loop_step {} (io_init srv []) [Connect 0] (Alive ?s)"
    unfolding connected_def by (rule loop_step.accepted[OF phase]) simp
  then have "pool_step (pool_init srv []) [Connect 0] (Serving ((pool_init srv [])\<lparr>po_io := ?s\<rparr>))"
    by (intro pool_step.loop[OF free(1)]) (simp_all add: free(4), simp add: pool_init_def)
  then have s1: "pool_step (pool_init srv []) [Connect 0] (Serving ?p)" by (simp add: pool_init_def)
  have run: "receive_loop (wire ''GET'' ''/echo/x'' ''HTTP/1.1'' [(''Host'', ''h'')] []) [] (ses_parser ?ses) (ses_request ?ses) =
      Some (Inr ([?r], new_parser, empty_request))"
    using receive_wire[OF wire_example(1-3) version_ok_1_1 wire_example(4,5)] by simp
  have len: "length (wire ''GET'' ''/echo/x'' ''HTTP/1.1'' [(''Host'', ''h'')] []) \<le> max_len"
    by (simp add: wire_def print_header_def max_len_def)
  let ?p1 = "set_call 0 (Some example_call) ((end_read ?ses)\<lparr>ses_parser := new_parser, ses_request := empty_request\<rparr>) (po_shared ?p) ?p"
  have s2: "pool_step ?p [] (Serving ?p1)"
    unfolding example_call_def by (rule pool_step.read_begins[OF free(2) _ _ _ wire_nonempty len run]) (simp_all add: free(3))
  have alone: "starts_alone 0 s [Connect 0]" "starts_alone 0 s []" for s by (simp_all add: starts_alone_def)
  have pat: "patient_pool srv [] 0 [Connect 0] ?p1"
    using patient_pool.step[OF patient_pool.step[OF patient_pool.init s1 alone(1)] s2 alone(2)] by simp
  have "table_answers e up req (po_shared ?p1)" for e up req
    using example_answers[OF assms] by (simp add: table_answers_def) (simp add: io_init_def)
  with pat show ?thesis by (intro exI[of _ ?p1] exI[of _ "(end_read ?ses)\<lparr>ses_parser := new_parser, ses_request := empty_request\<rparr>"]) simp
qed

text \<open>Its request is answered while the client waits.\<close>

lemma patient_silent:
  assumes "exec pool_process_step q es q'"
  shows "q = Serving p \<Longrightarrow> q' = Serving p' \<Longrightarrow> es = [] \<Longrightarrow> patient_pool srv lg n evs p \<Longrightarrow> patient_pool srv lg n evs p'"
  using assms
proof (induction arbitrary: p' rule: exec.induct)
  case (exec_snoc q es d fs q')
  then obtain p1 where "d = Serving p1" "pool_step p1 [] (Serving p')" by (auto elim: pool_process_stepE)
  with patient_pool.step[of srv lg n evs p1 "[]" p'] exec_snoc show ?case by (simp add: starts_alone_def)
qed simp

lemma example_answered:
  assumes "new_server (port_argument 80) example_table_config [] = Inr srv"
  shows "\<exists>p ses b. patient_pool srv [] 0 [Connect 0, Respond 0 b] p \<and> framed b \<and> io_sessions (po_io p) 0 = Some ses"
proof -
  obtain p ses where p: "patient_pool srv [] 0 [Connect 0] p" "po_calls p = [0 \<mapsto> example_call]"
    "io_sessions (po_io p) = [0 \<mapsto> ses]" "co_open (ses_connection ses)" "co_writes (ses_connection ses) = []"
    "\<forall>e up req. table_answers e up req (po_shared p)"
    using example_read[OF assms] by blast
  let ?r = "parsed_request ''GET'' ''/echo/x'' ''HTTP/1.1'' [(''Host'', ''h'')] []"
  have c: "po_calls p 0 = Some \<lparr>cb_requests = [?r], cb_task = None\<rparr>" "io_sessions (po_io p) 0 = Some ses"
    using p(2,3) by (simp_all add: example_call_def)
  obtain lg where s1: "pool_step p [] (Serving (set_call 0 (Some \<lparr>cb_requests = [], cb_task = Some (Arrived ?r)\<rparr>) ses
      ((po_shared p)\<lparr>sv_world := (sv_world (po_shared p))\<lparr>w_log := lg\<rparr>\<rparr>) p))" (is "pool_step p [] (Serving ?p1)")
    using request_starts[OF c p(4)] by blast
  have inv: "pool_inv ?p1"
    using pool_step_inv[OF _ s1] pool_runs_inv[OF assms example_config_ok patient_pool_runs[OF p(1)]] by simp
  obtain b st' where s2: "exec pool_process_step (Serving ?p1) []
      (Serving (set_call 0 (Some \<lparr>cb_requests = [], cb_task = Some (Answered ?r b)\<rparr>) ses st' ?p1))" and wf: "wf_response (get_response b)"
    using task_answers[OF inv, of 0 "[]" "Arrived ?r" ses plain_env quiet_upstream] example_ok(1,2) p(4,6) by auto
  let ?p2 = "set_call 0 (Some \<lparr>cb_requests = [], cb_task = Some (Answered ?r b)\<rparr>) ses st' p"
  have "exec pool_process_step (Serving p) [] (Serving ?p2)" using exec_append[OF s2 exec_pool_one[OF s1]] by simp
  from patient_silent[OF this refl refl refl p(1)] have pat: "patient_pool srv [] 0 [Connect 0] ?p2" .
  obtain bytes where s3: "pool_step ?p2 [Respond 0 bytes] (Serving (set_call 0 (Some \<lparr>cb_requests = [], cb_task = None\<rparr>)
      (ses\<lparr>ses_connection := async_writes [bytes] (ses_connection ses)\<rparr>) st' ?p2))" "framed bytes"
    using answer_written[OF _ _ wf, of ?p2 0 "[]" ?r ses] by auto
  have "starts_alone 0 (po_io ?p2) [Respond 0 bytes]" by (simp add: starts_alone_def p(5))
  from patient_pool.step[OF pat s3(1) this] s3(2) show ?thesis by fastforce
qed

section \<open>Properties\<close>





text \<open>The requests that a callback still has to answer.\<close>

definition pending :: "callback \<Rightarrow> request list" where
  "pending c = (case cb_task c of None \<Rightarrow> [] | Some t \<Rightarrow> [task_request t]) @ cb_requests c"







end
