(* ===== verification/Request_Grammar.thy ===== *)
theory Request_Grammar
  imports Request_Correct
begin

text \<open>
  The language of the request parser.  The grammar of a request is given as inductive relations
  between a text and what it means, continuation lines included; the requests that \<open>parse\<close> reports
  are exactly the meanings of the messages of that grammar.  One direction follows the text through
  the states of \<open>consume\<close>, the other is an invariant that says of every state what has been read.
\<close>

section \<open>The grammar\<close>

definition blank :: "char \<Rightarrow> bool" where
  "blank c \<longleftrightarrow> c = CHR '' '' \<or> c = TAB"

text \<open>The text of one header, without its last line end.  A continuation line opens with blanks,
  which are dropped; the rest of it is appended to the value.  The flag says whether continuation
  lines are allowed.\<close>

inductive header_text :: "bool \<Rightarrow> string \<Rightarrow> string \<Rightarrow> string \<Rightarrow> bool" where
  plain: "k \<noteq> [] \<Longrightarrow> list_all token_char k \<Longrightarrow> list_all text_char v \<Longrightarrow>
    header_text b k v (k @ '': '' @ v)"
| folded: "header_text True k v s \<Longrightarrow> ws \<noteq> [] \<Longrightarrow> list_all blank ws \<Longrightarrow> list_all text_char t \<Longrightarrow>
    t = [] \<or> \<not> blank (hd t) \<Longrightarrow> header_text True k (v @ t) (s @ CRLF @ ws @ t)"

text \<open>The header lines: the parser takes continuation lines only after the second header, because
  the map of headers is still empty while the first one is pending.\<close>

inductive header_lines :: "headers \<Rightarrow> string \<Rightarrow> bool" where
  none: "header_lines [] []"
| line: "header_lines hs s \<Longrightarrow> header_text (hs \<noteq> []) k v t \<Longrightarrow> header_lines (hs @ [(k, v)]) (s @ t @ CRLF)"

inductive_cases header_lines_snoc: "header_lines (hs @ [h]) s"

inductive request_message :: "request \<Rightarrow> string \<Rightarrow> bool" where
  message: "m \<noteq> [] \<Longrightarrow> list_all token_char m \<Longrightarrow> list_all uri_char u \<Longrightarrow> version_ok v \<Longrightarrow>
    header_lines hs s \<Longrightarrow> last_length 0 hs = Inr (int (length body)) \<Longrightarrow>
    request_message (parsed_request m u v hs body)
      (m @ '' '' @ u @ '' '' @ v @ CRLF @ s @ CRLF @ body)"

lemma header_text_key: "header_text b k v s \<Longrightarrow> k \<noteq> []"
  by (induction rule: header_text.induct) auto

lemma header_text_value: "header_text b k v s \<Longrightarrow> list_all text_char v"
  by (induction rule: header_text.induct) auto

lemma header_lines_keys: "header_lines hs s \<Longrightarrow> (k, v) \<in> set hs \<Longrightarrow> k \<noteq> []"
  by (induction rule: header_lines.induct) (auto dest: header_text_key)

section \<open>Filing headers\<close>

text \<open>The headers of the lines read are in the map, and the last \<open>Content-Length\<close> among them is
  in force.\<close>

definition stored :: "headers \<Rightarrow> request_parser \<Rightarrow> request \<Rightarrow> bool" where
  "stored hs p r \<longleftrightarrow> rq_headers r = insert_all hs [] \<and> last_length 0 hs = Inr (body_length p)"

text \<open>The last header read still waits in \<open>header_key\<close> and \<open>header_val\<close>.\<close>

definition pending :: "headers \<Rightarrow> request_parser \<Rightarrow> request \<Rightarrow> bool" where
  "pending hs p r \<longleftrightarrow>
     (if hs = [] then header_key p = [] \<and> header_val p = [] \<and> stored [] p r
      else (header_key p, header_val p) = last hs \<and> stored (butlast hs) p r)"

lemma last_length_snoc:
  "last_length n (hs @ [(k, v)]) =
     and_then (last_length n hs) (\<lambda>m. if k = ''Content-Length'' then stoi v else Inr m)"
proof (induction hs arbitrary: n)
  case Nil
  show ?case by (cases "stoi v") simp_all
next
  case (Cons h hs)
  obtain k' v' where "h = (k', v')" by (cases h)
  with Cons show ?case by (cases "stoi v'") simp_all
qed

lemma pending_snoc [simp]:
  "pending (hs @ [(k, v)]) p r \<longleftrightarrow> header_key p = k \<and> header_val p = v \<and> stored hs p r"
  by (simp add: pending_def)

lemma pending_Nil [simp]:
  "pending [] p r \<longleftrightarrow> header_key p = [] \<and> header_val p = [] \<and> rq_headers r = [] \<and> body_length p = 0"
  by (auto simp: pending_def stored_def)

lemma store_pending:
  assumes "header_lines hs s" "pending hs p r"
  shows "store_header p r = and_then (last_length 0 hs)
    (\<lambda>m. Inr (p\<lparr>body_length := m\<rparr>, r\<lparr>rq_headers := insert_all hs []\<rparr>))"
  using assms(1)
proof cases
  case none
  with assms(2) show ?thesis by (cases p; cases r) (simp add: store_header_def)
next
  case (line hs0 s0 k v t)
  with assms(2) have st: "stored hs0 p r" and kv: "header_key p = k" "header_val p = v" by simp_all
  have "k \<noteq> []" using line(4) by (rule header_text_key)
  with st kv show ?thesis unfolding line(1) last_length_snoc
    by (cases "stoi v"; cases p) (simp_all add: store_header_def stored_def Let_def)
qed

section \<open>Every message is reported\<close>

lemma blank_not_newline [char_facts]: "blank c \<Longrightarrow> c \<noteq> CR \<and> c \<noteq> LF"
  by (auto simp: blank_def)

lemma feed_blanks:
  "p_state p = header_lws \<Longrightarrow> list_all blank ws \<Longrightarrow> feed p r ws = Some (p, r)"
proof (induction ws)
  case (Cons c ws)
  then show ?case using blank_not_newline[of c] by (auto simp: consume_simps blank_def)
qed simp

lemma feed_continuation:
  assumes "p_state p = header_line_start" "rq_headers r \<noteq> []" "ws \<noteq> []" "list_all blank ws"
    and "list_all text_char t" "t = [] \<or> \<not> blank (hd t)"
  shows "feed p r (ws @ t @ CRLF) = Some (p\<lparr>header_val := header_val p @ t\<rparr>, r)"
proof -
  obtain w ws' where ws: "ws = w # ws'" "blank w" "list_all blank ws'"
    using assms(3,4) by (cases ws) auto
  let ?p = "p\<lparr>p_state := header_lws\<rparr>"
  have c: "consume p r w = Inr (indeterminate, ?p, r)"
    using assms(1,2) ws(2) by (auto simp: consume_simps blank_def)
  have "feed ?p r (t @ CRLF) = Some (p\<lparr>header_val := header_val p @ t\<rparr>, r)"
  proof (cases t)
    case Nil
    with assms(1) show ?thesis by (cases p) (simp add: consume_simps)
  next
    case (Cons c t')
    with assms(5,6) have "text_char c" "list_all text_char t'" "c \<noteq> CHR '' ''" "c \<noteq> TAB"
      by (auto simp: blank_def)
    with Cons assms(1) text_char_not_newline[of c] show ?thesis
      by (cases p) (simp add: feed_append feed_value consume_simps)
  qed
  with c ws(1,3) show ?thesis by (simp add: feed_append feed_blanks)
qed

lemma feed_header_text:
  "header_text b k v s \<Longrightarrow> p_state p = header_line_start \<Longrightarrow> store_header p r = Inr (p1, r1) \<Longrightarrow>
   b \<longrightarrow> rq_headers r1 \<noteq> [] \<Longrightarrow>
   feed p r (s @ CRLF) = Some (p1\<lparr>header_key := k, header_val := v\<rparr>, r1)"
proof (induction rule: header_text.induct)
  case (plain k v b)
  from feed_header[of p "(k, v)" r p1 r1] plain store_header_state[of p r p1 r1] show ?case
    by (cases p1) (simp add: header_ok_def print_header_def)
next
  case (folded k v s ws t)
  let ?q = "p1\<lparr>header_key := k, header_val := v\<rparr>"
  have "p_state ?q = header_line_start" using folded.prems store_header_state by simp
  from feed_continuation[OF this _ folded.hyps(2-5), of r1] folded.prems
  have "feed ?q r1 (ws @ t @ CRLF) = Some (?q\<lparr>header_val := v @ t\<rparr>, r1)" by simp
  moreover have "feed p r (s @ CRLF) = Some (?q, r1)" using folded.IH folded.prems by simp
  ultimately have "feed p r ((s @ CRLF) @ (ws @ t @ CRLF)) = Some (?q\<lparr>header_val := v @ t\<rparr>, r1)"
    unfolding feed_append[of p r "s @ CRLF"] by simp
  then show ?case by simp
qed

lemma insert_all_eq_Nil [simp]: "insert_all hs [] = [] \<longleftrightarrow> hs = []"
  by (cases hs rule: rev_cases) auto

lemma feed_header_lines:
  "header_lines hs s \<Longrightarrow> last_length 0 hs = Inr n \<Longrightarrow>
   p_state p = header_line_start \<Longrightarrow> pending [] p r \<Longrightarrow>
   \<exists>l k v. feed p r s = Some (p\<lparr>header_key := k, header_val := v, body_length := l\<rparr>,
       r\<lparr>rq_headers := insert_all (butlast hs) []\<rparr>) \<and>
     pending hs (p\<lparr>header_key := k, header_val := v, body_length := l\<rparr>)
       (r\<lparr>rq_headers := insert_all (butlast hs) []\<rparr>)"
proof (induction arbitrary: n rule: header_lines.induct)
  case none
  then show ?case by (cases p; cases r) simp
next
  case (line hs s k v t)
  obtain m where m: "last_length 0 hs = Inr m"
    using line.prems(1) unfolding last_length_snoc by (cases "last_length 0 hs") auto
  let ?r = "r\<lparr>rq_headers := insert_all (butlast hs) []\<rparr>" and ?r' = "r\<lparr>rq_headers := insert_all hs []\<rparr>"
  obtain l k' v' where f: "feed p r s = Some (p\<lparr>header_key := k', header_val := v', body_length := l\<rparr>, ?r)"
    and pend: "pending hs (p\<lparr>header_key := k', header_val := v', body_length := l\<rparr>) ?r"
    using line.IH[OF m line.prems(2,3)] by blast
  let ?p = "p\<lparr>header_key := k', header_val := v', body_length := l\<rparr>"
  have st: "store_header ?p ?r = Inr (p\<lparr>header_key := k', header_val := v', body_length := m\<rparr>, ?r')"
    using store_pending[OF line.hyps(1) pend] m by simp
  have "feed ?p ?r (t @ CRLF) = Some (p\<lparr>header_key := k, header_val := v, body_length := m\<rparr>, ?r')"
    using feed_header_text[OF line.hyps(2) _ st] line.prems(2) by simp
  with f have "feed p r (s @ t @ CRLF) = Some (p\<lparr>header_key := k, header_val := v, body_length := m\<rparr>, ?r')"
    unfolding feed_append[of p r s] by simp
  with m show ?case
    by (intro exI[of _ m] exI[of _ k] exI[of _ v]) (simp add: stored_def)
qed

lemma end_of_headers:
  assumes "header_lines hs s" "pending hs p r" "p_state p = header_line_start" "last_length 0 hs = Inr m"
  shows "m \<noteq> 0 \<Longrightarrow> feed p r CRLF =
      Some (p\<lparr>p_state := in_body, header_key := [], header_val := [], body_length := m\<rparr>,
            r\<lparr>rq_headers := insert_all hs []\<rparr>)"
    and "m = 0 \<Longrightarrow> parse p r (CRLF @ ys) =
      Inr ((good, 2, 0), p\<lparr>p_state := expecting_newline_3, header_key := [], header_val := [], body_length := 0\<rparr>,
           r\<lparr>rq_headers := insert_all hs [], rq_method := method_of (method_str p)\<rparr>)"
proof -
  have st: "store_header p r = Inr (p\<lparr>body_length := m\<rparr>, r\<lparr>rq_headers := insert_all hs []\<rparr>)"
    using store_pending[OF assms(1,2)] assms(4) by simp
  have "header_val p = []" if "header_key p = []"
    using assms(1) by cases (use assms(2) that header_text_key in auto)
  then have clear: "p\<lparr>body_length := m, p_state := st\<rparr> = p\<lparr>p_state := st, header_key := [], header_val := [], body_length := m\<rparr>"
    if "header_key p = []" for st
    using that by (cases p) simp
  show "feed p r CRLF =
      Some (p\<lparr>p_state := in_body, header_key := [], header_val := [], body_length := m\<rparr>,
            r\<lparr>rq_headers := insert_all hs []\<rparr>)" if "m \<noteq> 0"
    using that st assms(3) clear[of in_body] by (auto simp: consume_simps Let_def)
  show "parse p r (CRLF @ ys) =
      Inr ((good, 2, 0), p\<lparr>p_state := expecting_newline_3, header_key := [], header_val := [], body_length := 0\<rparr>,
           r\<lparr>rq_headers := insert_all hs [], rq_method := method_of (method_str p)\<rparr>)" if "m = 0"
    using that st assms(3) clear[of expecting_newline_3] by (auto simp: consume_simps Let_def)
qed

lemma message_reported:
  assumes "request_message r s"
  shows "\<exists>p. parse new_parser empty_request (s @ rest) = Inr ((good, length s, 0), p, r)"
  using assms
proof cases
  case (message m u v hs t body)
  let ?line = "m @ '' '' @ u @ '' '' @ v @ CRLF"
  let ?p = "new_parser\<lparr>p_state := header_line_start, method_str := m\<rparr>"
  let ?r = "empty_request\<lparr>rq_uri := u, rq_version := v\<rparr>"
  have start: "feed new_parser empty_request ?line = Some (?p, ?r)"
    by (rule feed_request_line[OF message(3-6)])
  have "pending [] ?p ?r" by (simp add: new_parser_def empty_request_def)
  from feed_header_lines[OF message(7,8) _ this] obtain l k w where
    f: "feed ?p ?r t = Some (?p\<lparr>header_key := k, header_val := w, body_length := l\<rparr>,
       ?r\<lparr>rq_headers := insert_all (butlast hs) []\<rparr>)"
    and pend: "pending hs (?p\<lparr>header_key := k, header_val := w, body_length := l\<rparr>)
       (?r\<lparr>rq_headers := insert_all (butlast hs) []\<rparr>)" by auto
  let ?q = "?p\<lparr>header_key := k, header_val := w, body_length := l\<rparr>"
  let ?r1 = "?r\<lparr>rq_headers := insert_all (butlast hs) []\<rparr>"
  have q: "p_state ?q = header_line_start" by simp
  have to_q: "feed new_parser empty_request (?line @ t) = Some (?q, ?r1)"
    unfolding feed_append[of new_parser empty_request ?line] start using f by simp
  note fin = end_of_headers[OF message(7) pend q message(8)]
  show ?thesis
  proof (cases "body = []")
    case True
    with parse_feed[OF to_q, of "CRLF @ rest"] fin(2)[of rest] show ?thesis
      unfolding message(1,2) by (simp add: parsed_request_def empty_request_def del: parse.simps)
  next
    case False
    let ?q' = "?q\<lparr>p_state := in_body, header_key := [], header_val := [], body_length := int (length body)\<rparr>"
    have "feed new_parser empty_request ((?line @ t) @ CRLF) = Some (?q', ?r1\<lparr>rq_headers := insert_all hs []\<rparr>)"
      unfolding feed_append[of new_parser empty_request "?line @ t"] to_q using fin(1) False by simp
    from parse_feed[OF this, of "body @ rest"] parse_body[of ?q' body _ rest] False show ?thesis
      unfolding message(1,2) by (simp add: parsed_request_def empty_request_def del: parse.simps)
  qed
qed

section \<open>Only messages are reported\<close>

text \<open>What has been read when the parser is in a given state, in terms of the fields it keeps.\<close>

definition request_line :: "request_parser \<Rightarrow> request \<Rightarrow> string" where
  "request_line p r = method_str p @ '' '' @ rq_uri r @ '' '' @ rq_version r @ CRLF"

text \<open>A header text that may go on with any characters of a value.\<close>

definition open_text :: "bool \<Rightarrow> string \<Rightarrow> string \<Rightarrow> string \<Rightarrow> bool" where
  "open_text b k v s \<longleftrightarrow> (\<forall>w. list_all text_char w \<longrightarrow> header_text b k (v @ w) (s @ w))"

fun read_at :: "parser_state \<Rightarrow> request_parser \<Rightarrow> request \<Rightarrow> string \<Rightarrow> bool" where
  "read_at method_start p r xs \<longleftrightarrow> xs = [] \<and> method_str p = [] \<and> rq_uri r = [] \<and> pending [] p r"
| "read_at in_method p r xs \<longleftrightarrow> xs = method_str p \<and> xs \<noteq> [] \<and> rq_uri r = [] \<and> pending [] p r"
| "read_at in_uri p r xs \<longleftrightarrow> xs = method_str p @ '' '' @ rq_uri r \<and> method_str p \<noteq> [] \<and> pending [] p r"
| "read_at expecting_newline_1 p r xs \<longleftrightarrow>
     xs @ [LF] = request_line p r \<and> method_str p \<noteq> [] \<and> pending [] p r"
| "read_at header_line_start p r xs \<longleftrightarrow> method_str p \<noteq> [] \<and>
     (\<exists>hs s. header_lines hs s \<and> pending hs p r \<and> xs = request_line p r @ s)"
| "read_at header_name p r xs \<longleftrightarrow> method_str p \<noteq> [] \<and>
     (\<exists>hs s. header_lines hs s \<and> stored hs p r \<and> header_key p \<noteq> [] \<and> header_val p = [] \<and>
        xs = request_line p r @ s @ header_key p)"
| "read_at space_before_header_value p r xs \<longleftrightarrow> method_str p \<noteq> [] \<and>
     (\<exists>hs s. header_lines hs s \<and> stored hs p r \<and> header_key p \<noteq> [] \<and> header_val p = [] \<and>
        xs = request_line p r @ s @ header_key p @ '':'')"
| "read_at header_value p r xs \<longleftrightarrow> method_str p \<noteq> [] \<and>
     (\<exists>hs s t. header_lines hs s \<and> stored hs p r \<and> open_text (hs \<noteq> []) (header_key p) (header_val p) t \<and>
        xs = request_line p r @ s @ t)"
| "read_at header_lws p r xs \<longleftrightarrow> method_str p \<noteq> [] \<and>
     (\<exists>hs s t ws. header_lines hs s \<and> stored hs p r \<and> hs \<noteq> [] \<and>
        header_text True (header_key p) (header_val p) t \<and> ws \<noteq> [] \<and> list_all blank ws \<and>
        xs = request_line p r @ s @ t @ CRLF @ ws)"
| "read_at expecting_newline_2 p r xs \<longleftrightarrow> method_str p \<noteq> [] \<and>
     (\<exists>hs s t. header_lines hs s \<and> stored hs p r \<and> header_text (hs \<noteq> []) (header_key p) (header_val p) t \<and>
        xs = request_line p r @ s @ t @ [CR])"
| "read_at expecting_newline_3 p r xs \<longleftrightarrow> method_str p \<noteq> [] \<and>
     (\<exists>hs s. header_lines hs s \<and> pending hs p r \<and> xs = request_line p r @ s @ [CR])"
| "read_at in_body p r xs \<longleftrightarrow> method_str p \<noteq> [] \<and>
     (\<exists>hs s. header_lines hs s \<and> rq_headers r = insert_all hs [] \<and>
        last_length 0 hs = Inr (body_length p + int (length (rq_body r))) \<and>
        xs = request_line p r @ s @ CRLF @ rq_body r)"
| "read_at _ p r xs \<longleftrightarrow>
     xs = method_str p @ '' '' @ rq_uri r @ '' '' @ rq_version r \<and> method_str p \<noteq> [] \<and> pending [] p r"

definition read_inv :: "request_parser \<Rightarrow> request \<Rightarrow> string \<Rightarrow> bool" where
  "read_inv p r xs \<longleftrightarrow> parser_inv p r \<and> read_at (p_state p) p r xs \<and> (p_state p \<noteq> in_body \<longrightarrow> rq_body r = [])"

lemma open_textI_plain:
  "k \<noteq> [] \<Longrightarrow> list_all token_char k \<Longrightarrow> open_text b k [] (k @ '': '')"
  using header_text.plain[of k _ b] by (auto simp: open_text_def)

lemma open_text_snoc: "open_text b k v s \<Longrightarrow> text_char c \<Longrightarrow> open_text b k (v @ [c]) (s @ [c])"
  by (simp add: open_text_def)

lemma open_text_closed: "open_text b k v s \<Longrightarrow> header_text b k v s"
  by (auto simp: open_text_def dest: spec[of _ "[]"])

lemma open_textI_folded:
  assumes "header_text True k v s" "ws \<noteq> []" "list_all blank ws" "text_char c" "\<not> blank c"
  shows "open_text True k (v @ [c]) (s @ CRLF @ ws @ [c])"
  unfolding open_text_def using header_text.folded[OF assms(1-3), of "c # _"] assms(4,5) by auto

lemma read_inv_initial: "read_inv new_parser empty_request []"
  by (simp add: read_inv_def parser_inv_initial) (simp add: new_parser_def empty_request_def)

lemma request_line_upd [simp]:
  "request_line (p\<lparr>p_state := st\<rparr>) r = request_line p r"
  "request_line (p\<lparr>header_key := k\<rparr>) r = request_line p r"
  "request_line (p\<lparr>header_val := v\<rparr>) r = request_line p r"
  "request_line (p\<lparr>body_length := n\<rparr>) r = request_line p r"
  "request_line p (r\<lparr>rq_headers := h\<rparr>) = request_line p r"
  "request_line p (r\<lparr>rq_body := b\<rparr>) = request_line p r"
  by (simp_all add: request_line_def)

lemma stored_upd [simp]:
  "stored hs (p\<lparr>p_state := st\<rparr>) r = stored hs p r"
  "stored hs (p\<lparr>header_key := k\<rparr>) r = stored hs p r"
  "stored hs (p\<lparr>header_val := v\<rparr>) r = stored hs p r"
  by (simp_all add: stored_def)

lemma pending_upd [simp]: "pending hs (p\<lparr>p_state := st\<rparr>) r = pending hs p r"
  by (simp add: pending_def)

text \<open>The request line.\<close>

lemma no_version_yet: "parser_inv p r \<Longrightarrow> p_state p = in_uri \<Longrightarrow> rq_version r = []"
  by (simp add: parser_inv_def)

lemma read_request_line:
  assumes "read_inv p r xs" "consume p r c = Inr (indeterminate, p', r')"
    and "p_state p \<in> {method_start, in_method, in_uri, http_version_h, http_version_t_1, http_version_t_2,
       http_version_p, http_version_slash, http_version_major_start, http_version_major,
       http_version_minor_start, http_version_minor}"
  shows "read_at (p_state p') p' r' (xs @ [c])"
  using assms no_version_yet[of p r]
  by (auto simp: read_inv_def consume_simps request_line_def split: if_splits)

lemma read_line_end:
  assumes "read_inv p r xs" "consume p r c = Inr (indeterminate, p', r')" "p_state p = expecting_newline_1"
  shows "read_at (p_state p') p' r' (xs @ [c])"
proof -
  have "pending [] p r" using assms(1,3) by (simp add: read_inv_def)
  with header_lines.none have "\<exists>hs. header_lines hs [] \<and> pending hs p r" by blast
  with assms show ?thesis by (auto simp: read_inv_def consume_simps split: if_splits)
qed

text \<open>Inside a header line.\<close>

lemma read_atI:
  "method_str p \<noteq> [] \<Longrightarrow> header_lines hs s \<Longrightarrow> stored hs p r \<Longrightarrow> header_key p \<noteq> [] \<Longrightarrow> header_val p = [] \<Longrightarrow>
   xs = request_line p r @ s @ header_key p \<Longrightarrow> read_at header_name p r xs"
  "method_str p \<noteq> [] \<Longrightarrow> header_lines hs s \<Longrightarrow> stored hs p r \<Longrightarrow> header_key p \<noteq> [] \<Longrightarrow> header_val p = [] \<Longrightarrow>
   xs = request_line p r @ s @ header_key p @ '':'' \<Longrightarrow> read_at space_before_header_value p r xs"
  "method_str p \<noteq> [] \<Longrightarrow> header_lines hs s \<Longrightarrow> stored hs p r \<Longrightarrow>
   open_text (hs \<noteq> []) (header_key p) (header_val p) t \<Longrightarrow>
   xs = request_line p r @ s @ t \<Longrightarrow> read_at header_value p r xs"
  "method_str p \<noteq> [] \<Longrightarrow> header_lines hs s \<Longrightarrow> stored hs p r \<Longrightarrow> hs \<noteq> [] \<Longrightarrow>
   header_text True (header_key p) (header_val p) t \<Longrightarrow> ws \<noteq> [] \<Longrightarrow> list_all blank ws \<Longrightarrow>
   xs = request_line p r @ s @ t @ CRLF @ ws \<Longrightarrow> read_at header_lws p r xs"
  "method_str p \<noteq> [] \<Longrightarrow> header_lines hs s \<Longrightarrow> stored hs p r \<Longrightarrow>
   header_text (hs \<noteq> []) (header_key p) (header_val p) t \<Longrightarrow>
   xs = request_line p r @ s @ t @ [CR] \<Longrightarrow> read_at expecting_newline_2 p r xs"
  "method_str p \<noteq> [] \<Longrightarrow> header_lines hs s \<Longrightarrow> pending hs p r \<Longrightarrow>
   xs = request_line p r @ s \<Longrightarrow> read_at header_line_start p r xs"
  "method_str p \<noteq> [] \<Longrightarrow> header_lines hs s \<Longrightarrow> pending hs p r \<Longrightarrow>
   xs = request_line p r @ s @ [CR] \<Longrightarrow> read_at expecting_newline_3 p r xs"
  unfolding read_at.simps by blast+

lemma read_header:
  assumes "read_inv p r xs" "consume p r c = Inr (indeterminate, p', r')"
    and "p_state p \<in> {header_name, space_before_header_value}"
  shows "read_at (p_state p') p' r' (xs @ [c])"
proof -
  obtain hs s t where h: "method_str p \<noteq> []" "header_lines hs s" "stored hs p r"
    "header_key p \<noteq> []" "header_val p = []" "xs = request_line p r @ s @ header_key p @ t"
    "t = (if p_state p = header_name then [] else '':'')"
    using assms(1,3) by (auto simp: read_inv_def)
  have key: "list_all token_char (header_key p)" using assms(1) by (simp add: read_inv_def parser_inv_def)
  show ?thesis
  proof (cases "p_state p = header_name")
    case True
    with assms(2) consider "c = CHR '':''" "p' = p\<lparr>p_state := space_before_header_value\<rparr>" "r' = r" |
      "p' = p\<lparr>header_key := header_key p @ [c]\<rparr>" "r' = r"
      by (auto simp: consume_simps split: if_splits)
    then show ?thesis
      by cases (use True h read_atI(1,2)[OF _ h(2)] in auto)
  next
    case False
    with assms(2,3) have "c = CHR '' ''" "p' = p\<lparr>p_state := header_value\<rparr>" "r' = r"
      by (auto simp: consume_simps split: if_splits)
    with False h read_atI(3)[of p' hs s r "header_key p @ '': ''"] open_textI_plain[OF h(4) key]
    show ?thesis by auto
  qed
qed

lemma read_value:
  assumes "read_inv p r xs" "consume p r c = Inr (indeterminate, p', r')" "p_state p = header_value"
  shows "read_at (p_state p') p' r' (xs @ [c])"
proof -
  obtain hs s t where h: "method_str p \<noteq> []" "header_lines hs s" "stored hs p r"
    and t: "open_text (hs \<noteq> []) (header_key p) (header_val p) t" and xs: "xs = request_line p r @ s @ t"
    using assms(1,3) by (auto simp: read_inv_def)
  from assms(2,3) consider "c = CR" "p' = p\<lparr>p_state := expecting_newline_2\<rparr>" "r' = r" |
    "text_char c" "p' = p\<lparr>header_val := header_val p @ [c]\<rparr>" "r' = r"
    by (auto simp: consume_simps split: if_splits)
  then show ?thesis
  proof cases
    case 1
    with h xs open_text_closed[OF t] read_atI(5)[of p' hs s r t] show ?thesis by simp
  next
    case 2
    with assms(3) h xs open_text_snoc[OF t 2(1)] read_atI(3)[of p' hs s r "t @ [c]"] show ?thesis by simp
  qed
qed

lemma read_blanks:
  assumes "read_inv p r xs" "consume p r c = Inr (indeterminate, p', r')" "p_state p = header_lws"
  shows "read_at (p_state p') p' r' (xs @ [c])"
proof -
  obtain hs s t ws where h: "method_str p \<noteq> []" "header_lines hs s" "stored hs p r" "hs \<noteq> []"
    and t: "header_text True (header_key p) (header_val p) t" "ws \<noteq> []" "list_all blank ws"
    and xs: "xs = request_line p r @ s @ t @ CRLF @ ws"
    using assms(1,3) by (auto simp: read_inv_def)
  from assms(2,3) consider "c = CR" "p' = p\<lparr>p_state := expecting_newline_2\<rparr>" "r' = r" |
    "blank c" "p' = p" "r' = r" |
    "\<not> blank c" "text_char c" "p' = p\<lparr>p_state := header_value, header_val := header_val p @ [c]\<rparr>" "r' = r"
    by (auto simp: consume_simps blank_def split: if_splits)
  then show ?thesis
  proof cases
    case 1
    with h xs header_text.folded[OF t, of "[]"] read_atI(5)[of p' hs s r "t @ CRLF @ ws"] show ?thesis by simp
  next
    case 2
    with h t xs assms(3) read_atI(4)[of p hs s r t "ws @ [c]"] show ?thesis by simp
  next
    case 3
    with h xs open_textI_folded[OF t 3(2,1)] read_atI(3)[of p' hs s r "t @ CRLF @ ws @ [c]"] show ?thesis by simp
  qed
qed

lemma read_header_end:
  assumes "read_inv p r xs" "consume p r c = Inr (indeterminate, p', r')" "p_state p = expecting_newline_2"
  shows "read_at (p_state p') p' r' (xs @ [c])"
proof -
  obtain hs s t where h: "method_str p \<noteq> []" "header_lines hs s" "stored hs p r"
    and t: "header_text (hs \<noteq> []) (header_key p) (header_val p) t" and xs: "xs = request_line p r @ s @ t @ [CR]"
    using assms(1,3) by (auto simp: read_inv_def)
  from assms(2,3) have "c = LF" "p' = p\<lparr>p_state := header_line_start\<rparr>" "r' = r"
    by (auto simp: consume_simps split: if_splits)
  with h xs read_atI(6)[OF _ header_lines.line[OF h(2) t], of p' r] show ?thesis by simp
qed

text \<open>Between header lines, where the pending header is filed.\<close>

lemma stored_pending:
  assumes "header_lines hs s" "pending hs p r" "store_header p r = Inr (p1, r1)"
  obtains m where "last_length 0 hs = Inr m" "p1 = p\<lparr>body_length := m\<rparr>" "r1 = r\<lparr>rq_headers := insert_all hs []\<rparr>"
  using store_pending[OF assms(1,2)] assms(3) by (cases "last_length 0 hs") auto

lemma read_line_start:
  assumes "read_inv p r xs" "consume p r c = Inr (indeterminate, p', r')" "p_state p = header_line_start"
  shows "read_at (p_state p') p' r' (xs @ [c])"
proof -
  obtain hs s where h: "method_str p \<noteq> []" "header_lines hs s" "pending hs p r" "xs = request_line p r @ s"
    using assms(1,3) by (auto simp: read_inv_def)
  from assms(2,3) consider "c = CR" "p' = p\<lparr>p_state := expecting_newline_3\<rparr>" "r' = r" |
    "rq_headers r \<noteq> []" "blank c" "p' = p\<lparr>p_state := header_lws\<rparr>" "r' = r" |
    p1 where "store_header p r = Inr (p1, r')" "p' = p1\<lparr>p_state := header_name, header_key := [c], header_val := []\<rparr>"
    by (auto simp: consume_simps blank_def split: if_splits)
  then show ?thesis
  proof cases
    case 1
    with h read_atI(7)[of p' hs s r] show ?thesis by simp
  next
    case 2
    from h(2) show ?thesis
    proof cases
      case none
      with 2(1) h(3) show ?thesis by simp
    next
      case (line hs0 s0 k v t)
      have st: "stored hs0 p r" "header_key p = k" "header_val p = v" using h(3) line(1) by simp_all
      with 2(1) have "hs0 \<noteq> []" by (auto simp: stored_def)
      with 2 st h line read_atI(4)[of p' hs0 s0 r t "[c]"] show ?thesis by simp
    qed
  next
    case 3
    obtain m where "last_length 0 hs = Inr m" "p1 = p\<lparr>body_length := m\<rparr>" "r' = r\<lparr>rq_headers := insert_all hs []\<rparr>"
      using stored_pending[OF h(2,3) 3(1)] .
    with 3(2) h read_atI(1)[of p' hs s r'] show ?thesis by (simp add: stored_def)
  qed
qed

text \<open>The last line end of the headers, and the body.\<close>

lemma read_headers_end:
  assumes "read_inv p r xs" "consume p r c = Inr (res, p', r')" "p_state p = expecting_newline_3" "res \<noteq> bad"
  obtains hs s m where "method_str p' = method_str p" "method_str p \<noteq> []" "header_lines hs s" "last_length 0 hs = Inr m"
    "xs @ [c] = request_line p r @ s @ CRLF" "body_length p' = m" "r' = r\<lparr>rq_headers := insert_all hs []\<rparr>"
    "res = good \<longleftrightarrow> m = 0" "m \<noteq> 0 \<longrightarrow> p_state p' = in_body"
proof -
  obtain hs s where h: "method_str p \<noteq> []" "header_lines hs s" "pending hs p r" "xs = request_line p r @ s @ [CR]"
    using assms(1,3) by (auto simp: read_inv_def)
  obtain p1 r1 where st: "store_header p r = Inr (p1, r1)"
    using assms(2,3) by (cases "store_header p r") (auto simp: consume_simps)
  obtain m where m: "last_length 0 hs = Inr m" "p1 = p\<lparr>body_length := m\<rparr>" "r1 = r\<lparr>rq_headers := insert_all hs []\<rparr>"
    using stored_pending[OF h(2,3) st] .
  show thesis
    by (rule that[of hs s m]) (use assms st h m in \<open>auto simp: consume_simps Let_def split: if_splits\<close>)
qed

lemma read_last_line:
  assumes "read_inv p r xs" "consume p r c = Inr (indeterminate, p', r')" "p_state p = expecting_newline_3"
  shows "read_at (p_state p') p' r' (xs @ [c])"
proof -
  have "rq_body r = []" using assms(1,3) by (simp add: read_inv_def)
  moreover obtain hs s m where "method_str p' = method_str p" "method_str p \<noteq> []" "header_lines hs s"
    "last_length 0 hs = Inr m" "xs @ [c] = request_line p r @ s @ CRLF" "body_length p' = m"
    "r' = r\<lparr>rq_headers := insert_all hs []\<rparr>" "indeterminate = good \<longleftrightarrow> m = 0" "m \<noteq> 0 \<longrightarrow> p_state p' = in_body"
    by (rule read_headers_end[OF assms]) simp
  ultimately show ?thesis by (auto simp: request_line_def)
qed

lemma read_body:
  assumes "read_inv p r xs" "consume p r c = Inr (res, p', r')" "p_state p = in_body"
  shows "read_at in_body p' r' (xs @ [c])" "p_state p' = in_body" "res = good \<longleftrightarrow> body_length p' = 0"
  using assms by (auto simp: read_inv_def consume_simps Let_def split: if_splits)

lemma body_untouched:
  "consume p r c = Inr (res, p', r') \<Longrightarrow> p_state p \<noteq> in_body \<Longrightarrow> rq_body r' = rq_body r"
  by (cases "p_state p") (auto simp: consume_simps store_header_def Let_def split: if_splits)

lemma read_inv_step:
  assumes "read_inv p r xs" "consume p r c = Inr (indeterminate, p', r')"
  shows "read_inv p' r' (xs @ [c])"
proof -
  have "read_at (p_state p') p' r' (xs @ [c])"
    using read_request_line[OF assms] read_line_end[OF assms] read_header[OF assms] read_value[OF assms]
      read_blanks[OF assms] read_header_end[OF assms] read_line_start[OF assms] read_last_line[OF assms]
      read_body(1,2)[OF assms]
    by (cases "p_state p") simp_all
  moreover have "p_state p' \<noteq> in_body \<longrightarrow> rq_body r' = []"
    using body_untouched[OF assms(2)] read_body(2)[OF assms] assms(1) by (auto simp: read_inv_def)
  ultimately show ?thesis
    using consume_inv[OF _ assms(2)] assms(1) by (simp add: read_inv_def)
qed

text \<open>Where \<open>consume\<close> says good, the text read is a message and the request its meaning.\<close>

lemma good_message:
  assumes "read_inv p r xs" "consume p r c = Inr (good, p', r')"
  shows "request_message (r'\<lparr>rq_method := method_of (method_str p')\<rparr>) (xs @ [c])"
proof -
  have inv: "parser_inv p' r'" using consume_inv[OF _ assms(2)] assms(1) by (simp add: read_inv_def)
  have fin: "p_state p' = expecting_newline_3 \<or> p_state p' = in_body" "body_length p' = 0"
    using consume_good[OF assms(2)] by auto
  have "p_state p = expecting_newline_3 \<or> p_state p = in_body"
    using assms(2) by (cases "p_state p") (auto simp: consume_simps split: if_splits)
  then obtain hs s where h: "method_str p' \<noteq> []" "header_lines hs s" "rq_headers r' = insert_all hs []"
    "last_length 0 hs = Inr (int (length (rq_body r')))" "xs @ [c] = request_line p' r' @ s @ CRLF @ rq_body r'"
  proof
    assume st: "p_state p = expecting_newline_3"
    then have "rq_body r = []" using assms(1) by (simp add: read_inv_def)
    then show thesis by - (rule read_headers_end[OF assms st], auto simp: request_line_def intro!: that)
  next
    assume "p_state p = in_body"
    from read_body(1)[OF assms this] fin(2) that show thesis by auto
  qed
  have "version_ok (rq_version r')" "list_all token_char (method_str p')" "list_all uri_char (rq_uri r')"
    using inv fin(1) by (auto simp: parser_inv_def)
  from message[OF h(1) this(2,3,1) h(2,4)] h(3,5) show ?thesis
    by (cases r') (simp add: request_line_def parsed_request_def)
qed

lemma reported_message:
  "read_inv p r xs \<Longrightarrow> parse p r cs = Inr ((good, n, bl), p', r') \<Longrightarrow>
   request_message r' (xs @ take n cs)"
proof (induction cs arbitrary: p r xs n bl)
  case (Cons c cs)
  then obtain res p1 r1 where c: "consume p r c = Inr (res, p1, r1)" by auto
  show ?case
  proof (cases res)
    case good
    with good_message[OF Cons.prems(1)] c Cons.prems(2) show ?thesis by (auto split: if_splits)
  next
    case bad
    with Cons.prems(2) c show ?thesis by (auto split: if_splits)
  next
    case indeterminate
    with Cons.prems(2) c obtain k where k: "parse p1 r1 cs = Inr ((good, k, bl), p', r')" "n = Suc k"
      by (auto split: prod.splits)
    from Cons.IH[OF read_inv_step[OF Cons.prems(1) c[unfolded indeterminate]] k(1)] k(2) show ?thesis by simp
  qed
qed simp

section \<open>The language of the parser\<close>

text \<open>C4: The requests the parser reports are exactly those the grammar gives: on a buffer \<open>cs\<close> a
  new parser reports the request \<open>r\<close> as good after \<open>n\<close> bytes if and only if the first \<open>n\<close> bytes are a
  message of the grammar (request line, header lines with continuation lines, an empty line and a
  body as long as the last Content-Length says) whose meaning is \<open>r\<close>.\<close>

theorem parse_accepts_exactly_the_messages:
  "(\<exists>bl p. parse new_parser empty_request cs = Inr ((good, n, bl), p, r)) \<longleftrightarrow>
   n \<le> length cs \<and> request_message r (take n cs)"
proof
  assume "\<exists>bl p. parse new_parser empty_request cs = Inr ((good, n, bl), p, r)"
  then show "n \<le> length cs \<and> request_message r (take n cs)"
    using reported_message[OF read_inv_initial] parse_consumed_bound by fastforce
next
  assume "n \<le> length cs \<and> request_message r (take n cs)"
  then show "\<exists>bl p. parse new_parser empty_request cs = Inr ((good, n, bl), p, r)"
    using message_reported[of r "take n cs" "drop n cs"] by auto
qed

text \<open>The grammar is unambiguous and no message is the beginning of another.\<close>

lemma message_unique:
  assumes "request_message r (take n cs)" "request_message r' (take k cs)" "n \<le> length cs" "k \<le> length cs"
  shows "n = k \<and> r = r'"
  using message_reported[OF assms(1), of "drop n cs"] message_reported[OF assms(2), of "drop k cs"] assms(3,4)
  by auto

lemma parse_bad_append:
  "parse p r cs = Inr ((bad, n, bl), q) \<Longrightarrow> parse p r (cs @ ys) = Inr ((bad, n, bl), q)"
proof (induction cs arbitrary: p r n)
  case (Cons c cs)
  then obtain res p1 r1 where c: "consume p r c = Inr (res, p1, r1)" by auto
  show ?case
  proof (cases res)
    case indeterminate
    with Cons.prems c obtain k where "parse p1 r1 cs = Inr ((bad, k, bl), q)" "n = Suc k"
      by (auto split: prod.splits)
    with Cons.IH[of p1 r1 k] c indeterminate show ?thesis by simp
  qed (use Cons.prems c in \<open>auto split: if_splits\<close>)
qed simp

text \<open>Input the parser reports as bad cannot be saved by what follows.\<close>

lemma bad_no_message:
  assumes "parse new_parser empty_request cs = Inr ((bad, n, bl), p, r)" "k \<le> length (cs @ ys)"
  shows "\<not> request_message r' (take k (cs @ ys))"
proof
  assume "request_message r' (take k (cs @ ys))"
  from message_reported[OF this, of "drop k (cs @ ys)"] assms(2)
  obtain q where "parse new_parser empty_request (cs @ ys) = Inr ((good, k, 0), q, r')"
    using append_take_drop_id[of k "cs @ ys"] by auto
  with parse_bad_append[OF assms(1), of ys] show False by simp
qed

end
