(* ===== verification/Session_Input.thy ===== *)
theory Session_Input
  imports Session_Correct Request_Grammar
begin

text \<open>
  What the receive loop of a session makes of input that is not a message: where the pointers it
  computes stay in the buffer, what a malformed request leads to, and what a negative
  Content-Length leads to.
\<close>

section \<open>Lengths without a sign\<close>

text \<open>A value that \<open>std::stoi\<close> does not read as negative: its first character that is not white
  space is not a minus sign.\<close>

definition unsigned_val :: "string \<Rightarrow> bool" where
  "unsigned_val s \<longleftrightarrow> take 1 (dropWhile is_space s) \<noteq> ''-''"

lemma stoi_unsigned: "unsigned_val s \<Longrightarrow> stoi s = Inr i \<Longrightarrow> 0 \<le> i"
  by (auto simp: unsigned_val_def stoi_def strtol_def Let_def split: list.splits if_splits)

lemma unsigned_val_Nil [simp]: "unsigned_val []"
  by (simp add: unsigned_val_def)

lemma unsigned_val_snoc:
  assumes "unsigned_val s" "list_all is_space s \<longrightarrow> c \<noteq> CHR ''-''"
  shows "unsigned_val (s @ [c])"
proof (cases "list_all is_space s")
  case True
  then have "dropWhile is_space (s @ [c]) = dropWhile is_space [c]" by (auto simp: list_all_iff)
  with True assms(2) show ?thesis by (simp add: unsigned_val_def)
next
  case False
  then obtain x where x: "x \<in> set s" "\<not> is_space x" by (auto simp: list_all_iff)
  then have "dropWhile is_space (s @ [c]) = dropWhile is_space s @ [c]" by (rule dropWhile_append1)
  moreover have "dropWhile is_space s \<noteq> []" using x by (auto simp: dropWhile_eq_Nil_conv)
  ultimately show ?thesis using assms(1) by (cases "dropWhile is_space s") (auto simp: unsigned_val_def)
qed

text \<open>No length so far was negative, nor is the value being read; once the parser is in the body its
  counter may be anything.\<close>

definition unsigned_parser :: "request_parser \<Rightarrow> bool" where
  "unsigned_parser p \<longleftrightarrow> unsigned_val (header_val p) \<and> (p_state p \<noteq> in_body \<longrightarrow> 0 \<le> body_length p)"

text \<open>The states in which a minus sign would become the first character of a value; they are
  reached by a blank only.\<close>

definition at_sign :: "request_parser \<Rightarrow> bool" where
  "at_sign p \<longleftrightarrow> p_state p = header_lws \<or> p_state p = header_value \<and> list_all is_space (header_val p)"

lemma at_sign_blank:
  assumes "consume p r c = Inr (indeterminate, p', r')" "at_sign p'"
  shows "blank c"
proof -
  have sp: "is_space c \<Longrightarrow> text_char c \<Longrightarrow> blank c" for c
    by (auto simp: is_space_def text_char_def is_ctl_def schar_def blank_def)
  from assms show ?thesis
    by (cases "p_state p")
      (auto simp: consume_simps at_sign_def Let_def blank_def dest: sp[unfolded blank_def] split: if_splits)
qed

text \<open>Input in which no minus sign follows a blank, and which does not begin with one.\<close>

fun no_sign_after :: "bool \<Rightarrow> string \<Rightarrow> bool" where
  "no_sign_after b [] = True"
| "no_sign_after b (c # cs) \<longleftrightarrow> (b \<longrightarrow> c \<noteq> CHR ''-'') \<and> no_sign_after (blank c) cs"

lemma no_sign_after_weaken: "no_sign_after b cs \<Longrightarrow> no_sign_after False cs"
  by (cases cs) simp_all

lemma no_sign_after_drop: "no_sign_after b cs \<Longrightarrow> no_sign_after False (drop n cs)"
  by (induction cs arbitrary: b n) (auto simp: drop_Cons no_sign_after_weaken split: nat.splits)


lemma store_header_unsigned:
  "store_header p r = Inr (p', r') \<Longrightarrow> unsigned_val (header_val p) \<Longrightarrow> 0 \<le> body_length p \<Longrightarrow> 0 \<le> body_length p'"
  by (auto simp: store_header_def Let_def stoi_unsigned split: if_splits)

lemma consume_unsigned_header:
  assumes "unsigned_parser p" "consume p r c = Inr (res, p', r')"
    "p_state p = header_line_start \<or> p_state p = expecting_newline_3"
  shows "unsigned_parser p' \<and> 0 \<le> body_length p'"
proof (cases "store_header p r")
  case (Inl e)
  with assms show ?thesis by (auto simp: consume_def unsigned_parser_def split: if_splits)
next
  case (Inr q)
  obtain p1 r1 where s: "store_header p r = Inr (p1, r1)" using Inr by (cases q) simp
  have p1: "unsigned_val (header_val p1)" "0 \<le> body_length p1" "p_state p1 = p_state p"
    using store_header_state[OF s] store_header_unsigned[OF s] assms(1,3) by (auto simp: unsigned_parser_def)
  from assms(3) show ?thesis
  proof
    assume "p_state p = header_line_start"
    with assms(1,2) s p1 show ?thesis by (auto simp: consume_def unsigned_parser_def split: if_splits)
  next
    assume "p_state p = expecting_newline_3"
    with assms(1,2) s p1 show ?thesis by (auto simp: consume_def unsigned_parser_def Let_def split: if_splits)
  qed
qed

lemma consume_unsigned:
  assumes "unsigned_parser p" "at_sign p \<longrightarrow> c \<noteq> CHR ''-''" "consume p r c = Inr (res, p', r')"
  shows "unsigned_parser p'" and "res = bad \<Longrightarrow> 0 \<le> body_length p'" and "res = good \<Longrightarrow> body_length p' = 0"
proof -
  have "unsigned_parser p' \<and> (res = bad \<longrightarrow> 0 \<le> body_length p')"
  proof (cases "p_state p = header_line_start \<or> p_state p = expecting_newline_3")
    case True
    with consume_unsigned_header[OF assms(1,3)] show ?thesis by blast
  next
    case False
    with assms show ?thesis
      by (cases "p_state p") (auto simp: consume_def expect_char_def unsigned_parser_def at_sign_def Let_def
          intro: unsigned_val_snoc split: if_splits)
  qed
  then show "unsigned_parser p'" "res = bad \<Longrightarrow> 0 \<le> body_length p'" by auto
  show "res = good \<Longrightarrow> body_length p' = 0" using consume_good assms(3) by blast
qed

lemma parse_unsigned:
  "unsigned_parser p \<Longrightarrow> no_sign_after (at_sign p) cs \<Longrightarrow> parse p r cs = Inr ((rt, n, bl), p', r') \<Longrightarrow>
   unsigned_parser p' \<and> (rt \<noteq> indeterminate \<longrightarrow> 0 \<le> bl \<and> int n + bl \<le> int (length cs))"
proof (induction cs arbitrary: p r n)
  case (Cons c cs)
  then obtain res p1 r1 where c: "consume p r c = Inr (res, p1, r1)" by auto
  have u: "unsigned_parser p1" "res = bad \<Longrightarrow> 0 \<le> body_length p1" "res = good \<Longrightarrow> body_length p1 = 0"
    using consume_unsigned[OF Cons.prems(1) _ c] Cons.prems(2) by auto
  show ?case
  proof (cases res)
    case indeterminate
    with Cons.prems(3) c obtain k where k: "parse p1 r1 cs = Inr ((rt, k, bl), p', r')" "n = Suc k"
      by (auto split: prod.splits)
    have "no_sign_after (at_sign p1) cs"
      using at_sign_blank[OF c[unfolded indeterminate]] Cons.prems(2) no_sign_after_weaken[of "blank c" cs]
      by (cases "at_sign p1") auto
    with Cons.IH[OF u(1) _ k(1)] k(2) show ?thesis by auto
  qed (use Cons.prems(3) c u in \<open>auto split: if_splits\<close>)
qed (simp add: unsigned_parser_def)

lemma consume_no_buffer_error: "consume p r c \<noteq> Inl UB_buffer"
proof -
  have "store_header p r \<noteq> Inl UB_buffer"
    by (auto simp: store_header_def stoi_def Let_def split: option.splits)
  then show ?thesis
    by (cases "p_state p"; cases "store_header p r") (auto simp: consume_def Let_def)
qed

lemma parse_no_buffer_error: "parse p r cs \<noteq> Inl UB_buffer"
proof (induction cs arbitrary: p r)
  case (Cons c cs)
  with consume_no_buffer_error[of p r c] show ?case
    by (auto simp: and_then_def split: sum.splits if_splits)
qed simp

text \<open>One turn of the loop.\<close>

definition stays_unsigned :: "(request list \<times> request_parser \<times> request) result \<Rightarrow> bool" where
  "stays_unsigned x \<longleftrightarrow> x \<noteq> Inl UB_buffer \<and> (\<forall>reqs' p' r'. x = Inr (reqs', p', r') \<longrightarrow> unsigned_parser p')"

lemma stays_unsigned_simps [simp]:
  "stays_unsigned (Inl e) \<longleftrightarrow> e \<noteq> UB_buffer"
  "stays_unsigned (Inr (reqs, p, r)) \<longleftrightarrow> unsigned_parser p"
  by (auto simp: stays_unsigned_def)

lemma receive_unsigned:
  assumes dash: "no_sign_after True data" and result: "receive_loop data reqs p r = Some x"
  shows "unsigned_parser p \<longrightarrow> stays_unsigned x"
proof -
  have fresh: "unsigned_parser new_parser" "\<not> at_sign new_parser"
    by (simp_all add: unsigned_parser_def at_sign_def new_parser_def)
  have nosign: "no_sign_after b data" for b using dash no_sign_after_weaken[OF dash] by (cases b) simp_all
  have "data = data \<longrightarrow> unsigned_parser p \<longrightarrow> stays_unsigned x"
  proof (rule receive_loop.raw_induct[OF _ result, where P = "\<lambda>data' reqs p r x. data' = data \<longrightarrow>
      unsigned_parser p \<longrightarrow> stays_unsigned x"], intro impI, goal_cases)
    case (1 f data' reqs p r x)
    have IH: "stays_unsigned x" if "f data reqs' p' r' = Some x" "unsigned_parser p'" for reqs' p' r'
      using 1(1)[OF that(1)] that(2) by simp
    note eq = 1(2)[unfolded 1(3)]
    consider e where "parse p r data = Inl e" | rt n bl p1 r1 where "parse p r data = Inr ((rt, n, bl), p1, r1)"
      by (cases "parse p r data") auto
    then show ?case
    proof cases
      case 1
      with eq parse_no_buffer_error[of p r data] show ?thesis by auto
    next
      case 2
      have u1: "unsigned_parser p1" "rt \<noteq> indeterminate \<longrightarrow> 0 \<le> bl \<and> int n + bl \<le> int (length data)"
        using parse_unsigned[OF \<open>unsigned_parser p\<close> nosign 2] by auto
      show ?thesis
      proof (cases "rt = indeterminate")
        case True
        have turn: "(if int n + bl < int (length data) then f data reqs p1 r1 else Some (Inr (reqs, p1, r1))) = Some x"
          using eq unfolding 2 sum.case prod.case True by simp
        show ?thesis
        proof (cases "int n + bl < int (length data)")
          case True
          with turn have "f data reqs p1 r1 = Some x" by simp
          with IH u1(1) show ?thesis by blast
        next
          case False
          with turn have "x = Inr (reqs, p1, r1)" by simp
          with u1(1) show ?thesis by simp
        qed
      next
        case False
        let ?rest = "drop (nat (int n + bl)) data"
        have rest: "no_sign_after (at_sign new_parser) ?rest" using no_sign_after_drop[OF dash] fresh(2) by simp
        have inside: "(int n + bl < 0 \<or> int n + bl > int (length data)) = False" "(rt \<noteq> indeterminate) = True"
          using u1(2) False by auto
        have turn: "(case parse new_parser empty_request ?rest of Inl err \<Rightarrow> Some (Inl err)
            | Inr ((rt2, n2, bl2), p2, req2) \<Rightarrow> if int n + bl + int n2 + bl2 < int (length data)
                then f data (reqs @ [r1]) p2 req2 else Some (Inr (reqs @ [r1], p2, req2))) = Some x"
          using eq unfolding 2 sum.case prod.case inside if_True if_False reset_new .
        consider e where "parse new_parser empty_request ?rest = Inl e" |
          rt2 n2 bl2 p2 r2 where "parse new_parser empty_request ?rest = Inr ((rt2, n2, bl2), p2, r2)"
          by (cases "parse new_parser empty_request ?rest") auto
        then show ?thesis
        proof cases
          case 1
          with parse_no_buffer_error[of new_parser empty_request ?rest] have "e \<noteq> UB_buffer" by auto
          with turn show ?thesis unfolding 1 by auto
        next
          case (2 rt2 n2 bl2 p2 r2)
          have u2: "unsigned_parser p2" using parse_unsigned[OF fresh(1) rest 2] by simp
          note turn2 = turn[unfolded 2 sum.case prod.case]
          show ?thesis
          proof (cases "int n + bl + int n2 + bl2 < int (length data)")
            case True
            with turn2 have "f data (reqs @ [r1]) p2 r2 = Some x" by simp
            with IH u2 show ?thesis by blast
          next
            case False
            with turn2 have "x = Inr (reqs @ [r1], p2, r2)" by simp
            with u2 show ?thesis by simp
          qed
        qed
      qed
    qed
  qed
  then show ?thesis by simp
qed

text \<open>C20: As long as the client sends no minus sign at the beginning of a read or after a blank, the
  receive loop stays inside its buffer, whatever else it is sent and in whatever state the session is:
  every pointer from which it parses again, \<open>body_start + body_len\<close>, lies between the beginning and the end of
  the bytes read, and the parser it leaves for the next read has read no negative length.\<close>

theorem receive_stays_in_buffer:
  assumes "no_sign_after True data" "unsigned_parser p"
  shows "receive_loop data reqs p r \<noteq> Some (Inl UB_buffer) \<and>
    (\<forall>reqs' p' r'. receive_loop data reqs p r = Some (Inr (reqs', p', r')) \<longrightarrow> unsigned_parser p')"
  using receive_unsigned[OF assms(1), of reqs p r] assms(2) by (auto simp: stays_unsigned_def)

theorem receive_stays_in_buffer_witness:
  "receive_loop (''GET / HTTP/1.1'' @ CRLF @ ''Content-Length: 4096'' @ CRLF @ ''X('') [] new_parser empty_request \<noteq>
     Some (Inl UB_buffer)"
proof -
  have "no_sign_after True (''GET / HTTP/1.1'' @ CRLF @ ''Content-Length: 4096'' @ CRLF @ ''X('')"
    "unsigned_parser new_parser"
    by (simp_all add: unsigned_parser_def new_parser_def blank_def)
  from receive_stays_in_buffer[OF this] show ?thesis by blast
qed

section \<open>A negative Content-Length\<close>

text \<open>With the counter below zero every turn of the loop appends the whole buffer to the body
  again, until the counter overflows.\<close>

lemma parse_overflows:
  assumes "p_state p = in_body" "body_length p < 0" "INT_MIN \<le> body_length p"
    and "body_length p < INT_MIN + int (length data)"
  shows "parse p r data = Inl UB_overflow"
proof -
  let ?k = "nat (body_length p - INT_MIN)"
  have k: "?k < length data" using assms(3,4) by linarith
  have data: "data = take ?k data @ data ! ?k # drop (Suc ?k) data" by (rule id_take_nth_drop[OF k])
  have len: "int (length (take ?k data)) = body_length p - INT_MIN" using k assms(3) by simp
  have "feed p r (take ?k data) = Some (p\<lparr>body_length := INT_MIN\<rparr>, r\<lparr>rq_body := rq_body r @ take ?k data\<rparr>)"
    using feed_body[OF assms(1), of "take ?k data" r] assms(2) unfolding len by simp
  from parse_feed[OF this, of "data ! ?k # drop (Suc ?k) data"] assms(1) show ?thesis
    unfolding data[symmetric] by (simp add: consume_def)
qed

lemma receive_overflows:
  assumes "data \<noteq> []"
  shows "p_state p = in_body \<Longrightarrow> body_length p < 0 \<Longrightarrow> INT_MIN \<le> body_length p \<Longrightarrow>
    receive_loop data reqs p r = Some (Inl UB_overflow)"
proof (induction "nat (body_length p - INT_MIN)" arbitrary: p r rule: less_induct)
  case less
  show ?case
  proof (cases "body_length p < INT_MIN + int (length data)")
    case True
    with parse_overflows[OF less.prems] show ?thesis by (subst receive_loop.simps) simp
  next
    case False
    let ?p = "p\<lparr>body_length := body_length p - int (length data)\<rparr>"
    have len: "0 < length data" using assms by simp
    have f: "feed p r data = Some (?p, r\<lparr>rq_body := rq_body r @ data\<rparr>)"
      using False less.prems by (intro feed_body) auto
    have "receive_loop data reqs ?p (r\<lparr>rq_body := rq_body r @ data\<rparr>) = Some (Inl UB_overflow)"
      by (rule less.hyps) (use len less.prems False in linarith | use len less.prems False in simp)+
    with parse_fed_all[OF f] less.prems(2) show ?thesis by (subst receive_loop.simps) simp
  qed
qed

lemma last_length_in_int: "last_length n hs = Inr m \<Longrightarrow> in_int n \<Longrightarrow> in_int m"
proof (induction n hs rule: last_length.induct)
  case (2 n k v hs)
  then show ?case using stoi_in_int[of v] by (auto split: if_splits)
qed simp

lemma negative_length_loop:
  assumes "m \<noteq> []" "list_all token_char m" "list_all uri_char u" "version_ok v"
    and "list_all header_ok hs" "last_length 0 hs = Inr n" "n < 0"
  shows "receive_loop (wire m u v hs body) reqs new_parser empty_request = Some (Inl UB_overflow)"
proof -
  let ?p = "new_parser\<lparr>p_state := in_body, method_str := m, body_length := n\<rparr>"
  let ?r = "empty_request\<lparr>rq_uri := u, rq_version := v, rq_headers := insert_all hs []\<rparr>"
  have data: "wire m u v hs body = wire m u v hs [] @ body" by (simp add: wire_def)
  have f: "feed new_parser empty_request (wire m u v hs []) = Some (?p, ?r)"
    by (rule feed_to_body) (use assms in auto)
  have n: "INT_MIN \<le> n" using last_length_in_int[OF assms(6)] by (simp add: in_int_def INT_MIN_def INT_MAX_def)
  show ?thesis
  proof (cases "n < INT_MIN + int (length body)")
    case True
    then have "parse new_parser empty_request (wire m u v hs body) = Inl UB_overflow"
      unfolding data using parse_feed[OF f, of body] parse_overflows[of ?p body ?r] assms(7) n by simp
    then show ?thesis by (subst receive_loop.simps) simp
  next
    case False
    let ?q = "?p\<lparr>body_length := n - int (length body)\<rparr>"
    have "feed ?p ?r body = Some (?q, ?r\<lparr>rq_body := rq_body ?r @ body\<rparr>)"
      using feed_body[of ?p body ?r] assms(7) False by simp
    with f have all: "feed new_parser empty_request (wire m u v hs body) = Some (?q, ?r\<lparr>rq_body := rq_body ?r @ body\<rparr>)"
      unfolding data by (simp add: feed_append)
    have "receive_loop (wire m u v hs body) reqs ?q (?r\<lparr>rq_body := rq_body ?r @ body\<rparr>) = Some (Inl UB_overflow)"
      by (rule receive_overflows) (use assms(7) False wire_nonempty in auto)
    with parse_fed_all[OF all] assms(7) show ?thesis by (subst receive_loop.simps) simp
  qed
qed

text \<open>C28: A request with a negative Content-Length never comes to rest: the receive loop parses
  the bytes of that one read over and over, appending them to the body, until the signed counter
  overflows after 2 GiB, whatever the rest of the read holds.\<close>

theorem negative_length_overflows:
  assumes "m \<noteq> []" "list_all token_char m" "list_all uri_char u" "version_ok v"
    and "list_all header_ok hs" "last_length 0 hs = Inr n" "n < 0"
  shows "receive_loop (wire m u v hs body) reqs new_parser empty_request = Some (Inl UB_overflow)"
  using assms by (rule negative_length_loop)

theorem negative_length_overflows_witness:
  "last_length 0 [(''Content-Length'', ''-1'')] = Inr (- 1) \<and>
   receive_loop (wire ''GET'' ''/'' ''HTTP/1.1'' [(''Content-Length'', ''-1'')] ''xyz'') [] new_parser empty_request =
     Some (Inl UB_overflow)"
proof -
  have h: "(''GET'' :: string) \<noteq> []" "list_all token_char ''GET''" "list_all uri_char ''/''"
    "list_all header_ok [(''Content-Length'', ''-1'')]"
    "last_length 0 [(''Content-Length'', ''-1'')] = Inr (- 1)" "(- 1 :: int) < 0"
    by (simp, code_simp+)
  from h(5) negative_length_overflows[OF h(1-3) version_ok_1_1 h(4-6)] show ?thesis by simp
qed

lemma parse_bad_name:
  assumes line: "m \<noteq> []" "list_all token_char m" "list_all uri_char u" "version_ok v"
    and hs: "list_all header_ok hs" "last_length 0 hs = Inr n" "n \<le> 0"
    and c: "token_char c" "\<not> token_char d" "d \<noteq> CHR '':''"
  shows "\<exists>p r. parse new_parser empty_request (m @ '' '' @ u @ '' '' @ v @ CRLF @ concat (map print_header hs) @ [c, d]) =
    Inr ((bad, length (m @ '' '' @ u @ '' '' @ v @ CRLF @ concat (map print_header hs) @ [c, d]), n), p, r)"
proof -
  let ?line = "m @ '' '' @ u @ '' '' @ v @ CRLF" and ?hs = "concat (map print_header hs)"
  let ?p = "new_parser\<lparr>p_state := header_line_start, method_str := m\<rparr>"
  let ?r = "empty_request\<lparr>rq_uri := u, rq_version := v\<rparr>"
  have p: "p_state ?p = header_line_start" "header_key ?p = []" "last_length (body_length ?p) hs = Inr n"
    using hs(2) by (simp_all add: new_parser_def)
  obtain k w where all: "store_all ?p ?r hs = Inr (?p\<lparr>header_key := k, header_val := w, body_length := n\<rparr>,
      ?r\<lparr>rq_headers := insert_all hs (rq_headers ?r)\<rparr>)"
    using store_all_fresh(2)[OF p(2) hs(1) p(3), of ?r] by blast
  obtain q r where f: "feed ?p ?r ?hs = Some (q, r)" and q: "p_state q = header_line_start"
    and st: "store_header q r = Inr (?p\<lparr>header_key := k, header_val := w, body_length := n\<rparr>,
      ?r\<lparr>rq_headers := insert_all hs (rq_headers ?r)\<rparr>)"
    using feed_headers[OF p(1) hs(1) all] by blast
  have "feed new_parser empty_request (?line @ ?hs) = Some (q, r)"
    unfolding feed_append[of new_parser empty_request ?line] feed_request_line[OF line] using f by simp
  moreover have "feed q r [c] = Some (?p\<lparr>p_state := header_name, header_key := [c], header_val := [], body_length := n\<rparr>,
      ?r\<lparr>rq_headers := insert_all hs (rq_headers ?r)\<rparr>)"
    using q st c(1) token_char_not_special[OF c(1)] by (simp add: consume_simps)
  ultimately have all: "feed new_parser empty_request ((?line @ ?hs) @ [c]) =
      Some (?p\<lparr>p_state := header_name, header_key := [c], header_val := [], body_length := n\<rparr>,
      ?r\<lparr>rq_headers := insert_all hs (rq_headers ?r)\<rparr>)"
    by (simp only: feed_append bind.bind_lunit prod.case)
  have "\<not> is_char (schar d) \<or> is_ctl (schar d) \<or> is_tspecial (schar d)"
    using c(2) unfolding token_char_def by blast
  with parse_feed[OF all, of "[d]"] c(3) hs(3) show ?thesis by (simp add: consume_def)
qed

text \<open>C29: A negative Content-Length followed by a malformed header name makes the session read
  before its buffer: the verdict bad comes with the negative length, and \<open>body_start + body_len\<close>, where
  the next parse begins, lies before \<open>data_\<close> as soon as the length exceeds what was read.\<close>

theorem negative_length_leaves_buffer:
  assumes "m \<noteq> []" "list_all token_char m" "list_all uri_char u" "version_ok v"
    and "list_all header_ok hs" "last_length 0 hs = Inr n" "n + int (length data) < 0"
    and "token_char c" "\<not> token_char d" "d \<noteq> CHR '':''"
    and "data = m @ '' '' @ u @ '' '' @ v @ CRLF @ concat (map print_header hs) @ [c, d]"
  shows "receive_loop data reqs new_parser empty_request = Some (Inl UB_buffer)"
proof -
  have "n \<le> 0" using assms(7) by linarith
  from parse_bad_name[OF assms(1-6) this assms(8-10)] obtain p r where
    "parse new_parser empty_request data = Inr ((bad, length data, n), p, r)" unfolding assms(11) by blast
  with assms(7) show ?thesis by (subst receive_loop.simps) simp
qed

theorem negative_length_leaves_buffer_witness:
  "receive_loop (''GET / HTTP/1.1'' @ CRLF @ ''Content-Length: -4096'' @ CRLF @ ''X('') [] new_parser empty_request =
     Some (Inl UB_buffer)"
proof (rule negative_length_leaves_buffer)
  show "(''GET'' :: string) \<noteq> []" by simp
  show "list_all token_char ''GET''" "list_all uri_char ''/''" "list_all header_ok [(''Content-Length'', ''-4096'')]"
    "last_length 0 [(''Content-Length'', ''-4096'')] = Inr (- 4096)" "token_char CHR ''X''" "\<not> token_char CHR ''(''"
    by code_simp+
  show "version_ok ''HTTP/1.1''" by (rule version_ok_1_1)
qed (simp_all add: print_header_def)

section \<open>Malformed requests\<close>

lemma receive_verdict:
  assumes "parse p r data = Inr ((rt, length data, 0), p1, r1)" "rt \<noteq> indeterminate"
  shows "receive_loop data reqs p r = Some (Inr (reqs @ [r1], new_parser, empty_request))"
  using assms by (subst receive_loop.simps) (simp add: new_parser_def)

lemma parse_bad_version:
  assumes "m \<noteq> []" "list_all token_char m" "list_all uri_char u" "c \<noteq> CHR ''H''"
  shows "parse new_parser empty_request (m @ '' '' @ u @ '' '' @ [c]) =
    Inr ((bad, length (m @ '' '' @ u @ '' '' @ [c]), 0), new_parser\<lparr>p_state := http_version_h, method_str := m\<rparr>,
         empty_request\<lparr>rq_method := method_of m, rq_uri := u\<rparr>)"
proof -
  let ?p = "new_parser\<lparr>p_state := in_uri, method_str := m\<rparr>"
  have "feed ?p empty_request (u @ '' '') = Some (?p\<lparr>p_state := http_version_h\<rparr>, empty_request\<lparr>rq_uri := u\<rparr>)"
    using assms(3) by (simp add: feed_append feed_uri consume_simps empty_request_def)
  with feed_method_line[OF assms(1,2), of empty_request]
  have "feed new_parser empty_request ((m @ '' '') @ (u @ '' '')) =
      Some (?p\<lparr>p_state := http_version_h\<rparr>, empty_request\<lparr>rq_uri := u\<rparr>)"
    by (simp only: feed_append bind.bind_lunit prod.case)
  from parse_feed[OF this, of "[c]"] assms(4) show ?thesis
    by (simp add: consume_simps empty_request_def new_parser_def)
qed



end
