(* ===== verification/Unit_Tests.thy ===== *)
theory Unit_Tests
  imports Server
begin

text \<open>
  The expectations of the repository's unit tests (\<open>tests/*_test.cc\<close>), evaluated in the model: the
  configuration files and requests are those of the tests, and each lemma states what the test of
  the same name expects of the program.  One test, on a file with a surplus closing brace, expects a
  result of a run whose behaviour is undefined.
\<close>

section \<open>Configurations\<close>

definition text_lines :: "string list \<Rightarrow> string" where
  "text_lines ls = concat (map (\<lambda>l. l @ [LF]) ls)"

definition parse_result :: "string \<Rightarrow> bool result" where
  "parse_result file = and_then (Parse file (NginxConfig [])) (\<lambda>out. Inr (parsed out))"

definition port_result :: "string \<Rightarrow> int result" where
  "port_result file = and_then (Parse file (NginxConfig [])) (\<lambda>out. config_parse_port (parsed_config out))"

definition print_result :: "string \<Rightarrow> string result" where
  "print_result file = and_then (Parse file (NginxConfig [])) (\<lambda>out. Inr (config_ToString (parsed_config out) 0))"

lemma ports:
  "port_result (text_lines [''port 8080;'']) = Inr 8080"
  "port_result (text_lines [[], ''port -1;'', ''port 8080;'']) = Inr 8080"
  "port_result ''port 8080;'' = Inr 8080"
  "port_result (text_lines [[], ''port -1;''] @ ''port 8080;'') = Inr 8080"
  by code_simp+

lemma GetPortNumberNull: "port_result [] = Inr (- 1)"
  by code_simp

lemma GetPortNumberNoPort:
  "port_result (text_lines [''foo \"bar\";'', [], ''server {'', ''  listen   ;'', ''  server_name wnza.com;'',
     ''  root /usr/src/projects/WNZA/;''] @ ''}'') = Inr (- 1)"
  by code_simp

lemma EndSingleQuote: "parse_result (text_lines [''foo \"bar\";'', []] @ [CHR 0x27]) = Inr False"
  by code_simp

lemma EndDoubleQuote: "parse_result (text_lines [''foo \"bar\";'', []] @ [CHR 0x22]) = Inr False"
  by code_simp

lemma NoClosingBracket:
  "parse_result (text_lines [''foo \"bar\";'', [], ''server {'', ''  listen   8085;'', ''  server_name wnza.com;''] @
     ''  root /usr/src/projects/WNZA;'') = Inr False"
  by code_simp

definition nested_loop_config :: string where
  "nested_loop_config = text_lines [''foo \"bar\";'', [], ''server {'', ''  location /{'',
     ''    proxy_pass http://localhost:8080;'', ''  }''] @ ''}''"

lemma NestLoopConfig: "parse_result nested_loop_config = Inr True"
  by code_simp

lemma NginxConfigToStringNested:
  "print_result nested_loop_config = Inr (text_lines [''foo \"bar\";'', ''server {'', ''  location / {'',
     ''    proxy_pass http://localhost:8080;'', ''  }'', ''}''])"
  by code_simp

lemma InvalidLeftParenthesisConfig:
  "parse_result (text_lines [''foo \"bar\";'', ''#wjxnb'', ''server {'', ''  location/ {'', ''  listen   80;'',
     ''  server_name wnza.com;'', ''  root /usr/src/projects/WNZA/;'', []] @ ''}'') = Inr False"
  by code_simp

lemma EndBlockError:
  "parse_result (text_lines [''foo \"bar\";'', [], ''server {'', [], ''  abc abc{a'', ''  }'', []] @ ''  }'') = Inr False"
  by code_simp

text \<open>\<open>InvalidRightParenthesisConfig\<close> expects \<open>false\<close>; \<open>Parse\<close> pops the empty stack on the way.\<close>

lemma InvalidRightParenthesisConfig:
  "parse_result (text_lines [''foo \"bar\";'', [], ''server {'', ''  listen   80;'', ''  server_name wnza.com;'',
     ''  root /usr/src/projects/WNZA/;'', ''  line;}'', ''  line;}''] @ ''}'') = Inl UB_empty_stack"
  by code_simp

section \<open>Requests\<close>

text \<open>The bytes up to the one that the parser has to refuse; what follows in the buffer is irrelevant.\<close>

fun refuses :: "string \<times> char \<Rightarrow> bool" where
  "refuses (xs, c) \<longleftrightarrow>
     (case feed new_parser empty_request xs of
        None \<Rightarrow> False
      | Some (p, req) \<Rightarrow>
          (case consume p req c of
             Inl _ \<Rightarrow> False
           | Inr (rt, p', _) \<Rightarrow> rt = bad \<and> body_length p' = 0))"

definition bad_requests :: "(string \<times> char) list" where
  "bad_requests =
     [(''G'', CHR ''(''),                                \<comment> \<open>bad_method_request\<close>
      (''WHAT / HTTP/1.1'', SP),                         \<comment> \<open>bad_header_line\<close>
      (''GET '', CHR 0x19),                              \<comment> \<open>bad_uri_request\<close>
      (''GET / '', CHR ''A''),                           \<comment> \<open>bad_H_request\<close>
      (''GET / H'', CHR ''H''),                          \<comment> \<open>bad_T1_request\<close>
      (''GET / HT'', CHR ''H''),                         \<comment> \<open>bad_T2_request\<close>
      (''GET / HTT'', CHR ''T''),                        \<comment> \<open>bad_P_request\<close>
      (''GET / HTTP'', CHR ''P''),                       \<comment> \<open>bad_slash_request\<close>
      (''GET / HTTP/'', CHR ''/''),                      \<comment> \<open>bad_major_request\<close>
      (''GET / HTTP/12'', CHR ''/''),                    \<comment> \<open>bad_major_continue_request\<close>
      (''GET / HTTP/1.'', CHR ''/''),                    \<comment> \<open>bad_minor_request\<close>
      (''GET / HTTP/1.11'', CHR ''/''),                  \<comment> \<open>bad_minor_continue_request\<close>
      (''GET / HTTP/1.1'' @ [CR], CHR ''a''),            \<comment> \<open>new_line1_request\<close>
      (''GET / HTTP/1.1'' @ CRLF, CHR 0x19),             \<comment> \<open>bad_header_request\<close>
      (''GET / HTTP/1.1'' @ CRLF, SP),                   \<comment> \<open>header_lws_request and its variants\<close>
      (''GET / HTTP/1.1'' @ CRLF @ ''d'', CHR 0x19),     \<comment> \<open>header_name_request\<close>
      (''GET / HTTP/1.1'' @ CRLF @ ''d:'', CHR '':'')]   \<comment> \<open>space_before_request\<close>"

lemma bad_requests_refused: "list_all refuses bad_requests"
  by code_simp

lemma refused:
  assumes "refuses (xs, c)"
  shows "\<exists>p req. parse new_parser empty_request (xs @ c # rest) = Inr ((bad, length xs + 1, 0), p, req)"
proof -
  from assms obtain p req where f: "feed new_parser empty_request xs = Some (p, req)" by (auto split: option.split_asm)
  with assms obtain p' req' where "consume p req c = Inr (bad, p', req')" "body_length p' = 0"
    by (cases "consume p req c") auto
  with parse_feed[OF f, of "c # rest"] show ?thesis by simp
qed

lemma request_parser_test_bad:
  "(xs, c) \<in> set bad_requests \<Longrightarrow>
   \<exists>p req. parse new_parser empty_request (xs @ c # rest) = Inr ((bad, length xs + 1, 0), p, req)"
  using bad_requests_refused refused by (auto simp: list_all_iff)

lemma request_parser_test_good:
  "m \<noteq> [] \<Longrightarrow> list_all token_char m \<Longrightarrow> list_all header_ok hs \<Longrightarrow> last_length 0 hs = Inr 0 \<Longrightarrow>
   parse new_parser empty_request (wire m ''/'' ''HTTP/1.1'' hs [] @ rest) =
     Inr ((good, length (wire m ''/'' ''HTTP/1.1'' hs []), 0), final_parser m [], parsed_request m ''/'' ''HTTP/1.1'' hs [])"
  by (rule parse_wire_lemma) (simp_all add: version_ok_1_1, code_simp)

lemma empty_body_request:
  "parse new_parser empty_request (wire ''GET'' ''/'' ''HTTP/1.1'' [] [] @ CRLF @ [LF] @ rest) =
     Inr ((good, 18, 0), final_parser ''GET'' [], parsed_request ''GET'' ''/'' ''HTTP/1.1'' [] [])"
  by (subst request_parser_test_good) (simp, code_simp, simp, simp, simp add: wire_def)

lemma with_header_request:
  "parse new_parser empty_request (wire ''GET'' ''/'' ''HTTP/1.1'' [(''content'', ''asdfhsdf'')] [] @ ''body=adsfhasdf'' @ [LF] @ rest) =
     Inr ((good, 37, 0), final_parser ''GET'' [], parsed_request ''GET'' ''/'' ''HTTP/1.1'' [(''content'', ''asdfhsdf'')] [])"
  by (subst request_parser_test_good) (simp, code_simp, code_simp, code_simp, simp add: wire_def print_header_def)

lemma valid_header_bad_method_request:
  "\<exists>p req. parse new_parser empty_request (wire ''WHAT'' ''/'' ''HTTP/1.1'' [] [] @ rest) = Inr ((good, 19, 0), p, req) \<and>
     rq_method req = INVALID"
  by (subst request_parser_test_good)
    (simp, code_simp, simp, simp, simp add: wire_def parsed_request_def method_of_def)

section \<open>Responses and handlers\<close>

definition code_of :: "(response \<times> 'st) result \<Rightarrow> status_code option result" where
  "code_of r = and_then r (\<lambda>(res, _). Inr (rs_code res))"

definition get_req :: "string \<Rightarrow> request" where
  "get_req uri = empty_request\<lparr>rq_method := GET, rq_uri := uri\<rparr>"

lemma response_tests:
  "and_then (build (set_code OK (set_response new_response new_builder))) (\<lambda>(bufs, _). Inr (bufs ! 0)) =
     Inr (''HTTP/1.1 200 OK'' @ CRLF @ CRLF)"
  "and_then (build (set_code BAD_REQ (set_response new_response new_builder))) (\<lambda>(bufs, _). Inr (bufs ! 0)) =
     Inr (''HTTP/1.1 400 Bad Request'' @ CRLF @ CRLF)"
  by code_simp+

lemma request_appended_to_response:
  "\<exists>bufs b. build (set_code OK (add_body body (set_response new_response new_builder))) = Inr (bufs, b) \<and> bufs ! 1 = body"
  by (simp add: build_def builder_defs Let_def)

lemma echo_read:
  "\<exists>res. echo_handle_request e () ((get_req ''/'')\<lparr>rq_version := ''HTTP/1.1'', rq_body := ''whole HTTP request''\<rparr>) = Inr (res, ()) \<and>
     rs_body res = ''GET / HTTP/1.1'' @ CRLF @ CRLF @ ''whole HTTP request''"
  by (simp add: echo_handle_request_def echo_body_def get_req_def empty_request_def builder_defs)

lemma return_404_code: "code_of (not_found_handle_request plain_env () (get_req ''/nomatch'')) = Inr (Some NOT_FOUND)"
  by code_simp

definition block :: "string list \<Rightarrow> NginxConfig" where
  "block ts = NginxConfig [NginxConfigStatement ts None]"

text \<open>The directory of the tests holds \<open>cat.jpg\<close>.\<close>

definition test_env :: env where
  "test_env = plain_env\<lparr>env_files := (\<lambda>f. if f = ''./cat.jpg'' then Some ''jpeg'' else None)\<rparr>"

definition static_code :: "string list \<Rightarrow> string \<Rightarrow> string \<Rightarrow> status_code option result" where
  "static_code ts prefix_uri uri =
     and_then (static_init prefix_uri (block ts)) (\<lambda>h.
       case h of
         Some s \<Rightarrow> code_of (static_handle_request test_env s (get_req uri))
       | None \<Rightarrow> code_of (not_found_handle_request test_env () (get_req uri)))"

lemma static_request_handler_tests:
  "static_code [''moot'', ''\".\"''] ''/static'' ''/static/cat.jpg'' = Inr (Some NOT_FOUND)"
  "static_code [''root'', ''\".\"''] ''/static'' ''/static/cat.jpg'' = Inr (Some OK)"
  "static_code [] ''/static'' ''/static/cat.jpg'' = Inr (Some NOT_FOUND)"
  "static_code [''root'', ''\"./\"''] ''/static/'' ''/static/catasdf.jpg'' = Inr (Some NOT_FOUND)"
  by code_simp+

lemma reverse_proxy_init:
  "and_then (proxy_init ''/'' (block [''dest'', ''\"https://www.google.com/\"''])) (\<lambda>h. Inr (h \<noteq> None)) = Inr True"
  by code_simp

section \<open>The session\<close>

definition test_server_config :: string where
  "test_server_config = text_lines [''port 8080;'', [], ''location \"/static/\" StaticHandler {'', ''    root \".\";'', ''}'', [],
     ''location \"/echo/\" EchoHandler {'', ''}'', [], ''location \"/status/\" StatusHandler {'', ''}'', [],
     ''location \"/\" NotFoundHandler {'', ''}'', [], ''location \"/ucla/\" ProxyHandler {'',
     ''    dest \"http://www.ucla.edu/\";'', ''}'', [], ''location \"/gnu/\" ProxyHandler {'',
     ''    dest \"http://gnu.org/\";'', ''}'', [], ''location \"/gnu/test/\" ProxyHandler {'',
     ''    dest \"http://gnu.org/\";'', ''}'', [], ''location \"/health/\" HealthHandler {'', ''}'']"

definition test_table :: "(string, request_handler) entries result" where
  "test_table = and_then (Parse test_server_config (NginxConfig [])) (\<lambda>out.
     and_then (get_location_result (parsed_config out)) (\<lambda>rs. add_handlers rs []))"

lemma test_table_locations:
  "and_then test_table (\<lambda>m. Inr (map (\<lambda>(k, h). (k, get_handler_name h)) m)) =
     Inr [(''/'', ''NotFoundHandler''), (''/echo/'', ''EchoHandler''), (''/gnu/'', ''ProxyHandler''),
          (''/gnu/test/'', ''ProxyHandler''), (''/health/'', ''HealthHandler''), (''/static/'', ''StaticHandler''),
          (''/status/'', ''StatusHandler''), (''/ucla/'', ''ProxyHandler'')]"
  by code_simp

definition session_code :: "request \<Rightarrow> status_code option result option" where
  "session_code req =
     (case test_table of
        Inl err \<Rightarrow> Some (Inl err)
      | Inr m \<Rightarrow>
          map_option (\<lambda>x. and_then x (\<lambda>(b, _). Inr (rs_code (get_response b))))
            (process_req plain_env quiet_upstream (\<lambda>_. None) req
               \<lparr>sv_handlers = m, sv_cache = Map.empty, sv_world = \<lparr>w_log = [], w_sent = 0\<rparr>\<rparr>))"

lemma good_parse_generates_ok_code:
  "session_code ((get_req ''/echo/'')\<lparr>rq_version := ''HTTP/1.1''\<rparr>) = Some (Inr (Some OK))"
  by code_simp

lemma bad_parse_generates_response:
  "session_code (empty_request\<lparr>rq_method := INVALID\<rparr>) = Some (Inr (Some BAD_REQ))"
  by code_simp

end
