(* ===== verification/Spec2Isabelle.thy ===== *)
theory Spec2Isabelle
  imports Conversation Thread_Pool Session_Input Unit_Tests
begin

text \<open>
  A verification development for the WNZA HTTP server (C++, \<open>src/src/*.cc\<close> and
  \<open>src/include/*.h\<close>).

  \<^bold>\<open>The program.\<close>  \<open>main\<close> parses an nginx-like configuration file, takes a port from it and
  starts a \<open>server\<close>.  The server makes a table from locations to request handlers and runs an
  accept loop that limits the number of open connections.  Every accepted connection gets a
  \<open>session\<close>, which reads from its \<open>connection\<close>, cuts the bytes into requests with a
  \<open>request_parser\<close>, selects for each request the handler of the longest matching location (or a
  cached response), and writes the response that a \<open>response_builder\<close> serialises.  Handlers are
  echo, health, not found, static files, a status page computed from the log files, and a reverse
  proxy.  The \<open>log_helper\<close> records what happens.  Everything is driven by callbacks of an
  \<open>io_service\<close> that 16 threads run.

  \<^bold>\<open>The theories\<close>, in dependency order:
  \<^item> \<open>Prelude\<close>: failures of C++ operations (\<open>cxx_error\<close>: exceptions and undefined behaviour), the
    error monad \<open>and_then\<close>, \<open>size_t\<close> and \<open>int\<close> arithmetic with wrap-around, the operations of
    \<open>std::string\<close>, \<open>stoi\<close>, \<open>atoi\<close>, \<open>to_string\<close> and the lemmas shared by the components.
  \<^item> \<open>Std_Map\<close>: the interface locale \<open>std_map\<close> of an ordered map and its interpretation \<open>sm\<close> on
    entry lists in key order (headers, location table).
  \<^item> \<open>Config_Parser\<close>, \<open>Config_Correct\<close> (\<open>config_parser.h/.cc\<close>): configuration tree, tokenizer,
    stack parser with the stack of pointers modelled as paths into the tree, printer, queries.  The
    parser accepts exactly the token sequences of the grammar, printing and parsing are inverse, it
    is defined when braces balance, and what happens when they do not.
  \<^item> \<open>Request_Parser\<close>, \<open>Request_Correct\<close>, \<open>Request_Grammar\<close> (\<open>request.h\<close>, \<open>request_parser.h/.cc\<close>):
    the 21-state machine \<open>consume\<close> and the driver \<open>parse\<close>.  Messages on the wire are parsed to their
    parts whatever follows, and the requests reported are exactly those of an inductive grammar
    (\<open>request_message\<close>), continuation lines included: one direction follows a text through the
    states, the other is an invariant (\<open>read_at\<close>) that says of each state what has been read.
  \<^item> \<open>Response\<close> (\<open>response.h/.cc\<close>): builder operations and \<open>build\<close>; a receiver that reads a built
    response back; \<open>wf_response\<close>.  The file system, the clock, the log directory and the host name
    are the record \<open>env\<close>.
  \<^item> \<open>Refinement\<close>: runs of transition systems and the locale \<open>forward_simulation\<close>.
  \<^item> \<open>Connection\<close> (\<open>connection.h/.cc\<close>): \<open>read\<close> with its timer, \<open>write\<close>, \<open>timeout\<close>; what boost.asio
    and the network do in between is the relation \<open>net_step\<close>; what it keeps of the order of bytes.
  \<^item> \<open>Handlers\<close>: the contract of a handler as the locales \<open>http_handler\<close> (what it answers is well
    formed, its invariant is kept) and \<open>total_handler\<close> (it always answers), and the echo, health
    and not-found handlers, which meet it.
  \<^item> \<open>Log_Helper\<close> (\<open>log_helper.cc\<close>): the configuration given to boost.log and the records
    written; the formatter of boost.log is a parameter (\<open>formatter_ok\<close>).
  \<^item> \<open>Static_Handler\<close>, \<open>Status_Handler\<close> (\<open>static_request_handler.cc\<close>,
    \<open>status_request_handler.cc\<close>): file serving; the status page against what the logger wrote.
  \<^item> \<open>Reverse_Proxy\<close>, \<open>Proxy_Correct\<close> (\<open>reverse_proxy_request_handler.cc\<close>): the network is the
    parameter \<open>up_net\<close>, which answers each exchange with segments, and \<open>boost::replace_all\<close> is the
    parameter \<open>up_replace_all\<close>.  Replies are relayed independently of their segmentation; the
    contract holds when upstream speaks HTTP (\<open>net_ok\<close>); redirect cycles do not end.
  \<^item> \<open>Session\<close>, \<open>Session_Correct\<close> (\<open>session.h/.cc\<close>): the virtual call \<open>handle_request\<close>,
    \<open>process_req\<close> with cache and location loop, the receive loop, \<open>received_req\<close> on the session's
    connection.
  \<^item> \<open>Session_Input\<close>: what the receive loop makes of input that is not a message: it stays inside its
    buffer as long as no length is negative, and where negative lengths and malformed requests lead.
  \<^item> \<open>Response_Cache\<close>: handlers of pages that depend on the URI only (locale \<open>page_handler\<close>); for them
    the cache of the dispatcher is transparent.
  \<^item> \<open>Session_Threads\<close>: \<open>process_req\<close> in turns (\<open>process_turn\<close>), one for each access to the state that
    sessions share, and calls of it in several threads that interleave at these turns: the cache stays
    transparent for such pages, and for echoes the answer depends on a race.
  \<^item> \<open>Server\<close> (\<open>server.h/.cc\<close>, \<open>server_main.cc\<close>): location table, accept loop as a step relation
    with its invariant by rule induction, \<open>main\<close>.
  \<^item> \<open>Event_Loop\<close>: the running process as one transition system \<open>io_step\<close> over the accept loop, all
    sessions and the shared state; \<open>loop_step\<close> are its steps other than completed reads.  A step is one callback or one move of the network; an exception
    that leaves a callback ends the process (\<open>Crashed\<close>), a callback that does not return keeps its
    thread (\<open>io_hung\<close>), and the last reference to a session destroys its connection (\<open>release\<close>).
    The invariant \<open>io_inv\<close> holds in every reachable state, and the system refines an abstract
    service of at most 101 clients (\<open>service_step\<close>) through the locale \<open>forward_simulation\<close>.
  \<^item> \<open>Server_Runs\<close>: what follows for runs of the server: silent clients are
    disconnected, and what single requests, lost peers, expired timers and overlapping writes can do.
  \<^item> \<open>Conversation\<close>: any number of requests, cut by the network in any way, are reassembled, answered
    and their responses delivered.
  \<^item> \<open>Response_Order\<close>: in every run, what a client receives is an initial piece of its responses one
    after the other, unless a response is started before the last one is sent.
  \<^item> \<open>Thread_Pool\<close>: the server with its 16 threads.  The callback of a completed read runs in turns
    that interleave with those of other sessions (\<open>pool_step\<close>); this system implements the same abstract
    service, keeps its invariant and the order of responses, can always finish its callbacks, and
    includes the runs of \<open>Event_Loop\<close>.
  \<^item> \<open>Unit_Tests\<close>: what the unit tests of the repository expect, evaluated in the model.
  \<^item> this theory: properties that span components, from the configuration file to the bytes of a
    response.

  \<^bold>\<open>State and errors.\<close>  Every class is a record, every method a function from the old to the new
  record.  An exception or undefined behaviour is the left value of \<open>result\<close>.  Where the program
  may not return (the receive loop, following redirects) the function is a
  \<open>partial_function (option)\<close> and \<open>None\<close> means that it runs for ever; no fuel is used.  Other loops
  are structural recursions or have termination proofs.  Strings are byte lists; \<open>int\<close> values are
  kept in range or tested for overflow, \<open>size_t\<close> wraps at 64 bits.

  \<^bold>\<open>Interfaces.\<close>  \<open>std_map\<close> is used by the parser (headers) and the server (locations);
  \<open>http_handler\<close> and \<open>total_handler\<close> are interpreted on each handler and on the dispatcher's virtual
  call (\<open>dispatch\<close>), and the session relies on them; \<open>page_handler\<close> extends them and is interpreted on
  the virtual call of the handlers whose responses may be cached (\<open>pages\<close>); \<open>forward_simulation\<close> is interpreted on the
  running server and the abstract service, with callbacks in one piece (\<open>service\<close>) and in turns
  (\<open>pool_service\<close>).

  \<^bold>\<open>Not modelled.\<close>  Data races inside the containers: handlers, table and cache are shared by the
  threads without locks.  \<open>Thread_Pool\<close> interleaves callbacks between their accesses to them and takes one
  access to be atomic; \<open>Event_Loop\<close> takes whole callbacks of different connections to be atomic (those of
  one connection are kept apart by its strand).  What a thread that is caught in a loop still logs, the
  rotation of log files, console output, class declarations in headers beyond their data members, build
  files and tests.

  \<^bold>\<open>Completeness.\<close>  Every function of the \<open>.cc\<close> files but the two \<open>socket()\<close> accessors and the singleton
  \<open>instance()\<close> has a definition.
\<close>

section \<open>Header lines and header maps\<close>

lemma last_length_distinct:
  "distinct (map fst hs) \<Longrightarrow>
   last_length 0 hs = (case map_of hs ''Content-Length'' of None \<Rightarrow> Inr 0 | Some v \<Rightarrow> stoi v)"
proof (induction hs)
  case (Cons h hs)
  obtain k v where h: "h = (k, v)" by (cases h)
  show ?case
  proof (cases "k = ''Content-Length''")
    case True
    with Cons.prems h have "''Content-Length'' \<notin> fst ` set hs" by auto
    with True h show ?thesis by (cases "stoi v") (simp_all add: last_length_other)
  next
    case False
    with Cons h show ?thesis by simp
  qed
qed simp

text \<open>The request that the parser makes of a message with distinct header names.\<close>

lemma parsed_request_ok:
  assumes "list_all uri_char u" "version_ok v" "list_all header_ok hs" "distinct (map fst hs)"
  shows "request_ok (parsed_request m u v hs body)"
    and "last_length 0 (rq_headers (parsed_request m u v hs body)) = last_length 0 hs"
proof -
  have ok: "map_ok (insert_all hs [])" by (rule sm.invar_inserts) simp
  have find: "map_find (insert_all hs []) = map_of hs"
    using assms(4) by (subst sm.find_inserts) (simp_all add: fun_eq_iff map_add_def split: option.splits)
  have "set (insert_all hs []) \<subseteq> set hs"
  proof
    fix h assume "h \<in> set (insert_all hs [])"
    then have "map_find (insert_all hs []) (fst h) = Some (snd h)" using sm.elems_iff[OF ok, of "fst h" "snd h"] by simp
    then have "map_of hs (fst h) = Some (snd h)" using find by simp
    then show "h \<in> set hs" using map_of_SomeD[of hs "fst h" "snd h"] by simp
  qed
  then have "list_all header_ok (insert_all hs [])" using assms(3) by (auto simp: list_all_iff)
  with ok assms(1,2) show "request_ok (parsed_request m u v hs body)"
    by (simp add: request_ok_def parsed_request_def)
  show "last_length 0 (rq_headers (parsed_request m u v hs body)) = last_length 0 hs"
    using last_length_map[OF ok] last_length_distinct[OF assms(4)] find by (simp add: parsed_request_def)
qed

section \<open>The echo location, end to end\<close>

lemma process_echo:
  assumes "env_ok e" "net_ok up" "shared_ok st" "rq_method r \<noteq> INVALID" "sv_cache st (rq_uri r) = None"
    and "match_loop (rq_uri r) (map fst (sv_handlers st)) (False, 0, []) = Inr (True, n, key)"
    and "map_find (sv_handlers st) key = Some EchoHandler" "peer 2 = None \<or> peer 3 \<noteq> None"
    and "echo_handle_request e () r = Inr (res, ())"
  shows "\<exists>st'. process_req e up peer r st = Some (Inr (set_response res new_builder, st')) \<and>
    sv_cache st' (rq_uri r) = Some res \<and> shared_ok st'"
proof -
  have wf: "wf_response res" using echo.handle_wf[OF assms(1), of "()" r res "()"] assms(9) by simp
  have h: "handle_request e (up, EchoHandler, sv_world st) r = Some (Inr (res, (up, EchoHandler, sv_world st)))"
    using assms(9) by simp
  obtain ip where "log_metrics r res (peer 2) (peer 3) ''EchoHandler'' (w_log (sv_world st)) =
      Inr (w_log (sv_world st) @ [(trace, metrics_message (code_name (the (rs_code res))) (rq_uri r) ip ''EchoHandler'')])"
    using log_metrics_defined[OF wf assms(8)] by blast
  then obtain st' where run: "run_selected e up peer key r st = Some (Inr (set_response res new_builder, st'))"
    unfolding run_selected_eq assms(7) option.case h by simp
  from run_selected_safe[OF assms(1-3) run] run assms(4-6) show ?thesis by (auto simp: process_req_eq)
qed

lemma echo_served:
  assumes "env_ok e" "net_ok up" "shared_ok st" "ses_parser ses = new_parser" "ses_request ses = empty_request"
    and "m \<noteq> []" "list_all token_char m" "list_all uri_char u" "version_ok v" "list_all header_ok hs"
    and "last_length 0 hs = Inr (int (length body))" "distinct (map fst hs)" "method_of m \<noteq> INVALID"
    and "sv_cache st u = None" "map_find (sv_handlers st) key = Some EchoHandler"
    and "match_loop u (map fst (sv_handlers st)) (False, 0, []) = Inr (True, n, key)"
    and "peers 0 0 = Some a" "peers 0 1 = Some b" "peers 0 2 = None \<or> peers 0 3 \<noteq> None"
  shows "\<exists>bytes st' res p. received_req e up peers False (wire m u v hs body) (ses, st) =
      Some (Inr (wait_for_req (ses\<lparr>ses_connection := async_write bytes (ses_connection ses)\<rparr>), st')) \<and>
    receive bytes = Some (''HTTP/1.1 200 OK'', rs_headers res, rs_body res, []) \<and> rs_code res = Some OK \<and>
    parse new_parser empty_request (rs_body res) = Inr ((good, length (rs_body res), 0), p, parsed_request m u v hs body) \<and>
    sv_cache st' u = Some res \<and> shared_ok st'"
proof -
  let ?r = "parsed_request m u v hs body"
  have r: "request_ok ?r" "last_length 0 (rq_headers ?r) = Inr (int (length (rq_body ?r)))" "rq_uri ?r = u"
    "rq_method ?r \<noteq> INVALID"
    using parsed_request_ok[OF assms(8-10,12), of m body] assms(11,13) by (simp_all add: parsed_request_def)
  obtain res p where res: "echo_handle_request e () ?r = Inr (res, ())" "rs_code res = Some OK"
    "parse new_parser empty_request (rs_body res @ []) = Inr ((good, length (rs_body res), 0), p, ?r)"
    using echo_reparses[OF r(1,4,2), of e "[]"] by blast
  obtain lg where lg: "log_request_info ?r (peers 0 0) (peers 0 1) (w_log (sv_world st)) = Inr lg"
    using assms(17,18) by (cases a; cases b) (simp add: log_request_info_def remote_endpoint_def)
  let ?st = "st\<lparr>sv_world := (sv_world st)\<lparr>w_log := lg\<rparr>\<rparr>"
  have "\<exists>st'. process_req e up (peers 0) ?r ?st = Some (Inr (set_response res new_builder, st')) \<and>
      sv_cache st' (rq_uri ?r) = Some res \<and> shared_ok st'"
    by (rule process_echo[OF assms(1,2) _ r(4)]) (use assms(3,14-16,19) r(3) res(1) in simp_all)
  then obtain st' where pr: "process_req e up (peers 0) ?r ?st = Some (Inr (set_response res new_builder, st'))"
    "sv_cache st' u = Some res" "shared_ok st'" using r(3) by auto
  from session_serves[where peers = peers, OF assms(1-11) lg pr(1), of "[]"] res(2,3) pr(2,3) show ?thesis by auto
qed



text \<open>C34: The response cache hands one client's request to another: after a client's request for a
  URI below an echo location was served, any other client that asks for the same URI, with whatever
  method, headers and body, receives a response whose body is the first client's request, headers and
  body included, and not its own.\<close>

theorem cache_leaks_request:
  assumes "env_ok e" "net_ok up" "shared_ok st" "ses_parser ses = new_parser" "ses_request ses = empty_request"
    and "m \<noteq> []" "list_all token_char m" "list_all uri_char u" "version_ok v" "list_all header_ok hs"
    and "last_length 0 hs = Inr (int (length body))" "distinct (map fst hs)" "method_of m \<noteq> INVALID"
    and "sv_cache st u = None" "map_find (sv_handlers st) key = Some EchoHandler"
    and "match_loop u (map fst (sv_handlers st)) (False, 0, []) = Inr (True, n, key)"
    and "peers 0 0 = Some a" "peers 0 1 = Some b" "peers 0 2 = None \<or> peers 0 3 \<noteq> None" "u \<noteq> ''/status''"
    and "env_ok e2" "net_ok up2" "ses_parser ses2 = new_parser" "ses_request ses2 = empty_request"
    and "m2 \<noteq> []" "list_all token_char m2" "version_ok v2" "list_all header_ok hs2"
    and "last_length 0 hs2 = Inr (int (length body2))" "peers2 0 0 = Some aa" "peers2 0 1 = Some bb"
  shows "\<exists>ses1 st1 bytes st2 hs' body' p.
    received_req e up peers False (wire m u v hs body) (ses, st) = Some (Inr (ses1, st1)) \<and>
    received_req e2 up2 peers2 False (wire m2 u v2 hs2 body2) (ses2, st1) =
      Some (Inr (wait_for_req (ses2\<lparr>ses_connection := async_write bytes (ses_connection ses2)\<rparr>), st2)) \<and>
    receive bytes = Some (''HTTP/1.1 200 OK'', hs', body', []) \<and>
    parse new_parser empty_request body' = Inr ((good, length body', 0), p, parsed_request m u v hs body)"
proof -
  obtain ses1 st1 res p where r1: "received_req e up peers False (wire m u v hs body) (ses, st) = Some (Inr (ses1, st1))"
    "rs_code res = Some OK" "sv_cache st1 u = Some res" "shared_ok st1"
    "parse new_parser empty_request (rs_body res) = Inr ((good, length (rs_body res), 0), p, parsed_request m u v hs body)"
    using echo_served[where peers = peers, OF assms(1-19)] by blast
  let ?r = "parsed_request m2 u v2 hs2 body2"
  obtain lg where lg: "log_request_info ?r (peers2 0 0) (peers2 0 1) (w_log (sv_world st1)) = Inr lg"
    using assms(30,31) by (cases aa; cases bb) (simp add: log_request_info_def remote_endpoint_def)
  let ?st = "st1\<lparr>sv_world := (sv_world st1)\<lparr>w_log := lg\<rparr>\<rparr>"
  have pr: "process_req e2 up2 (peers2 0) ?r ?st = Some (Inr (set_response res new_builder, ?st))"
    using r1(3) assms(20) by (simp add: process_req_eq parsed_request_def)
  from session_serves[where peers = peers2, OF assms(21,22) r1(4) assms(23-26) assms(8) assms(27-29) lg pr, of "[]"] r1
  show ?thesis by fastforce
qed

theorem cache_leaks_request_witness:
  "\<exists>ses1 st1 bytes st2 hs' body' p.
    received_req plain_env quiet_upstream (\<lambda>_ k. if k < 2 then Some (''::1'', 80) else None) False
      (wire ''GET'' ''/echo/x'' ''HTTP/1.1'' [(''Host'', ''h'')] []) (new_session new_connection, example_shared) = Some (Inr (ses1, st1)) \<and>
    received_req plain_env quiet_upstream (\<lambda>_ k. if k < 2 then Some (''::1'', 81) else None) False
      (wire ''GET'' ''/echo/x'' ''HTTP/1.1'' [] []) (new_session new_connection, st1) =
      Some (Inr (wait_for_req (new_session new_connection\<lparr>ses_connection := async_write bytes (ses_connection (new_session new_connection))\<rparr>), st2)) \<and>
    receive bytes = Some (''HTTP/1.1 200 OK'', hs', body', []) \<and>
    parse new_parser empty_request body' = Inr ((good, length body', 0), p,
      parsed_request ''GET'' ''/echo/x'' ''HTTP/1.1'' [(''Host'', ''h'')] [])"
  by (rule cache_leaks_request[OF example_ok _ _ wire_example(1-3) version_ok_1_1 wire_example(4,5),
        where key = "''/echo/''" and n = 6 and a = "(''::1'', 80)" and b = "(''::1'', 80)" and aa = "(''::1'', 81)" and bb = "(''::1'', 81)"])
    (use example_ok wire_example version_ok_1_1 in \<open>simp_all add: new_session_def example_shared_def example_lookup method_of_def\<close>,
      simp_all add: example_locations_def)

section \<open>Handlers on one connection\<close>





section \<open>Start-up\<close>

lemma main_running:
  assumes "files f = Some input" "accepts input c" "config_parse_port c = Inr port" "port \<noteq> - 1"
    and "bind (endpoint_port (port_argument port)) = None"
    and "new_server (port_argument port) c
           (log_trace_file ''server config parsing successed'' (log_trace_file ''server config parsing begins'' lg)) = Inr s"
  shows "main_server files bind what [prog, f] lg =
    Inr (Running s (log_trace_file ''server startup successed'' (w_log (sv_world (srv_shared s)))))"
proof -
  have "Parse input (NginxConfig []) = Inr \<lparr>parsed = True, parsed_config = c, printed = []\<rparr>"
    using assms(2) by (simp add: accepts_def)
  with assms show ?thesis by (simp add: main_server_def Parse_file_def guarded_def)
qed

lemma new_server_built:
  assumes "get_location_result c = Inr rs" "add_handlers rs [] = Inr locs"
  shows "\<exists>srv. new_server port c lg = Inr srv \<and> srv_port srv = endpoint_port port \<and>
    sv_handlers (srv_shared srv) = locs \<and> sv_cache (srv_shared srv) = Map.empty"
  using assms by (simp add: new_server_def log_all_handlers_def Let_def)

lemma first_echo_response:
  assumes "new_server port c lg0 = Inr srv" "config_ok c" "message_ok m u v hs body" "distinct (map fst hs)"
    and "method_of m \<noteq> INVALID" "sv_cache (srv_shared srv) = Map.empty"
    and "match_loop u (map fst (sv_handlers (srv_shared srv))) (False, 0, []) = Inr (True, k, key)"
    and "map_find (sv_handlers (srv_shared srv)) key = Some EchoHandler"
  shows "\<exists>bytes s hs' body' p. server_runs srv lg [Connect n, Respond n bytes] (Alive s) \<and>
    receive bytes = Some (''HTTP/1.1 200 OK'', hs', body', []) \<and>
    parse new_parser empty_request body' = Inr ((good, length body', 0), p, parsed_request m u v hs body)"
proof -
  let ?s = "connected n (io_init srv lg)" and ?ses = "session_start (new_session new_connection)"
  let ?peers = "\<lambda>(_ :: nat) (_ :: nat). Some (''::1'', 80) :: endpoint"
  have msg: "m \<noteq> []" "list_all token_char m" "list_all uri_char u" "version_ok v" "list_all header_ok hs"
    "last_length 0 hs = Inr (int (length body))" "length (wire m u v hs body) \<le> max_len"
    using assms(3) by (simp_all add: message_ok_def)
  have st: "shared_ok (io_shared ?s)" "sv_handlers (io_shared ?s) = sv_handlers (srv_shared srv)"
    "sv_cache (io_shared ?s) u = None"
    using new_server_shared_ok[OF assms(1,2)] assms(6) by simp_all (simp_all add: io_init_def)
  have h: "map_find (sv_handlers (io_shared ?s)) key = Some EchoHandler"
    "match_loop u (map fst (sv_handlers (io_shared ?s))) (False, 0, []) = Inr (True, k, key)"
    unfolding st(2) by (rule assms(8), rule assms(7))
  have peers: "?peers 0 0 = Some (''::1'', 80)" "?peers 0 1 = Some (''::1'', 80)" "?peers 0 2 = None \<or> ?peers 0 3 \<noteq> None"
    by simp_all
  have fresh: "ses_parser (end_read ?ses) = new_parser" "ses_request (end_read ?ses) = empty_request" by simp_all
  obtain bytes st' p and res :: response where r: "received_req plain_env quiet_upstream ?peers False (wire m u v hs body) (end_read ?ses, io_shared ?s) =
      Some (Inr (wait_for_req ((end_read ?ses)\<lparr>ses_connection := async_write bytes (ses_connection (end_read ?ses))\<rparr>), st'))"
    "receive bytes = Some (''HTTP/1.1 200 OK'', rs_headers res, rs_body res, [])"
    "parse new_parser empty_request (rs_body res) = Inr ((good, length (rs_body res), 0), p, parsed_request m u v hs body)"
    using echo_served[where peers = ?peers, OF example_ok(1,2) st(1) fresh msg(1-6) assms(4,5) st(3) h peers] by blast
  let ?ses' = "wait_for_req ((end_read ?ses)\<lparr>ses_connection := async_write bytes (ses_connection (end_read ?ses))\<rparr>)"
  have "io_step ?s (responses n ?ses ?ses') (Alive (set_session n ?ses' st' ?s))"
    using first_connection(2)[OF assms(1)] msg(7) r(1) example_ok(1,2)
    by (intro io_step.received[where data = "wire m u v hs body"]) (simp_all add: wire_nonempty peers_ok_def)
  moreover have "responses n ?ses ?ses' = [Respond n bytes]"
    by (simp add: responses_def wait_for_req_def async_write_def)
  ultimately have "exec process_step (Alive (io_init srv lg)) ([Connect n] @ [Respond n bytes]) (Alive (set_session n ?ses' st' ?s))"
    using exec_io[OF first_connection(1)[OF assms(1), of lg n, unfolded server_runs_def]] by simp
  then have "server_runs srv lg [Connect n, Respond n bytes] (Alive (set_session n ?ses' st' ?s))"
    by (simp add: server_runs_def)
  with r(2,3) show ?thesis by blast
qed

text \<open>C3: From the configuration file to the response: when \<open>main\<close> is given a file that the parser
  accepts, with a valid port that can be opened and locations that can be set up, it brings the server up
  on that port, and a client that connects and sends a well-formed request for a URI whose longest
  matching location is an echo location is answered with status 200 and a body that the parser reads
  back to the request.\<close>

theorem config_to_response:
  assumes "files f = Some input" "accepts input c" "config_parse_port c = Inr port" "port \<noteq> - 1"
    and "bind (endpoint_port (port_argument port)) = None"
    and "get_location_result c = Inr rs" "list_all location_small rs" "add_handlers rs [] = Inr locs"
    and "match_loop u (map fst locs) (False, 0, []) = Inr (True, k, key)" "map_find locs key = Some EchoHandler"
    and "message_ok m u v hs body" "distinct (map fst hs)" "method_of m \<noteq> INVALID"
  shows "\<exists>srv lg' bytes s hs' body' p. main_server files bind what [prog, f] lg = Inr (Running srv lg') \<and>
    srv_port srv = endpoint_port (port_argument port) \<and>
    server_runs srv lg' [Connect n, Respond n bytes] (Alive s) \<and>
    receive bytes = Some (''HTTP/1.1 200 OK'', hs', body', []) \<and>
    parse new_parser empty_request body' = Inr ((good, length body', 0), p, parsed_request m u v hs body)"
proof -
  let ?lg = "log_trace_file ''server config parsing successed'' (log_trace_file ''server config parsing begins'' lg)"
  obtain srv where srv: "new_server (port_argument port) c ?lg = Inr srv" "srv_port srv = endpoint_port (port_argument port)"
    "sv_handlers (srv_shared srv) = locs" "sv_cache (srv_shared srv) = Map.empty"
    using new_server_built[OF assms(6,8), of "port_argument port" ?lg] by blast
  have "config_ok c" using assms(6,7) by (simp add: config_ok_def)
  from first_echo_response[OF srv(1) this assms(11-13) srv(4)] assms(9,10) srv(3)
    main_running[where files = files and bind = bind, OF assms(1-5) srv(1), of what prog] srv(2) show ?thesis by blast
qed

definition example_echo_file :: string where
  "example_echo_file = ''port 80; location '' @ [CHR 0x22] @ ''/echo/'' @ [CHR 0x22] @ '' EchoHandler { }''"

definition example_echo_config :: NginxConfig where
  "example_echo_config = NginxConfig [NginxConfigStatement [''port'', ''80''] None,
     NginxConfigStatement [''location'', [CHR 0x22] @ ''/echo/'' @ [CHR 0x22], ''EchoHandler''] (Some (NginxConfig []))]"

lemma example_echo:
  "accepts example_echo_file example_echo_config" "config_parse_port example_echo_config = Inr 80"
  unfolding accepts_def example_echo_file_def by code_simp+

theorem config_to_response_witness:
  "\<exists>srv lg' bytes s hs' body' p.
    main_server [''conf'' \<mapsto> example_echo_file] (\<lambda>_. None) (\<lambda>_. []) [''server'', ''conf''] [] = Inr (Running srv lg') \<and>
    srv_port srv = endpoint_port (port_argument 80) \<and>
    server_runs srv lg' [Connect 0, Respond 0 bytes] (Alive s) \<and>
    receive bytes = Some (''HTTP/1.1 200 OK'', hs', body', []) \<and>
    parse new_parser empty_request body' = Inr ((good, length body', 0), p,
      parsed_request ''GET'' ''/echo/x'' ''HTTP/1.1'' [(''Host'', ''h'')] [])"
proof (rule config_to_response[OF _ example_echo])
  let ?rs = "[\<lparr>loc_uri = ''/echo/'', loc_handler_name = ''EchoHandler'', loc_block_config = Some (NginxConfig [])\<rparr>]"
  show "get_location_result example_echo_config = Inr ?rs"
    by (simp add: example_echo_config_def get_location_result_def substr_def size_minus_le)
  show "list_all location_small ?rs"
    by (simp add: location_small_def INT_MAX_def root_small_def get_value_from_statement_def)
  show "add_handlers ?rs [] = Inr [(''/echo/'', EchoHandler)]"
    by (simp add: add_request_handler_def known_handlers_def init_handler_def)
  show "match_loop ''/echo/x'' (map fst [(''/echo/'', EchoHandler)]) (False, 0, []) = Inr (True, 6, ''/echo/'')"
    by code_simp
  show "message_ok ''GET'' ''/echo/x'' ''HTTP/1.1'' [(''Host'', ''h'')] []"
    using wire_example version_ok_1_1 by (simp add: message_ok_def) (simp add: wire_def print_header_def max_len_def)
qed (simp_all add: method_of_def)

text \<open>An accepted configuration with a valid port brings the server up on that port: \<open>main\<close>
  parses the file, opens the port as configured and runs the server built from the parsed tree.\<close>

theorem main_runs_accepted_config:
  assumes "files f = Some input" "accepts input c" "config_parse_port c = Inr port" "port \<noteq> - 1"
    and "bind (endpoint_port (port_argument port)) = None"
    and "new_server (port_argument port) c
           (log_trace_file ''server config parsing successed'' (log_trace_file ''server config parsing begins'' lg)) = Inr s"
  shows "main_server files bind what [prog, f] lg =
    Inr (Running s (log_trace_file ''server startup successed'' (w_log (sv_world (srv_shared s)))))"
  using assms by (rule main_running)

text \<open>When the port may not be opened, \<open>main\<close> reports success: it logs the refusal and
  returns 0, although every other failure of start-up returns 1.\<close>

theorem main_bind_denied_returns_0:
  assumes "files f = Some input" "accepts input c" "config_parse_port c = Inr port" "port \<noteq> - 1"
    and "bind (endpoint_port (port_argument port)) = Some msg"
  shows "\<exists>lg'. main_server files bind what [prog, f] lg =
    Inr (Exit (if msg = ''bind: Permission denied'' then 0 else 1) lg')"
proof -
  have "Parse input (NginxConfig []) = Inr \<lparr>parsed = True, parsed_config = c, printed = []\<rparr>"
    using assms(2) by (simp add: accepts_def)
  with assms show ?thesis by (simp add: main_server_def Parse_file_def guarded_def catch_exception_def)
qed

definition example_conf_file :: string where
  "example_conf_file = ''port 80;''"

lemma example_conf: "accepts example_conf_file (NginxConfig [NginxConfigStatement [''port'', ''80''] None])"
  "config_parse_port (NginxConfig [NginxConfigStatement [''port'', ''80''] None]) = Inr 80"
  unfolding accepts_def example_conf_file_def by code_simp+

theorem main_runs_accepted_config_witness:
  "\<exists>s lg'. main_server [''conf'' \<mapsto> example_conf_file] (\<lambda>_. None) (\<lambda>_. []) [''server'', ''conf''] [] = Inr (Running s lg')"
proof -
  let ?c = "NginxConfig [NginxConfigStatement [''port'', ''80''] None]"
  let ?lg = "log_trace_file ''server config parsing successed'' (log_trace_file ''server config parsing begins'' [])"
  obtain s where s: "new_server (port_argument 80) ?c ?lg = Inr s"
    by (simp add: new_server_def log_all_handlers_def get_location_result_def Let_def)
  have f: "[''conf'' \<mapsto> example_conf_file] ''conf'' = Some example_conf_file" by simp
  show ?thesis
    using main_runs_accepted_config[where files = "[''conf'' \<mapsto> example_conf_file]" and f = "''conf''" and bind = "\<lambda>_. None" and what = "\<lambda>_. []" and prog = "''server''",
        OF f example_conf _ refl s] by auto
qed

theorem main_bind_denied_returns_0_witness:
  "\<exists>lg'. main_server [''conf'' \<mapsto> example_conf_file] (\<lambda>_. Some ''bind: Permission denied'') (\<lambda>_. []) [''server'', ''conf''] [] =
     Inr (Exit (if ''bind: Permission denied'' = ''bind: Permission denied'' then 0 else 1) lg')"
  by (rule main_bind_denied_returns_0[OF _ example_conf]) simp_all

end
